(* ===== verification/QPrelude.thy ===== *)
theory QPrelude
  imports Main "HOL-Library.Word"
begin

text \<open>
  Shared vocabulary of the QConf development.

  A C++ \<open>std::string\<close> and a C byte buffer are both a \<open>string\<close> (a list of 8-bit
  characters).  The theory provides the two buffer operations the sources use
  (\<open>memcpy\<close> into a buffer at an offset, reading a field at an offset), the little-endian
  representation of unsigned integers, the circular order in which the slot loops of the
  shared-memory table visit their slots, and the contracts (locales) that several
  components share.
\<close>

named_theorems buffer_simps \<open>reading fields out of buffers that were written by memcpy\<close>

section \<open>Buffers\<close>

definition chunk :: "nat \<Rightarrow> nat \<Rightarrow> 'a list \<Rightarrow> 'a list" where
  "chunk off n xs = take n (drop off xs)"

definition blit :: "nat \<Rightarrow> 'a list \<Rightarrow> 'a list \<Rightarrow> 'a list" where
  "blit off src dst = take off dst @ src @ drop (off + length src) dst"

lemma length_chunk [simp]: "length (chunk off n xs) = min n (length xs - off)"
  by (simp add: chunk_def)

lemma chunk_zero [simp]: "chunk off 0 xs = []"
  by (simp add: chunk_def)

lemma take_chunk: "take n (chunk off k xs) = chunk off (min n k) xs"
  by (simp add: chunk_def)

lemma length_blit [simp]:
  "off + length src \<le> length dst \<Longrightarrow> length (blit off src dst) = length dst"
  by (simp add: blit_def)

lemma blit_Nil [simp]: "blit off [] dst = dst"
  by (simp add: blit_def)

lemma chunk_blit_same [buffer_simps]:
  assumes "off + length src \<le> length dst" and "n \<le> length src"
  shows "chunk off n (blit off src dst) = take n src"
  using assms by (simp add: chunk_def blit_def)

lemma chunk_blit_before [buffer_simps]:
  assumes "o1 + n \<le> off" and "off \<le> length dst"
  shows "chunk o1 n (blit off src dst) = chunk o1 n dst"
proof -
  have "chunk o1 n (blit off src dst) = chunk o1 n (take off dst)"
    using assms by (simp add: chunk_def blit_def)
  also have "\<dots> = chunk o1 n dst"
    using assms by (simp add: chunk_def drop_take min_def)
  finally show ?thesis .
qed

lemma chunk_blit_after [buffer_simps]:
  assumes "off + length src \<le> o1" and "off + length src \<le> length dst"
  shows "chunk o1 n (blit off src dst) = chunk o1 n dst"
proof -
  have "drop o1 (blit off src dst) = drop o1 dst"
    using assms by (simp add: blit_def)
  then show ?thesis by (simp add: chunk_def)
qed

lemma blit_append:
  assumes "off + length a + length b \<le> length dst"
  shows "blit (off + length a) b (blit off a dst) = blit off (a @ b) dst"
  using assms by (simp add: blit_def add.assoc add.commute add.left_commute)

lemma chunk_append_left: "off + n \<le> length xs \<Longrightarrow> chunk off n (xs @ ys) = chunk off n xs"
  by (simp add: chunk_def)

lemma chunk_append_right: "chunk (length xs + off) n (xs @ ys) = chunk off n ys"
  by (simp add: chunk_def)

lemma chunk_all: "chunk 0 (length xs) xs = xs"
  by (simp add: chunk_def)

section \<open>Little-endian unsigned integers\<close>

fun le_bytes :: "nat \<Rightarrow> nat \<Rightarrow> string" where
  "le_bytes 0 n = []"
| "le_bytes (Suc w) n = char_of (n mod 256) # le_bytes w (n div 256)"

fun le_num :: "string \<Rightarrow> nat" where
  "le_num [] = 0"
| "le_num (c # cs) = of_char c + 256 * le_num cs"

lemma le_bytes_numeral:
  "le_bytes (numeral k) n = char_of (n mod 256) # le_bytes (pred_numeral k) (n div 256)"
  by (simp only: numeral_eq_Suc [of k] le_bytes.simps)

lemma length_le_bytes [simp]: "length (le_bytes w n) = w"
  by (induction w arbitrary: n) auto

lemma le_num_le_bytes [simp]: "le_num (le_bytes w n) = n mod 256 ^ w"
proof (induction w arbitrary: n)
  case 0
  then show ?case by simp
next
  case (Suc w)
  have "le_num (le_bytes (Suc w) n) = n mod 256 + 256 * (n div 256 mod 256 ^ w)"
    by (simp add: Suc.IH)
  also have "\<dots> = n mod (256 * 256 ^ w)"
    by (simp add: mod_mult2_eq)
  finally show ?case by simp
qed

lemma of_char_less_256 [simp]: "(of_char c :: nat) < 256"
  by (metis mod_less_divisor of_char_mod_256 zero_less_numeral)

lemma le_num_bound: "le_num s < 256 ^ length s"
proof (induction s)
  case Nil
  then show ?case by simp
next
  case (Cons c s)
  have "of_char c + 256 * le_num s < 256 + 256 * le_num s"
    by simp
  also have "\<dots> \<le> 256 * 256 ^ length s"
    using Cons.IH by simp
  finally show ?case by simp
qed

lemma le_bytes_le_num [simp]: "le_bytes (length s) (le_num s) = s"
proof (induction s)
  case Nil
  then show ?case by simp
next
  case (Cons c s)
  have "le_bytes (length (c # s)) (le_num (c # s)) =
      char_of ((of_char c + 256 * le_num s) mod 256) # le_bytes (length s) ((of_char c + 256 * le_num s) div 256)"
    by simp
  also have "\<dots> = c # le_bytes (length s) (le_num s)"
    by (simp add: div_add1_eq)
  finally show ?case by (simp add: Cons.IH)
qed

lemma le_bytes_inj:
  assumes "le_bytes w a = le_bytes w b" and "a < 256 ^ w" and "b < 256 ^ w"
  shows "a = b"
  by (metis assms le_num_le_bytes mod_less)

section \<open>Circular order of the slot loops\<close>

definition ring_next :: "nat \<Rightarrow> nat \<Rightarrow> nat" where
  "ring_next m i = (if i + 1 \<ge> m then 0 else i + 1)"

definition ring_from :: "nat \<Rightarrow> nat \<Rightarrow> nat \<Rightarrow> nat list" where
  "ring_from m s i = (if s \<le> i then [i..<m] @ [0..<s] else [i..<s])"

definition ring_dist :: "nat \<Rightarrow> nat \<Rightarrow> nat \<Rightarrow> nat" where
  "ring_dist m s i = (if s \<le> i then m - i + s else s - i)"

lemma ring_next_less [simp]: "i < m \<Longrightarrow> ring_next m i < m"
  by (simp add: ring_next_def)

lemma ring_dist_next:
  "i < m \<Longrightarrow> s < m \<Longrightarrow> ring_next m i \<noteq> s \<Longrightarrow> ring_dist m s (ring_next m i) < ring_dist m s i"
  by (auto simp: ring_dist_def ring_next_def split: if_splits)

lemma ring_from_unfold:
  assumes "i < m" and "s < m"
  shows "ring_from m s i = i # (if ring_next m i = s then [] else ring_from m s (ring_next m i))"
proof (cases "s \<le> i")
  case True
  then show ?thesis
    using assms by (auto simp: ring_from_def ring_next_def upt_conv_Cons)
next
  case False
  then show ?thesis
    using assms by (auto simp: ring_from_def ring_next_def upt_conv_Cons)
qed

lemma set_ring_from: "s < m \<Longrightarrow> set (ring_from m s s) = {..<m}"
  by (auto simp: ring_from_def)

lemma distinct_ring_from: "distinct (ring_from m s i)"
  by (auto simp: ring_from_def)

lemma ring_from_less: "s < m \<Longrightarrow> i \<in> set (ring_from m s j) \<Longrightarrow> i < m"
  by (auto simp: ring_from_def split: if_splits)

section \<open>Lists\<close>

lemma find_SomeD: "find P xs = Some x \<Longrightarrow> x \<in> set xs \<and> P x"
  by (auto simp: find_Some_iff)

section \<open>The contract of a key-value store\<close>

text \<open>
  \<open>ok\<close> is the invariant of the store and \<open>view\<close> its contents as a map from key identities; a store may
  identify keys (\<open>ident\<close>) and may fail to store a value, in which case it may have lost the old
  value of that key and of no other.
\<close>

locale kv_store =
  fixes ok :: "'s \<Rightarrow> bool" and ident :: "'k \<Rightarrow> 'i" and view :: "'s \<Rightarrow> 'i \<Rightarrow> 'v option"
    and get :: "'s \<Rightarrow> 'k \<Rightarrow> 'v option" and del :: "'s \<Rightarrow> 'k \<Rightarrow> 's" and put :: "'s \<Rightarrow> 'k \<Rightarrow> 'v \<Rightarrow> bool \<times> 's"
    and fits :: "'s \<Rightarrow> 'k \<Rightarrow> 'v \<Rightarrow> bool"
  assumes get_view: "ok s \<Longrightarrow> get s k = view s (ident k)"
    and put_ok: "ok s \<Longrightarrow> fits s k v \<Longrightarrow> put s k v = (b, s') \<Longrightarrow> ok s'"
    and put_other: "ok s \<Longrightarrow> fits s k v \<Longrightarrow> put s k v = (b, s') \<Longrightarrow> i \<noteq> ident k \<Longrightarrow> view s' i = view s i"
    and put_same: "ok s \<Longrightarrow> fits s k v \<Longrightarrow> put s k v = (True, s') \<Longrightarrow> view s' (ident k) = Some v"
    and put_fail: "ok s \<Longrightarrow> fits s k v \<Longrightarrow> put s k v = (False, s') \<Longrightarrow>
      view s' (ident k) = view s (ident k) \<or> view s' (ident k) = None"
    and del_ok: "ok s \<Longrightarrow> ok (del s k)"
    and del_view: "ok s \<Longrightarrow> view (del s k) = (view s)(ident k := None)"
begin

lemma get_put_same: "ok s \<Longrightarrow> fits s k v \<Longrightarrow> put s k v = (True, s') \<Longrightarrow> get s' k = Some v"
  using put_ok put_same by (simp add: get_view)

lemma get_put_other:
  "ok s \<Longrightarrow> fits s k v \<Longrightarrow> put s k v = (b, s') \<Longrightarrow> ident k' \<noteq> ident k \<Longrightarrow> get s' k' = get s k'"
  using put_ok put_other by (simp add: get_view)

lemma get_del: "ok s \<Longrightarrow> get (del s k) k' = (if ident k' = ident k then None else get s k')"
  by (simp add: get_view del_ok del_view)

lemma put_no_invention:
  assumes "ok s" "fits s k v" "put s k v = (b, s')" "view s' i = Some w"
  shows "i = ident k \<and> w = v \<or> view s i = Some w"
proof (cases "i = ident k")
  case True
  then show ?thesis
    using assms put_same [of s k v s'] put_fail [of s k v s'] by (cases b) auto
next
  case False
  then show ?thesis using assms put_other [of s k v b s' i] by simp
qed

lemma dels_view:
  "ok s \<Longrightarrow> ok (foldl del s ks) \<and> view (foldl del s ks) i = (if i \<in> ident ` set ks then None else view s i)"
  by (induction ks arbitrary: s) (auto simp: del_ok del_view)

end

section \<open>The contract of a recency list\<close>

text \<open>
  \<open>keys\<close> lists the tracked keys, most recent first; \<open>victim\<close> is the key to evict next and \<open>cut\<close>
  forgets it; \<open>touch\<close> makes a key the most recent one unless it is exempt from eviction.
\<close>

locale recency =
  fixes ok :: "'s \<Rightarrow> bool" and keys :: "'s \<Rightarrow> 'k list" and victim :: "'s \<Rightarrow> 'k" and cut :: "'s \<Rightarrow> 's"
    and touch :: "'k \<Rightarrow> 's \<Rightarrow> 's" and exempt :: "'k \<Rightarrow> bool"
  assumes keys_distinct: "ok s \<Longrightarrow> distinct (keys s)"
    and victim_last: "ok s \<Longrightarrow> keys s \<noteq> [] \<Longrightarrow> victim s = last (keys s)"
    and cut_ok: "ok s \<Longrightarrow> keys s \<noteq> [] \<Longrightarrow> ok (cut s)"
    and cut_keys: "ok s \<Longrightarrow> keys s \<noteq> [] \<Longrightarrow> keys (cut s) = butlast (keys s)"
    and touch_ok: "ok s \<Longrightarrow> ok (touch k s)"
    and touch_keys: "ok s \<Longrightarrow> keys (touch k s) = (if exempt k then keys s else k # removeAll k (keys s))"
begin

lemma split_victim: "ok s \<Longrightarrow> keys s \<noteq> [] \<Longrightarrow> keys s = keys (cut s) @ [victim s]"
  by (simp add: victim_last cut_keys)

lemma touch_set: "ok s \<Longrightarrow> \<not> exempt k \<Longrightarrow> set (keys (touch k s)) = insert k (set (keys s))"
  by (auto simp: touch_keys)

lemma touch_twice: "ok s \<Longrightarrow> keys (touch k (touch k s)) = keys (touch k s)"
  by (simp add: touch_keys touch_ok)

lemma victim_not_recent:
  assumes "ok s" "\<not> exempt k" "keys s \<noteq> []" "keys s \<noteq> [k]"
  shows "victim (touch k s) \<noteq> k"
proof -
  have ok: "ok (touch k s)" and d: "distinct (keys (touch k s))"
    using assms(1) touch_ok keys_distinct by blast+
  have ne: "removeAll k (keys s) \<noteq> []"
    using keys_distinct [OF assms(1)] assms(3,4) by (cases "keys s") (auto simp: removeAll_id split: if_splits)
  have "victim (touch k s) = last (removeAll k (keys s))"
    using victim_last [OF ok] ne by (simp add: touch_keys assms)
  then show ?thesis using last_in_set [OF ne] by auto
qed

lemma touches_ok: "ok s \<Longrightarrow> ok (fold touch ks s)"
  by (induction ks arbitrary: s) (simp_all add: touch_ok)

lemma touches_set: "ok s \<Longrightarrow> set (keys (fold touch ks s)) = set (keys s) \<union> {k \<in> set ks. \<not> exempt k}"
  by (induction ks arbitrary: s) (auto simp: touch_ok touch_keys)

end

end
