(* ===== verification/QCommon.thy ===== *)
theory QCommon
  imports QPrelude
begin

text \<open>
  The constants of \<open>src/base/qconf_common.h\<close> and of \<open>src/agent/qconf_const.h\<close>: return codes,
  data types of table keys, service states and size limits.  Return codes are the integers of
  the source, so that codes the source identifies (or distinguishes) by value are identified
  (or distinguished) in the model.
\<close>

section \<open>Return codes\<close>

abbreviation (input) QCONF_ERR_OTHER :: int where "QCONF_ERR_OTHER \<equiv> -1"
abbreviation (input) QCONF_OK :: int where "QCONF_OK \<equiv> 0"
abbreviation (input) QCONF_ERR_PARAM :: int where "QCONF_ERR_PARAM \<equiv> 1"
abbreviation (input) QCONF_ERR_MEM :: int where "QCONF_ERR_MEM \<equiv> 2"
abbreviation (input) QCONF_ERR_TBL_SET :: int where "QCONF_ERR_TBL_SET \<equiv> 3"
abbreviation (input) QCONF_ERR_BUF_NOT_ENOUGH :: int where "QCONF_ERR_BUF_NOT_ENOUGH \<equiv> 6"
abbreviation (input) QCONF_ERR_DATA_TYPE :: int where "QCONF_ERR_DATA_TYPE \<equiv> 7"
abbreviation (input) QCONF_ERR_DATA_FORMAT :: int where "QCONF_ERR_DATA_FORMAT \<equiv> 8"
abbreviation (input) QCONF_ERR_NOT_FOUND :: int where "QCONF_ERR_NOT_FOUND \<equiv> 10"
abbreviation (input) QCONF_ERR_OPEN_DUMP :: int where "QCONF_ERR_OPEN_DUMP \<equiv> 11"
abbreviation (input) QCONF_ERR_WRITE_DUMP :: int where "QCONF_ERR_WRITE_DUMP \<equiv> 15"
abbreviation (input) QCONF_ERR_SAME_VALUE :: int where "QCONF_ERR_SAME_VALUE \<equiv> 16"
abbreviation (input) QCONF_ERR_TBL_DATA_MESS :: int where "QCONF_ERR_TBL_DATA_MESS \<equiv> 18"
abbreviation (input) QCONF_ERR_TBL_END :: int where "QCONF_ERR_TBL_END \<equiv> 19"
abbreviation (input) QCONF_ERR_OUT_OF_RANGE :: int where "QCONF_ERR_OUT_OF_RANGE \<equiv> 20"
abbreviation (input) QCONF_ERR_NOT_NUMBER :: int where "QCONF_ERR_NOT_NUMBER \<equiv> 21"
abbreviation (input) QCONF_ERR_OTHRE_CHARACTER :: int where "QCONF_ERR_OTHRE_CHARACTER \<equiv> 22"
abbreviation (input) QCONF_ERR_INVALID_IP :: int where "QCONF_ERR_INVALID_IP \<equiv> 30"
abbreviation (input) QCONF_ERR_E2BIG :: int where "QCONF_ERR_E2BIG \<equiv> 41"
abbreviation (input) QCONF_ERR_MSGGET :: int where "QCONF_ERR_MSGGET \<equiv> 42"
abbreviation (input) QCONF_ERR_MSGSND :: int where "QCONF_ERR_MSGSND \<equiv> 43"
abbreviation (input) QCONF_ERR_MSGRCV :: int where "QCONF_ERR_MSGRCV \<equiv> 44"
abbreviation (input) QCONF_ERR_MSGIDRM :: int where "QCONF_ERR_MSGIDRM \<equiv> 45"
abbreviation (input) QCONF_ERR_MSGFULL :: int where "QCONF_ERR_MSGFULL \<equiv> 46"
abbreviation (input) QCONF_ERR_OPEN :: int where "QCONF_ERR_OPEN \<equiv> 51"
abbreviation (input) QCONF_ERR_DEL_DUMP :: int where "QCONF_ERR_DEL_DUMP \<equiv> 52"
abbreviation (input) QCONF_ERR_MKDIR :: int where "QCONF_ERR_MKDIR \<equiv> 54"
abbreviation (input) QCONF_ERR_READ :: int where "QCONF_ERR_READ \<equiv> 55"
abbreviation (input) QCONF_ERR_ZOO_FAILED :: int where "QCONF_ERR_ZOO_FAILED \<equiv> 61"
abbreviation (input) QCONF_ERR_CMD :: int where "QCONF_ERR_CMD \<equiv> 71"
abbreviation (input) QCONF_ERR_NULL_LOCAL_IDC :: int where "QCONF_ERR_NULL_LOCAL_IDC \<equiv> 81"
abbreviation (input) QCONF_ERR_FAILED_READ_FILE :: int where "QCONF_ERR_FAILED_READ_FILE \<equiv> 102"
abbreviation (input) QCONF_ERR_FB_TIMEOUT :: int where "QCONF_ERR_FB_TIMEOUT \<equiv> 111"
abbreviation (input) QCONF_ERR_SCRIPT_NOT_EXIST :: int where "QCONF_ERR_SCRIPT_NOT_EXIST \<equiv> 116"
abbreviation (input) QCONF_ERR_SCRIPT_DIR_NOT_INIT :: int where "QCONF_ERR_SCRIPT_DIR_NOT_INIT \<equiv> 117"
abbreviation (input) QCONF_ERR_GRAY_GET_NOTIFY_NODE :: int where "QCONF_ERR_GRAY_GET_NOTIFY_NODE \<equiv> 119"
abbreviation (input) QCONF_ERR_GRAY_GET_NOTIFY_CONTENT :: int where "QCONF_ERR_GRAY_GET_NOTIFY_CONTENT \<equiv> 120"
abbreviation (input) QCONF_ERR_GRAY_FAKE_SHM_FAILED :: int where "QCONF_ERR_GRAY_FAKE_SHM_FAILED \<equiv> 121"
abbreviation (input) QCONF_ERR_SHMGET :: int where "QCONF_ERR_SHMGET \<equiv> 201"
abbreviation (input) QCONF_ERR_SHMAT :: int where "QCONF_ERR_SHMAT \<equiv> 202"
abbreviation (input) QCONF_ERR_SHMINIT :: int where "QCONF_ERR_SHMINIT \<equiv> 203"
abbreviation (input) QCONF_NODE_NOT_EXIST :: int where "QCONF_NODE_NOT_EXIST \<equiv> -2"
abbreviation (input) QCONF_NODE_EXIST :: int where "QCONF_NODE_EXIST \<equiv> -3"

section \<open>Data types of table keys\<close>

abbreviation (input) QCONF_DATA_TYPE_UNKNOWN :: char where "QCONF_DATA_TYPE_UNKNOWN \<equiv> CHR ''0''"
abbreviation (input) QCONF_DATA_TYPE_ZK_HOST :: char where "QCONF_DATA_TYPE_ZK_HOST \<equiv> CHR ''1''"
abbreviation (input) QCONF_DATA_TYPE_NODE :: char where "QCONF_DATA_TYPE_NODE \<equiv> CHR ''2''"
abbreviation (input) QCONF_DATA_TYPE_SERVICE :: char where "QCONF_DATA_TYPE_SERVICE \<equiv> CHR ''3''"
abbreviation (input) QCONF_DATA_TYPE_BATCH_NODE :: char where "QCONF_DATA_TYPE_BATCH_NODE \<equiv> CHR ''4''"
abbreviation (input) QCONF_DATA_TYPE_LOCAL_IDC :: char where "QCONF_DATA_TYPE_LOCAL_IDC \<equiv> CHR ''a''"
abbreviation (input) QCONF_KEY_TYPE_LOCAL_IDC :: string where "QCONF_KEY_TYPE_LOCAL_IDC \<equiv> ''a''"

section \<open>Service states\<close>

abbreviation (input) STATUS_UNKNOWN :: int where "STATUS_UNKNOWN \<equiv> -1"
abbreviation (input) STATUS_UP :: int where "STATUS_UP \<equiv> 0"
abbreviation (input) STATUS_OFFLINE :: int where "STATUS_OFFLINE \<equiv> 1"
abbreviation (input) STATUS_DOWN :: int where "STATUS_DOWN \<equiv> 2"

section \<open>Limits\<close>

abbreviation (input) QCONF_MD5_INT_LEN :: nat where "QCONF_MD5_INT_LEN \<equiv> 16"
abbreviation (input) QCONF_MAX_SEND_MSG_TIMES :: nat where "QCONF_MAX_SEND_MSG_TIMES \<equiv> 3"
abbreviation (input) QCONF_MAX_MSG_LEN :: nat where "QCONF_MAX_MSG_LEN \<equiv> 2048"
abbreviation (input) QCONF_MAX_VALUE_SIZE :: nat where "QCONF_MAX_VALUE_SIZE \<equiv> 1048577"
abbreviation (input) QCONF_GET_RETRIES :: nat where "QCONF_GET_RETRIES \<equiv> 3"

section \<open>C strings\<close>

text \<open>A NUL-terminated view of a byte buffer: what \<open>strlen\<close>, \<open>c_str()\<close> consumers and
  \<open>std::string(const char * )\<close> see.\<close>

definition NUL :: char where "NUL = CHR 0x00"

definition cstr :: "string \<Rightarrow> string" where
  "cstr s = takeWhile (\<lambda>c. c \<noteq> NUL) s"

definition strlen :: "string \<Rightarrow> nat" where
  "strlen s = length (cstr s)"

lemma cstr_id [simp]: "NUL \<notin> set s \<Longrightarrow> cstr s = s"
  by (auto simp: cstr_def takeWhile_eq_all_conv)

lemma NUL_notin_cstr [simp]: "NUL \<notin> set (cstr s)"
  by (auto simp: cstr_def dest: set_takeWhileD)

lemma cstr_cstr [simp]: "cstr (cstr s) = cstr s"
  by simp

lemma strlen_le: "strlen s \<le> length s"
  by (simp add: strlen_def cstr_def length_takeWhile_le)

text \<open>
  \<open>string_vector_t\<close> (ZooKeeper's \<open>String_vector\<close>): \<open>count\<close> is the length of the list, an entry is
  NULL or the bytes of its allocated buffer (without the terminator).
\<close>

type_synonym string_vector_t = "string option list"

definition sv_str :: "string option \<Rightarrow> string" where
  "sv_str p = (case p of None \<Rightarrow> [] | Some s \<Rightarrow> cstr s)"

lemma sv_str_Some [simp]: "sv_str (Some s) = cstr s"
  by (simp add: sv_str_def)

text \<open>\<open>find_last_of\<close> one character, \<open>None\<close> for \<open>npos\<close>.\<close>

definition find_last_of :: "char \<Rightarrow> string \<Rightarrow> nat option" where
  "find_last_of c s = (if c \<in> set s then Some (length s - 1 - length (takeWhile (\<lambda>x. x \<noteq> c) (rev s))) else None)"

lemma find_last_of_split:
  assumes "c \<notin> set b"
  shows "find_last_of c (a @ c # b) = Some (length a)"
proof -
  have "takeWhile (\<lambda>x. x \<noteq> c) (rev b @ [c] @ rev a) = rev b"
    using assms by (subst takeWhile_append2) auto
  then show ?thesis by (simp add: find_last_of_def)
qed

lemma find_last_of_less:
  assumes "find_last_of c s = Some i"
  shows "i < length s"
proof -
  have "c \<in> set s" using assms by (simp add: find_last_of_def split: if_splits)
  then obtain a b where "s = a @ c # b" "c \<notin> set b" using split_list_last by metis
  then show ?thesis using assms find_last_of_split by auto
qed

end
