(* ===== verification/QFormat.thy ===== *)
theory QFormat
  imports QCommon "HOL-Library.List_Lexorder" "HOL-Library.Char_ord"
begin

text \<open>
  Serialisation of table keys and table values: \<open>src/base/qconf_format.h\<close> and
  \<open>src/base/qconf_format.cc\<close>.

  A field is a little-endian length of fixed width followed by the bytes; the width is the
  size of the macro parameter \<open>d_type\<close> (1 byte for an IDC name, 2 for a host or path, 4 for a
  node value).  Reading functions take the position and the previous contents of their output
  arguments and return the code with the new position and contents, so that what an error
  leaves behind is part of the model.

  Main results: the field codec is prefix-free (locale \<open>field_codec\<close>), table keys decode to what
  they were built from and are injective, and each kind of table value decodes to the value,
  the IDC and the path it was built from.
\<close>

section \<open>Numbers and length-prefixed fields\<close>

abbreviation (input) QCONF_VECTOR_COUNT_LEN :: nat where "QCONF_VECTOR_COUNT_LEN \<equiv> 2"
abbreviation (input) QCONF_IDC_SIZE_LEN :: nat where "QCONF_IDC_SIZE_LEN \<equiv> 1"
abbreviation (input) QCONF_HOST_PATH_SIZE_LEN :: nat where "QCONF_HOST_PATH_SIZE_LEN \<equiv> 2"
abbreviation (input) QCONF_VALUE_SIZE_LEN :: nat where "QCONF_VALUE_SIZE_LEN \<equiv> 4"

text \<open>Conversion of a value to an unsigned type of \<open>w\<close> bytes.\<close>

definition to_width :: "nat \<Rightarrow> nat \<Rightarrow> nat" where
  "to_width w n = n mod 256 ^ w"

text \<open>
  \<open>memcpy\<close> of the number on a little-endian host, and the shift loops of the other branch of the
  macros (\<open>qconf_encode_shift\<close>, \<open>qconf_decode_shift\<close>).
\<close>

definition qconf_encode_num :: "nat \<Rightarrow> nat \<Rightarrow> string" where
  "qconf_encode_num w num = le_bytes w num"

definition qconf_encode_shift :: "nat \<Rightarrow> nat \<Rightarrow> string" where
  "qconf_encode_shift w num = map (\<lambda>i. char_of (drop_bit (i * 8) num mod 256)) [0..<w]"

definition qconf_decode_num :: "nat \<Rightarrow> string \<Rightarrow> nat" where
  "qconf_decode_num w buf = le_num (take w buf)"

definition qconf_decode_shift :: "nat \<Rightarrow> string \<Rightarrow> nat" where
  "qconf_decode_shift w buf = fold (\<lambda>i num. num + push_bit (i * 8) (of_char (buf ! i))) [0..<w] 0"

definition qconf_string_append :: "nat \<Rightarrow> string \<Rightarrow> string \<Rightarrow> string" where
  "qconf_string_append w dst src =
     (let size = to_width w (length src) in dst @ qconf_encode_num w size @ src)"

definition qconf_string_sub :: "nat \<Rightarrow> string \<Rightarrow> nat \<Rightarrow> string \<Rightarrow> int \<times> nat \<times> string" where
  "qconf_string_sub w s sub_pos sub_string =
     (if length s \<ge> sub_pos + w then
        (let size = qconf_decode_num w (drop sub_pos s);
             pos = sub_pos + w
         in if length s \<ge> pos + size then (QCONF_OK, pos + size, chunk pos size s)
            else (QCONF_ERR_DATA_FORMAT, pos, sub_string))
      else (QCONF_ERR_DATA_FORMAT, sub_pos, sub_string))"

definition qconf_append_idc :: "string \<Rightarrow> string \<Rightarrow> string" where
  "qconf_append_idc tblkey idc = qconf_string_append QCONF_IDC_SIZE_LEN tblkey idc"

definition qconf_append_path :: "string \<Rightarrow> string \<Rightarrow> string" where
  "qconf_append_path tblkey path = qconf_string_append QCONF_HOST_PATH_SIZE_LEN tblkey path"

definition qconf_append_host :: "string \<Rightarrow> string \<Rightarrow> string" where
  "qconf_append_host tblkey host = qconf_string_append QCONF_HOST_PATH_SIZE_LEN tblkey host"

definition qconf_append_nodeval :: "string \<Rightarrow> string \<Rightarrow> string" where
  "qconf_append_nodeval tblkey nodeval = qconf_string_append QCONF_VALUE_SIZE_LEN tblkey nodeval"

definition qconf_sub_idc :: "string \<Rightarrow> nat \<Rightarrow> string \<Rightarrow> int \<times> nat \<times> string" where
  "qconf_sub_idc tblkey pos idc = qconf_string_sub QCONF_IDC_SIZE_LEN tblkey pos idc"

definition qconf_sub_host :: "string \<Rightarrow> nat \<Rightarrow> string \<Rightarrow> int \<times> nat \<times> string" where
  "qconf_sub_host tblkey pos host = qconf_string_sub QCONF_HOST_PATH_SIZE_LEN tblkey pos host"

definition qconf_sub_path :: "string \<Rightarrow> nat \<Rightarrow> string \<Rightarrow> int \<times> nat \<times> string" where
  "qconf_sub_path tblkey pos path = qconf_string_sub QCONF_HOST_PATH_SIZE_LEN tblkey pos path"

definition qconf_sub_nodeval :: "string \<Rightarrow> nat \<Rightarrow> string \<Rightarrow> int \<times> nat \<times> string" where
  "qconf_sub_nodeval tblkey pos nodeval = qconf_string_sub QCONF_VALUE_SIZE_LEN tblkey pos nodeval"

section \<open>Table keys\<close>

definition serialize_to_tblkey :: "char \<Rightarrow> string \<Rightarrow> string \<Rightarrow> int \<times> string" where
  "serialize_to_tblkey data_type idc path =
     (let tblkey = [data_type] in
      if data_type = QCONF_DATA_TYPE_NODE \<or> data_type = QCONF_DATA_TYPE_SERVICE
         \<or> data_type = QCONF_DATA_TYPE_BATCH_NODE
      then (QCONF_OK, qconf_append_path (qconf_append_idc tblkey idc) path)
      else if data_type = QCONF_DATA_TYPE_ZK_HOST then (QCONF_OK, qconf_append_idc tblkey idc)
      else if data_type = QCONF_DATA_TYPE_LOCAL_IDC then (QCONF_OK, tblkey)
      else (QCONF_ERR_DATA_TYPE, tblkey))"

text \<open>The code of the caller and the three output arguments.\<close>

definition deserialize_from_tblkey ::
  "string \<Rightarrow> char \<times> string \<times> string \<Rightarrow> int \<times> char \<times> string \<times> string" where
  "deserialize_from_tblkey tblkey outs =
     (case outs of (data_type0, idc0, path0) \<Rightarrow>
      if length tblkey \<le> 0 then (QCONF_ERR_DATA_FORMAT, data_type0, idc0, path0)
      else
        (let data_type = tblkey ! 0; pos = 1 in
         if data_type = QCONF_DATA_TYPE_NODE \<or> data_type = QCONF_DATA_TYPE_SERVICE
            \<or> data_type = QCONF_DATA_TYPE_BATCH_NODE
         then (case qconf_sub_idc tblkey pos idc0 of (r1, pos1, idc) \<Rightarrow>
                 if r1 \<noteq> QCONF_OK then (QCONF_ERR_DATA_FORMAT, data_type, idc, path0)
                 else (case qconf_sub_path tblkey pos1 path0 of (r2, pos2, path) \<Rightarrow>
                   if r2 \<noteq> QCONF_OK then (QCONF_ERR_DATA_FORMAT, data_type, idc, path)
                   else (QCONF_OK, data_type, idc, path)))
         else if data_type = QCONF_DATA_TYPE_ZK_HOST
         then (case qconf_sub_idc tblkey pos idc0 of (r1, pos1, idc) \<Rightarrow>
                 if r1 \<noteq> QCONF_OK then (QCONF_ERR_DATA_FORMAT, data_type, idc, path0)
                 else (QCONF_OK, data_type, idc, path0))
         else if data_type = QCONF_DATA_TYPE_LOCAL_IDC then (QCONF_OK, data_type, idc0, path0)
         else (QCONF_ERR_DATA_TYPE, data_type, idc0, path0)))"

section \<open>Table values\<close>

definition localidc_to_tblval :: "string \<Rightarrow> string \<Rightarrow> int \<times> string" where
  "localidc_to_tblval key local_idc = (QCONF_OK, qconf_append_idc [] local_idc @ key)"

definition nodeval_to_tblval :: "string \<Rightarrow> string \<Rightarrow> int \<times> string" where
  "nodeval_to_tblval key nodeval = (QCONF_OK, qconf_append_nodeval [] nodeval @ key)"

text \<open>One entry of a vector: the 16-bit \<open>strlen\<close> and that many bytes of the C string.\<close>

definition vector_entry :: "string option \<Rightarrow> string" where
  "vector_entry p =
     (let node_size = to_width QCONF_HOST_PATH_SIZE_LEN (length (sv_str p))
      in qconf_encode_num QCONF_HOST_PATH_SIZE_LEN node_size @ take node_size (sv_str p))"

text \<open>The two loops over \<open>nodes\<close> visit index \<open>i\<close> of the vector and of the flags together.\<close>

definition chdnodeval_to_tblval :: "string \<Rightarrow> string_vector_t \<Rightarrow> int list \<Rightarrow> int \<times> string" where
  "chdnodeval_to_tblval key nodes valid_flg =
     (let up = map fst (filter (\<lambda>(node, flg). STATUS_UP = flg) (zip nodes valid_flg));
          valid_cnt = to_width QCONF_VECTOR_COUNT_LEN (length up)
      in (QCONF_OK,
          qconf_encode_num QCONF_VECTOR_COUNT_LEN valid_cnt @ concat (map vector_entry up) @ key))"

definition batchnodeval_to_tblval :: "string \<Rightarrow> string_vector_t \<Rightarrow> int \<times> string" where
  "batchnodeval_to_tblval key nodes =
     (let size = to_width QCONF_VECTOR_COUNT_LEN (length nodes)
      in (QCONF_OK,
          qconf_encode_num QCONF_VECTOR_COUNT_LEN size @ concat (map vector_entry nodes) @ key))"

definition idcval_to_tblval :: "string \<Rightarrow> string \<Rightarrow> int \<times> string" where
  "idcval_to_tblval key host = (QCONF_OK, qconf_append_host [] host @ key)"

definition get_data_type :: "string \<Rightarrow> char" where
  "get_data_type v = (if v = [] then QCONF_DATA_TYPE_UNKNOWN else v ! 0)"

text \<open>The check that follows the payload in every value: the byte at \<open>pos\<close> is the data type
  (the first byte of the appended key).\<close>

definition data_type_at :: "string \<Rightarrow> nat \<Rightarrow> char \<Rightarrow> bool" where
  "data_type_at tblval pos dt \<longleftrightarrow> \<not> (length tblval < pos + 1 \<or> tblval ! pos \<noteq> dt)"

definition tblval_to_localidc :: "string \<Rightarrow> string \<Rightarrow> int \<times> string" where
  "tblval_to_localidc tblval idc0 =
     (case qconf_sub_idc tblval 0 idc0 of (r, pos, idc) \<Rightarrow>
        if r \<noteq> QCONF_OK then (QCONF_ERR_DATA_FORMAT, idc)
        else if \<not> data_type_at tblval pos QCONF_DATA_TYPE_LOCAL_IDC then (QCONF_ERR_DATA_FORMAT, idc)
        else (QCONF_OK, idc))"

text \<open>\<open>tblval_to_idcval(tblval, host)\<close> and its overload that also reads the IDC.\<close>

definition tblval_to_idcval :: "string \<Rightarrow> string \<Rightarrow> int \<times> string" where
  "tblval_to_idcval tblval host0 =
     (case qconf_sub_host tblval 0 host0 of (r, pos, host) \<Rightarrow>
        if r \<noteq> QCONF_OK then (QCONF_ERR_DATA_FORMAT, host)
        else if \<not> data_type_at tblval pos QCONF_DATA_TYPE_ZK_HOST then (QCONF_ERR_DATA_FORMAT, host)
        else (QCONF_OK, host))"

definition tblval_to_idcval_idc :: "string \<Rightarrow> string \<times> string \<Rightarrow> int \<times> string \<times> string" where
  "tblval_to_idcval_idc tblval outs =
     (case outs of (host0, idc0) \<Rightarrow>
      case qconf_sub_host tblval 0 host0 of (r, pos, host) \<Rightarrow>
        if r \<noteq> QCONF_OK then (QCONF_ERR_DATA_FORMAT, host, idc0)
        else if \<not> data_type_at tblval pos QCONF_DATA_TYPE_ZK_HOST
        then (QCONF_ERR_DATA_FORMAT, host, idc0)
        else (case qconf_sub_idc tblval (pos + 1) idc0 of (r2, pos2, idc) \<Rightarrow>
                if r2 \<noteq> QCONF_OK then (QCONF_ERR_DATA_FORMAT, host, idc) else (QCONF_OK, host, idc)))"

definition tblval_to_nodeval :: "string \<Rightarrow> string \<Rightarrow> int \<times> string" where
  "tblval_to_nodeval tblval nodeval0 =
     (case qconf_sub_nodeval tblval 0 nodeval0 of (r, pos, nodeval) \<Rightarrow>
        if r \<noteq> QCONF_OK then (r, nodeval)
        else if \<not> data_type_at tblval pos QCONF_DATA_TYPE_NODE then (QCONF_ERR_DATA_FORMAT, nodeval)
        else (QCONF_OK, nodeval))"

text \<open>The common tail of the overloads that also read the IDC and the path.\<close>

definition sub_idc_path :: "string \<Rightarrow> nat \<Rightarrow> string \<times> string \<Rightarrow> int \<times> string \<times> string" where
  "sub_idc_path tblval pos outs =
     (case outs of (idc0, path0) \<Rightarrow>
      case qconf_sub_idc tblval pos idc0 of (r1, pos1, idc) \<Rightarrow>
        if r1 \<noteq> QCONF_OK then (QCONF_ERR_DATA_FORMAT, idc, path0)
        else (case qconf_sub_path tblval pos1 path0 of (r2, pos2, path) \<Rightarrow>
                if r2 \<noteq> QCONF_OK then (QCONF_ERR_DATA_FORMAT, idc, path) else (QCONF_OK, idc, path)))"

definition tblval_to_nodeval_path ::
  "string \<Rightarrow> string \<times> string \<times> string \<Rightarrow> int \<times> string \<times> string \<times> string" where
  "tblval_to_nodeval_path tblval outs =
     (case outs of (nodeval0, idc0, path0) \<Rightarrow>
      case qconf_sub_nodeval tblval 0 nodeval0 of (r, pos, nodeval) \<Rightarrow>
        if r \<noteq> QCONF_OK then (r, nodeval, idc0, path0)
        else if \<not> data_type_at tblval pos QCONF_DATA_TYPE_NODE
        then (QCONF_ERR_DATA_FORMAT, nodeval, idc0, path0)
        else (case sub_idc_path tblval (pos + 1) (idc0, path0) of (r2, idc, path) \<Rightarrow>
                (r2, nodeval, idc, path)))"

text \<open>
  \<open>qconf_sub_vectorval\<close>: \<open>mem n\<close> says whether an allocation of \<open>n\<close> bytes succeeds.  The loop
  writes entry \<open>i\<close> of an array of NULL pointers; entries after a format error stay NULL.
\<close>

function sub_vector_loop ::
  "(nat \<Rightarrow> bool) \<Rightarrow> string \<Rightarrow> nat \<Rightarrow> nat \<Rightarrow> string_vector_t \<Rightarrow> int \<times> nat \<times> string_vector_t" where
  "sub_vector_loop mem tblval i pos data =
     (if i < length data then
        (if length tblval < pos + QCONF_HOST_PATH_SIZE_LEN then (QCONF_ERR_DATA_FORMAT, pos, data)
         else
           (let size = qconf_decode_num QCONF_HOST_PATH_SIZE_LEN (drop pos tblval);
                pos1 = pos + QCONF_HOST_PATH_SIZE_LEN
            in if length tblval < pos1 + size then (QCONF_ERR_DATA_FORMAT, pos1, data)
               else if \<not> mem (size + 1) then (QCONF_ERR_MEM, pos1, [])
               else sub_vector_loop mem tblval (i + 1) (pos1 + size)
                      (data[i := Some (chunk pos1 size tblval)])))
      else (QCONF_OK, pos, data))"
  by pat_completeness auto
termination
  by (relation "measure (\<lambda>(mem, tblval, i, pos, data). length data - i)") auto

declare sub_vector_loop.simps [simp del]

definition qconf_sub_vectorval ::
  "(nat \<Rightarrow> bool) \<Rightarrow> string \<Rightarrow> nat \<Rightarrow> string_vector_t \<Rightarrow> int \<times> nat \<times> string_vector_t" where
  "qconf_sub_vectorval mem tblval pos nodes =
     (if length tblval < pos + QCONF_VECTOR_COUNT_LEN then (QCONF_ERR_DATA_FORMAT, pos, nodes)
      else
        (let count = qconf_decode_num QCONF_VECTOR_COUNT_LEN (drop pos tblval);
             pos1 = pos + QCONF_VECTOR_COUNT_LEN
         in if count = 0 then (QCONF_OK, pos1, [])
            else if \<not> mem (count * 8) then (QCONF_ERR_MEM, pos1, replicate count None)
            else sub_vector_loop mem tblval 0 pos1 (replicate count None)))"

definition tblval_to_vector_typed ::
  "(nat \<Rightarrow> bool) \<Rightarrow> char \<Rightarrow> string \<Rightarrow> string_vector_t \<Rightarrow> int \<times> string_vector_t" where
  "tblval_to_vector_typed mem dt tblval nodes0 =
     (case qconf_sub_vectorval mem tblval 0 nodes0 of (r, pos, nodes) \<Rightarrow>
        if r \<noteq> QCONF_OK then (r, nodes)
        else if \<not> data_type_at tblval pos dt then (QCONF_ERR_DATA_FORMAT, nodes)
        else (QCONF_OK, nodes))"

definition tblval_to_chdnodeval ::
  "(nat \<Rightarrow> bool) \<Rightarrow> string \<Rightarrow> string_vector_t \<Rightarrow> int \<times> string_vector_t" where
  "tblval_to_chdnodeval mem tblval nodes = tblval_to_vector_typed mem QCONF_DATA_TYPE_SERVICE tblval nodes"

definition tblval_to_batchnodeval ::
  "(nat \<Rightarrow> bool) \<Rightarrow> string \<Rightarrow> string_vector_t \<Rightarrow> int \<times> string_vector_t" where
  "tblval_to_batchnodeval mem tblval nodes = tblval_to_vector_typed mem QCONF_DATA_TYPE_BATCH_NODE tblval nodes"

definition tblval_to_vectorval ::
  "(nat \<Rightarrow> bool) \<Rightarrow> string \<Rightarrow> char \<Rightarrow> string_vector_t \<times> string \<times> string \<Rightarrow>
   int \<times> string_vector_t \<times> string \<times> string" where
  "tblval_to_vectorval mem tblval data_type outs =
     (case outs of (nodes0, idc0, path0) \<Rightarrow>
      case qconf_sub_vectorval mem tblval 0 nodes0 of (r, pos, nodes) \<Rightarrow>
        if r \<noteq> QCONF_OK then (r, nodes, idc0, path0)
        else if \<not> data_type_at tblval pos data_type then (QCONF_ERR_DATA_FORMAT, nodes, idc0, path0)
        else (case sub_idc_path tblval (pos + 1) (idc0, path0) of (r2, idc, path) \<Rightarrow>
                (r2, nodes, idc, path)))"

definition tblval_to_chdnodeval_path ::
  "(nat \<Rightarrow> bool) \<Rightarrow> string \<Rightarrow> string_vector_t \<times> string \<times> string \<Rightarrow>
   int \<times> string_vector_t \<times> string \<times> string" where
  "tblval_to_chdnodeval_path mem tblval outs = tblval_to_vectorval mem tblval QCONF_DATA_TYPE_SERVICE outs"

definition tblval_to_batchnodeval_path ::
  "(nat \<Rightarrow> bool) \<Rightarrow> string \<Rightarrow> string_vector_t \<times> string \<times> string \<Rightarrow>
   int \<times> string_vector_t \<times> string \<times> string" where
  "tblval_to_batchnodeval_path mem tblval outs = tblval_to_vectorval mem tblval QCONF_DATA_TYPE_BATCH_NODE outs"

definition serialize_to_idc_host :: "string \<Rightarrow> string \<Rightarrow> string" where
  "serialize_to_idc_host idc host = qconf_append_host (qconf_append_idc [] idc) host"

definition deserialize_from_idc_host :: "string \<Rightarrow> string \<times> string \<Rightarrow> int \<times> string \<times> string" where
  "deserialize_from_idc_host idc_host outs =
     (case outs of (idc0, host0) \<Rightarrow>
      case qconf_sub_idc idc_host 0 idc0 of (r1, pos1, idc) \<Rightarrow>
        if r1 \<noteq> QCONF_OK then (QCONF_ERR_DATA_FORMAT, idc, host0)
        else (case qconf_sub_host idc_host pos1 host0 of (r2, pos2, host) \<Rightarrow>
                if r2 \<noteq> QCONF_OK then (QCONF_ERR_DATA_FORMAT, idc, host) else (QCONF_OK, idc, host)))"

section \<open>Gray-release contents\<close>

text \<open>A \<open>std::set<std::string>\<close> is visited in ascending (unsigned lexicographic) order.\<close>

definition gray_entry :: "string \<Rightarrow> string" where
  "gray_entry s = qconf_encode_num QCONF_VALUE_SIZE_LEN (to_width QCONF_VALUE_SIZE_LEN (length s)) @ s"

definition graynodeval_to_tblval :: "string set \<Rightarrow> int \<times> string" where
  "graynodeval_to_tblval nodes =
     (QCONF_OK,
      qconf_encode_num QCONF_VECTOR_COUNT_LEN (to_width QCONF_VECTOR_COUNT_LEN (card nodes))
      @ concat (map gray_entry (sorted_list_of_set nodes)))"

fun gray_loop :: "nat \<Rightarrow> string \<Rightarrow> nat \<Rightarrow> string set \<Rightarrow> int \<times> string set" where
  "gray_loop 0 tblval pos nodes = (QCONF_OK, nodes)"
| "gray_loop (Suc n) tblval pos nodes =
     (if length tblval < pos + QCONF_VALUE_SIZE_LEN then (QCONF_ERR_OTHER, nodes)
      else
        (let len = qconf_decode_num QCONF_VALUE_SIZE_LEN (drop pos tblval);
             pos1 = pos + QCONF_VALUE_SIZE_LEN
         in if length tblval < pos1 + len then (QCONF_ERR_OTHER, nodes)
            else gray_loop n tblval (pos1 + len) (insert (chunk pos1 len tblval) nodes)))"

definition tblval_to_graynodeval :: "string \<Rightarrow> int \<times> string set" where
  "tblval_to_graynodeval tblval =
     (if length tblval < QCONF_VECTOR_COUNT_LEN then (QCONF_ERR_OTHER, {})
      else
        (let size = qconf_decode_num QCONF_VECTOR_COUNT_LEN tblval in
         if size = 0 then (QCONF_OK, {})
         else gray_loop size tblval QCONF_VECTOR_COUNT_LEN {}))"

section \<open>The field codec\<close>

lemma char_mod_256 [simp]: "char_of (n mod 256 :: nat) = (char_of n :: char)"
  by (metis char_of_mod_256)

lemma drop_bit_8: "drop_bit (i * 8) (n :: nat) = n div 256 ^ i"
  by (simp add: drop_bit_eq_div power_mult mult.commute [of i])

lemma push_bit_8: "push_bit (i * 8) (n :: nat) = n * 256 ^ i"
  by (simp add: push_bit_eq_mult power_mult mult.commute [of i])

text \<open>Both branches of the macros agree: the wire format does not depend on the host.\<close>

lemma encode_shift_Suc:
  "qconf_encode_shift (Suc w) n = char_of (n mod 256) # qconf_encode_shift w (n div 256)"
proof -
  have "[0..<Suc w] = 0 # map Suc [0..<w]"
    by (simp add: map_Suc_upt upt_conv_Cons del: upt_Suc)
  then show ?thesis
    by (simp add: qconf_encode_shift_def drop_bit_8 div_mult2_eq del: upt_Suc)
qed

lemma encode_shift_eq: "qconf_encode_shift w n = qconf_encode_num w n"
proof (induction w arbitrary: n)
  case 0
  then show ?case by (simp add: qconf_encode_shift_def qconf_encode_num_def)
next
  case (Suc w)
  then show ?case by (simp add: encode_shift_Suc qconf_encode_num_def)
qed

lemma decode_shift_fold:
  "fold (\<lambda>i num. num + push_bit (i * 8) (of_char (buf ! i))) [0..<w] a
     = a + (\<Sum>i<w. of_char (buf ! i) * 256 ^ i :: nat)"
  by (induction w) (simp_all add: push_bit_8)

lemma le_num_sum: "le_num s = (\<Sum>i<length s. of_char (s ! i) * 256 ^ i)"
proof (induction s)
  case (Cons c s)
  then show ?case
    by (simp add: sum.lessThan_Suc_shift sum_distrib_left mult.assoc mult.left_commute del: sum.lessThan_Suc)
qed simp

lemma decode_shift_eq:
  assumes "w \<le> length buf"
  shows "qconf_decode_shift w buf = qconf_decode_num w buf"
  using assms by (simp add: qconf_decode_shift_def qconf_decode_num_def decode_shift_fold le_num_sum)

lemma length_encode [simp]: "length (qconf_encode_num w n) = w"
  by (simp add: qconf_encode_num_def)

lemma decode_encode [simp]: "qconf_decode_num w (qconf_encode_num w n @ r) = n mod 256 ^ w"
  by (simp add: qconf_decode_num_def qconf_encode_num_def)

lemma to_width_id [simp]: "n < 256 ^ w \<Longrightarrow> to_width w n = n"
  by (simp add: to_width_def)

lemma to_width_mod [simp]: "to_width w n mod 256 ^ w = to_width w n"
  by (simp add: to_width_def)

text \<open>
  The contract of a length-prefixed field: \<open>app\<close> appends a field, \<open>sub\<close> reads the field at a
  position; \<open>cap\<close> bounds the lengths the field can represent.
\<close>

locale field_codec =
  fixes app :: "string \<Rightarrow> string \<Rightarrow> string"
    and sub :: "string \<Rightarrow> nat \<Rightarrow> string \<Rightarrow> int \<times> nat \<times> string"
    and cap :: nat
  assumes app_at_end: "app dst src = dst @ app [] src"
    and sub_app: "length src < cap \<Longrightarrow>
      sub (dst @ app [] src @ rest) (length dst) x = (QCONF_OK, length dst + length (app [] src), src)"
    and sub_total: "sub s pos x = (r, pos', y) \<Longrightarrow> r = QCONF_OK \<or> r = QCONF_ERR_DATA_FORMAT"
    and sub_bound: "sub s pos x = (QCONF_OK, pos', y) \<Longrightarrow> pos < pos' \<and> pos' \<le> length s"
begin

lemma sub_app_first:
  "length src < cap \<Longrightarrow> sub (app [] src @ rest) 0 x = (QCONF_OK, length (app [] src), src)"
  using sub_app [of src "[]"] by simp

lemma sub_app_next:
  "length src < cap \<Longrightarrow> sub (app dst src @ rest) (length dst) x = (QCONF_OK, length (app dst src), src)"
  by (metis app_at_end append.assoc length_append sub_app)

lemma prefix_free:
  assumes "app [] a @ r = app [] b @ s" and "length a < cap" and "length b < cap"
  shows "a = b \<and> r = s"
proof -
  have "sub (app [] a @ r) 0 [] = sub (app [] b @ s) 0 []"
    using assms by simp
  then have "a = b"
    using sub_app_first [of a r "[]"] sub_app_first [of b s "[]"] assms(2,3) by simp
  with assms(1) show ?thesis by simp
qed

end

text \<open>Two fields in a row, as in table keys, value tails and \<open>idc_host\<close> strings.\<close>

locale field_pair = a: field_codec app1 sub1 cap1 + b: field_codec app2 sub2 cap2
  for app1 sub1 cap1 app2 sub2 cap2
begin

lemma pair_at_end: "app2 (app1 dst x) y = dst @ app2 (app1 [] x) y"
  by (metis a.app_at_end append.assoc b.app_at_end)

lemma sub_pair:
  assumes "length x < cap1" and "length y < cap2"
  shows "sub1 (dst @ app2 (app1 [] x) y @ rest) (length dst) u
           = (QCONF_OK, length dst + length (app1 [] x), x)"
    and "sub2 (dst @ app2 (app1 [] x) y @ rest) (length dst + length (app1 [] x)) v
           = (QCONF_OK, length dst + length (app2 (app1 [] x) y), y)"
proof -
  have split: "app2 (app1 [] x) y = app1 [] x @ app2 [] y"
    by (rule b.app_at_end)
  show "sub1 (dst @ app2 (app1 [] x) y @ rest) (length dst) u
           = (QCONF_OK, length dst + length (app1 [] x), x)"
    using a.sub_app [OF assms(1)] by (simp add: split)
  show "sub2 (dst @ app2 (app1 [] x) y @ rest) (length dst + length (app1 [] x)) v
           = (QCONF_OK, length dst + length (app2 (app1 [] x) y), y)"
    using b.sub_app [OF assms(2), of "dst @ app1 [] x" rest v] by (simp add: split add.assoc)
qed

lemma pair_inj:
  assumes "app2 (app1 [] x) y @ r = app2 (app1 [] x') y' @ r'"
    and "length x < cap1" "length y < cap2" "length x' < cap1" "length y' < cap2"
  shows "x = x' \<and> y = y' \<and> r = r'"
proof -
  have "app1 [] x @ app2 [] y @ r = app1 [] x' @ app2 [] y' @ r'"
    using assms(1) by (simp add: b.app_at_end [of "app1 [] x"] b.app_at_end [of "app1 [] x'"])
  from a.prefix_free [OF this assms(2,4)] have "x = x'" "app2 [] y @ r = app2 [] y' @ r'"
    by auto
  moreover from b.prefix_free [OF this(2) assms(3,5)] have "y = y'" "r = r'"
    by auto
  ultimately show ?thesis by simp
qed

end

lemma string_append_sub:
  assumes "length src < 256 ^ w"
  shows "qconf_string_sub w (dst @ qconf_string_append w [] src @ rest) (length dst) x
           = (QCONF_OK, length dst + length (qconf_string_append w [] src), src)"
  using assms by (simp add: qconf_string_sub_def qconf_string_append_def chunk_def Let_def)

lemma string_sub_bound:
  "qconf_string_sub w s pos x = (r, pos', y) \<Longrightarrow> 0 < w \<Longrightarrow>
   (r = QCONF_OK \<or> r = QCONF_ERR_DATA_FORMAT) \<and> (r = QCONF_OK \<longrightarrow> pos < pos' \<and> pos' \<le> length s)"
  by (auto simp: qconf_string_sub_def Let_def split: if_splits)

lemma field_codec_string:
  assumes "0 < w"
  shows "field_codec (qconf_string_append w) (qconf_string_sub w) (256 ^ w)"
proof
  show "qconf_string_append w dst src = dst @ qconf_string_append w [] src" for dst src
    by (simp add: qconf_string_append_def Let_def)
  show "length src < 256 ^ w \<Longrightarrow> qconf_string_sub w (dst @ qconf_string_append w [] src @ rest) (length dst) x
      = (QCONF_OK, length dst + length (qconf_string_append w [] src), src)" for src dst rest x
    by (rule string_append_sub)
  show "qconf_string_sub w s pos x = (r, pos', y) \<Longrightarrow> r = QCONF_OK \<or> r = QCONF_ERR_DATA_FORMAT"
    for s pos x r pos' y
    using string_sub_bound assms by blast
  show "qconf_string_sub w s pos x = (QCONF_OK, pos', y) \<Longrightarrow> pos < pos' \<and> pos' \<le> length s"
    for s pos x pos' y
    using string_sub_bound assms by blast
qed

lemma append_idc_fun: "qconf_append_idc = qconf_string_append 1"
  and append_path_fun: "qconf_append_path = qconf_string_append 2"
  and append_host_fun: "qconf_append_host = qconf_string_append 2"
  and append_nodeval_fun: "qconf_append_nodeval = qconf_string_append 4"
  and sub_idc_fun: "qconf_sub_idc = qconf_string_sub 1"
  and sub_path_fun: "qconf_sub_path = qconf_string_sub 2"
  and sub_host_fun: "qconf_sub_host = qconf_string_sub 2"
  and sub_nodeval_fun: "qconf_sub_nodeval = qconf_string_sub 4"
  by (simp_all add: fun_eq_iff qconf_append_idc_def qconf_append_path_def qconf_append_host_def
      qconf_append_nodeval_def qconf_sub_idc_def qconf_sub_path_def qconf_sub_host_def qconf_sub_nodeval_def)

interpretation idcf: field_codec qconf_append_idc qconf_sub_idc 256
  using field_codec_string [of 1] by (simp add: append_idc_fun sub_idc_fun)

interpretation hostf: field_codec qconf_append_host qconf_sub_host 65536
  using field_codec_string [of 2] by (simp add: append_host_fun sub_host_fun)

interpretation valf: field_codec qconf_append_nodeval qconf_sub_nodeval 4294967296
  using field_codec_string [of 4] by (simp add: append_nodeval_fun sub_nodeval_fun)

interpretation idc_path: field_pair qconf_append_idc qconf_sub_idc 256 qconf_append_path qconf_sub_path 65536
  using field_codec_string [of 1] field_codec_string [of 2]
  by (simp add: field_pair_def append_idc_fun sub_idc_fun append_path_fun sub_path_fun)

interpretation idc_hostf: field_pair qconf_append_idc qconf_sub_idc 256 qconf_append_host qconf_sub_host 65536
  using field_codec_string [of 1] field_codec_string [of 2]
  by (simp add: field_pair_def append_idc_fun sub_idc_fun append_host_fun sub_host_fun)

lemma decode_encode_end [simp]: "qconf_decode_num w (qconf_encode_num w n) = n mod 256 ^ w"
  using decode_encode [of w n "[]"] by simp

section \<open>Table keys\<close>

abbreviation user_type :: "char \<Rightarrow> bool" where
  "user_type dt \<equiv> dt = QCONF_DATA_TYPE_NODE \<or> dt = QCONF_DATA_TYPE_SERVICE \<or> dt = QCONF_DATA_TYPE_BATCH_NODE"

lemma serialize_user:
  "user_type dt \<Longrightarrow> serialize_to_tblkey dt idc path = (QCONF_OK, dt # qconf_append_path (qconf_append_idc [] idc) path)"
  by (subst serialize_to_tblkey_def) (use idc_path.pair_at_end [of "[dt]" idc path] in auto)

lemma sub_idc_path_fields:
  assumes "length idc < 256" and "length path < 65536"
  shows "sub_idc_path (dst @ qconf_append_path (qconf_append_idc [] idc) path @ rest) (length dst) outs
           = (QCONF_OK, idc, path)"
  using idc_path.sub_pair [OF assms] by (cases outs) (simp add: sub_idc_path_def)

lemma deserialize_user:
  "user_type dt \<Longrightarrow> deserialize_from_tblkey (dt # r) (d, idc0, path0) =
     (case sub_idc_path (dt # r) 1 (idc0, path0) of (c, idc, path) \<Rightarrow> (c, dt, idc, path))"
  by (auto simp: deserialize_from_tblkey_def sub_idc_path_def split: prod.splits)

lemma tblkey_rt:
  assumes "dt = QCONF_DATA_TYPE_NODE \<or> dt = QCONF_DATA_TYPE_SERVICE \<or> dt = QCONF_DATA_TYPE_BATCH_NODE"
    and "length idc < 256" and "length path < 65536"
  shows "deserialize_from_tblkey (snd (serialize_to_tblkey dt idc path)) outs = (QCONF_OK, dt, idc, path)"
proof (cases outs)
  case (fields d i p)
  show ?thesis
    using sub_idc_path_fields [OF assms(2,3), of "[dt]" "[]"]
    by (simp add: fields serialize_user [OF assms(1)] deserialize_user [OF assms(1)])
qed

text \<open>
  C27: A table key decodes to exactly what it was built from: reading the key built for a user
  data type (node, service, batch node), an IDC name of at most 255 bytes and a path of at most
  65535 bytes returns success with the same type, IDC and path, whatever the output arguments
  held before.
\<close>

theorem tblkey_roundtrip:
  assumes "dt = QCONF_DATA_TYPE_NODE \<or> dt = QCONF_DATA_TYPE_SERVICE \<or> dt = QCONF_DATA_TYPE_BATCH_NODE"
    and "length idc < 256" and "length path < 65536"
  shows "deserialize_from_tblkey (snd (serialize_to_tblkey dt idc path)) outs = (QCONF_OK, dt, idc, path)"
  using assms by (rule tblkey_rt)

theorem tblkey_roundtrip_witness:
  "deserialize_from_tblkey (snd (serialize_to_tblkey (CHR ''3'') ''test'' ''/qconf/demo'')) (CHR ''0'', [], [])
     = (QCONF_OK, CHR ''3'', ''test'', ''/qconf/demo'')"
  by (rule tblkey_roundtrip) simp_all

text \<open>
  Table keys are unambiguous: two requests that serialise to the same key have the same
  data type, IDC and path, so that two configuration items never share an entry of the table.
\<close>

lemma tblkey_injective:
  assumes "serialize_to_tblkey dt idc path = (QCONF_OK, key)"
    and "serialize_to_tblkey dt' idc' path' = (QCONF_OK, key)"
    and "length idc < 256" "length idc' < 256" "length path < 65536" "length path' < 65536"
  shows "dt = dt' \<and> (dt \<noteq> QCONF_DATA_TYPE_LOCAL_IDC \<longrightarrow> idc = idc')
     \<and> (dt \<noteq> QCONF_DATA_TYPE_LOCAL_IDC \<and> dt \<noteq> QCONF_DATA_TYPE_ZK_HOST \<longrightarrow> path = path')"
proof -
  have head: "d = hd key" if "serialize_to_tblkey d i p = (QCONF_OK, key)" for d i p
    using that serialize_user [of d i p] idcf.app_at_end [of "[d]" i]
    by (cases "user_type d")
      (auto simp: serialize_to_tblkey_def Let_def split: if_splits dest: arg_cong [where f = hd])
  then have dt: "dt = dt'"
    using assms(1,2) by metis
  have "user_type dt \<or> dt = QCONF_DATA_TYPE_ZK_HOST \<or> dt = QCONF_DATA_TYPE_LOCAL_IDC"
    using assms(1) by (auto simp: serialize_to_tblkey_def Let_def split: if_splits)
  then consider (user) "user_type dt" | (host) "dt = QCONF_DATA_TYPE_ZK_HOST" | (loc) "dt = QCONF_DATA_TYPE_LOCAL_IDC"
    by blast
  then show ?thesis
  proof cases
    case user
    then have "qconf_append_path (qconf_append_idc [] idc) path @ [] = qconf_append_path (qconf_append_idc [] idc') path' @ []"
      using assms(1,2) dt serialize_user [OF user] by auto
    from idc_path.pair_inj [OF this assms(3,5,4,6)] show ?thesis
      using dt by simp
  next
    case host
    then have "qconf_append_idc [] idc @ [] = qconf_append_idc [] idc' @ []"
      using assms(1,2) dt
      by (auto simp: serialize_to_tblkey_def idcf.app_at_end [of "[CHR ''1'']"])
    from idcf.prefix_free [OF this assms(3,4)] show ?thesis
      using dt host by simp
  next
    case loc
    then show ?thesis using dt by simp
  qed
qed

lemma tblkey_injective_example:
  "serialize_to_tblkey QCONF_DATA_TYPE_ZK_HOST ''bj'' ''/a'' = serialize_to_tblkey QCONF_DATA_TYPE_ZK_HOST ''bj'' ''/b''
   \<and> QCONF_DATA_TYPE_ZK_HOST = QCONF_DATA_TYPE_ZK_HOST \<and> ''bj'' = ''bj''"
proof -
  have eq: "serialize_to_tblkey QCONF_DATA_TYPE_ZK_HOST ''bj'' p = (QCONF_OK, qconf_append_idc [QCONF_DATA_TYPE_ZK_HOST] ''bj'')" for p
    by (simp add: serialize_to_tblkey_def)
  show ?thesis
    using tblkey_injective [OF eq [of "''/a''"] eq [of "''/b''"]] by (simp add: eq)
qed

section \<open>Table values\<close>

lemma data_type_at_append [simp]: "data_type_at (xs @ dt # r) (length xs) dt' \<longleftrightarrow> dt = dt'"
  by (simp add: data_type_at_def)

lemma nodeval_tail:
  assumes "length v < 4294967296"
  shows "qconf_sub_nodeval (snd (nodeval_to_tblval key v)) 0 x
           = (QCONF_OK, length (qconf_append_nodeval [] v), v)"
  using valf.sub_app_first [OF assms] by (simp add: nodeval_to_tblval_def)

lemma nodeval_rt:
  assumes "length idc < 256" and "length path < 65536" and "length v < 4294967296"
  shows "let tblval = snd (nodeval_to_tblval (snd (serialize_to_tblkey QCONF_DATA_TYPE_NODE idc path)) v)
         in tblval_to_nodeval_path tblval outs = (QCONF_OK, v, idc, path)
          \<and> tblval_to_nodeval tblval old = (QCONF_OK, v)"
proof -
  let ?b = "qconf_append_nodeval [] v"
  define key where "key = snd (serialize_to_tblkey (CHR ''2'') idc path)"
  define tblval where "tblval = snd (nodeval_to_tblval key v)"
  have key: "key = CHR ''2'' # qconf_append_path (qconf_append_idc [] idc) path"
    using serialize_user [of "CHR ''2''"] by (simp add: key_def)
  have val: "tblval = ?b @ key"
    by (simp add: tblval_def nodeval_to_tblval_def)
  have "qconf_sub_nodeval tblval 0 x = (QCONF_OK, length ?b, v)" for x
    using valf.sub_app_first [OF assms(3)] by (simp add: val)
  moreover have "data_type_at tblval (length ?b) (CHR ''2'')"
    by (simp add: val key)
  moreover have "sub_idc_path tblval (length ?b + 1) o2 = (QCONF_OK, idc, path)" for o2
    using sub_idc_path_fields [OF assms(1,2), of "?b @ [CHR ''2'']" "[]"] by (simp add: val key)
  ultimately show ?thesis
    by (cases outs) (simp add: tblval_to_nodeval_path_def tblval_to_nodeval_def Let_def
        flip: key_def tblval_def)
qed

text \<open>
  A node value decodes to the value, the IDC and the path it was stored for.
\<close>

lemma nodeval_roundtrip:
  assumes "length idc < 256" and "length path < 65536" and "length v < 4294967296"
  shows "let tblval = snd (nodeval_to_tblval (snd (serialize_to_tblkey QCONF_DATA_TYPE_NODE idc path)) v)
         in tblval_to_nodeval_path tblval outs = (QCONF_OK, v, idc, path)
          \<and> tblval_to_nodeval tblval old = (QCONF_OK, v)"
  using assms by (rule nodeval_rt)

lemma nodeval_roundtrip_example:
  "let tblval = snd (nodeval_to_tblval (snd (serialize_to_tblkey QCONF_DATA_TYPE_NODE ''test'' ''/demo/conf'')) ''on'')
   in tblval_to_nodeval_path tblval ([], [], []) = (QCONF_OK, ''on'', ''test'', ''/demo/conf'')
    \<and> tblval_to_nodeval tblval [] = (QCONF_OK, ''on'')"
  by (rule nodeval_roundtrip) simp_all

text \<open>Vectors: an entry with its length.\<close>

definition entry_bytes :: "string \<Rightarrow> string" where
  "entry_bytes s = qconf_encode_num 2 (length s) @ s"

lemma length_entry_bytes [simp]: "length (entry_bytes s) = 2 + length s"
  by (simp add: entry_bytes_def)

definition sv_cut :: "string option \<Rightarrow> string" where
  "sv_cut p = take (to_width 2 (length (sv_str p))) (sv_str p)"

lemma length_sv_cut: "length (sv_cut p) = to_width 2 (length (sv_str p))"
  by (simp add: sv_cut_def to_width_def min_def mod_less_eq_dividend)

lemma vector_entry_bytes: "vector_entry p = entry_bytes (sv_cut p)"
  by (simp add: vector_entry_def entry_bytes_def length_sv_cut) (simp add: sv_cut_def Let_def)

lemma map_vector_entry: "map vector_entry ps = map entry_bytes (map sv_cut ps)"
  by (simp add: vector_entry_bytes)

lemma length_sv_cut_less: "length (sv_cut p) < 65536"
  by (simp add: length_sv_cut to_width_def)

lemma sub_vector_loop_done:
  "length data \<le> i \<Longrightarrow> sub_vector_loop mem t i pos data = (QCONF_OK, pos, data)"
  by (simp add: sub_vector_loop.simps)

lemma sub_vector_loop_entries:
  assumes "\<forall>s\<in>set xs. length s < 65536 \<and> mem (length s + 1)"
  shows "sub_vector_loop mem (pre @ concat (map entry_bytes xs) @ rest) (length dn) (length pre)
           (map Some dn @ replicate (length xs) None)
         = (QCONF_OK, length pre + length (concat (map entry_bytes xs)), map Some (dn @ xs))"
  using assms
proof (induction xs arbitrary: pre dn)
  case Nil
  then show ?case by (simp add: sub_vector_loop_done)
next
  case (Cons s xs)
  let ?t = "pre @ concat (map entry_bytes (s # xs)) @ rest"
  have size: "qconf_decode_num 2 (drop (length pre) ?t) = length s"
    using Cons.prems by (simp add: entry_bytes_def)
  have cut: "chunk (length pre + 2) (length s) ?t = s"
    by (simp add: chunk_def entry_bytes_def)
  have upd: "(map Some dn @ replicate (length (s # xs)) None)[length dn := Some s]
      = map Some (dn @ [s]) @ replicate (length xs) None"
    by (simp add: list_update_append)
  have "sub_vector_loop mem ?t (length dn) (length pre) (map Some dn @ replicate (length (s # xs)) None)
      = sub_vector_loop mem ?t (length dn + 1) (length pre + 2 + length s)
          (map Some (dn @ [s]) @ replicate (length xs) None)"
    using Cons.prems size cut upd
    by (subst sub_vector_loop.simps) (simp add: Let_def)
  also have "\<dots> = (QCONF_OK, length pre + length (concat (map entry_bytes (s # xs))), map Some (dn @ s # xs))"
    using Cons.IH [of "pre @ entry_bytes s" "dn @ [s]"] Cons.prems
    by (simp add: add.assoc)
  finally show ?case .
qed

lemma sub_vectorval_entries:
  assumes "\<forall>s\<in>set xs. length s < 65536 \<and> mem (length s + 1)"
    and "length xs < 65536" and "mem (length xs * 8)"
  shows "qconf_sub_vectorval mem (qconf_encode_num 2 (length xs) @ concat (map entry_bytes xs) @ rest) 0 ns
         = (QCONF_OK, 2 + length (concat (map entry_bytes xs)), map Some xs)"
  using sub_vector_loop_entries [OF assms(1), of "qconf_encode_num 2 (length xs)" rest "[]"] assms(2,3)
  by (cases "xs = []") (simp_all add: qconf_sub_vectorval_def Let_def del: add_2_eq_Suc add_2_eq_Suc')

lemma tblval_to_vectorval_entries:
  assumes "\<forall>s\<in>set xs. length s < 65536 \<and> mem (length s + 1)"
    and "length xs < 65536" and "mem (length xs * 8)"
    and "length idc < 256" and "length path < 65536" and "user_type dt"
    and "serialize_to_tblkey dt idc path = (QCONF_OK, key)"
    and "t = qconf_encode_num 2 (length xs) @ concat (map entry_bytes xs) @ key"
  shows "tblval_to_vectorval mem t dt outs = (QCONF_OK, map Some xs, idc, path)"
    and "tblval_to_vector_typed mem dt t ns = (QCONF_OK, map Some xs)"
proof -
  let ?b = "qconf_encode_num 2 (length xs) @ concat (map entry_bytes xs)"
  have key: "key = dt # qconf_append_path (qconf_append_idc [] idc) path"
    using assms(7) serialize_user [OF assms(6)] by auto
  have t: "t = ?b @ dt # qconf_append_path (qconf_append_idc [] idc) path"
    using assms(8) key by simp
  have sub: "qconf_sub_vectorval mem t 0 x = (QCONF_OK, length ?b, map Some xs)" for x
    using sub_vectorval_entries [OF assms(1-3)] assms(8) by simp
  have dta: "data_type_at t (length ?b) dt"
    unfolding t by (rule data_type_at_append [THEN iffD2]) simp
  have "sub_idc_path t (length ?b + 1) o2 = (QCONF_OK, idc, path)" for o2
    using sub_idc_path_fields [OF assms(4,5), of "?b @ [dt]" "[]"] by (simp add: t)
  then show "tblval_to_vectorval mem t dt outs = (QCONF_OK, map Some xs, idc, path)"
    using sub dta by (cases outs) (simp add: tblval_to_vectorval_def)
  show "tblval_to_vector_typed mem dt t ns = (QCONF_OK, map Some xs)"
    using sub dta by (simp add: tblval_to_vector_typed_def)
qed

text \<open>The nodes of a service that are stored: those whose flag says the service is up.\<close>

definition up_nodes :: "string_vector_t \<Rightarrow> int list \<Rightarrow> string_vector_t" where
  "up_nodes nodes flgs = map fst (filter (\<lambda>(n, f). f = STATUS_UP) (zip nodes flgs))"

lemma chdnodeval_bytes:
  "length (up_nodes nodes flgs) < 65536 \<Longrightarrow> chdnodeval_to_tblval key nodes flgs =
     (QCONF_OK, qconf_encode_num 2 (length (map sv_cut (up_nodes nodes flgs)))
        @ concat (map entry_bytes (map sv_cut (up_nodes nodes flgs))) @ key)"
proof -
  have "map fst (filter (\<lambda>(node, flg). STATUS_UP = flg) (zip nodes flgs)) = up_nodes nodes flgs"
    by (simp add: up_nodes_def eq_commute [of STATUS_UP])
  then show "length (up_nodes nodes flgs) < 65536 \<Longrightarrow> ?thesis"
    by (simp add: chdnodeval_to_tblval_def Let_def map_vector_entry)
qed

lemma batchnodeval_bytes:
  "length nodes < 65536 \<Longrightarrow> batchnodeval_to_tblval key nodes =
     (QCONF_OK, qconf_encode_num 2 (length (map sv_cut nodes)) @ concat (map entry_bytes (map sv_cut nodes)) @ key)"
  by (simp add: batchnodeval_to_tblval_def Let_def map_vector_entry)

lemma sv_cut_id: "length s < 65536 \<Longrightarrow> NUL \<notin> set s \<Longrightarrow> sv_cut (Some s) = s"
  by (simp add: sv_cut_def)

lemma services_rt:
  assumes "length idc < 256" and "length path < 65536"
    and "length names = length flgs" and "length names < 65536"
    and "\<forall>s\<in>set names. length s < 65536 \<and> NUL \<notin> set s"
    and "\<forall>n. mem n"
  shows "tblval_to_chdnodeval_path mem
      (snd (chdnodeval_to_tblval (snd (serialize_to_tblkey QCONF_DATA_TYPE_SERVICE idc path)) (map Some names) flgs)) outs
    = (QCONF_OK, map Some [n. (n, f) \<leftarrow> zip names flgs, f = STATUS_UP], idc, path)"
proof -
  define ups where "ups = [n. (n, f) \<leftarrow> zip names flgs, f = STATUS_UP]"
  have up: "up_nodes (map Some names) flgs = map Some ups"
    using assms(3) unfolding ups_def
    by (induction names flgs rule: list_induct2) (auto simp: up_nodes_def)
  have sub: "set ups \<subseteq> set names"
    by (auto simp: ups_def dest: set_zip_leftD)
  have cut: "map sv_cut (map Some ups) = ups"
    using assms(5) sub by (auto simp: sv_cut_id intro!: map_idI)
  have len: "length ups < 65536"
  proof -
    have "length ups \<le> length names"
      using assms(3) unfolding ups_def by (induction names flgs rule: list_induct2) auto
    then show ?thesis using assms(4) by simp
  qed
  define key where "key = snd (serialize_to_tblkey (CHR ''3'') idc path)"
  define tblval where "tblval = snd (chdnodeval_to_tblval key (map Some names) flgs)"
  have "serialize_to_tblkey (CHR ''3'') idc path = (QCONF_OK, key)"
    by (simp add: key_def serialize_user)
  moreover have "tblval = qconf_encode_num 2 (length ups) @ concat (map entry_bytes ups) @ key"
    using chdnodeval_bytes [of "map Some names" flgs key] len cut
    by (simp only: up length_map tblval_def) simp
  ultimately have "tblval_to_vectorval mem tblval (CHR ''3'') outs = (QCONF_OK, map Some ups, idc, path)"
    using tblval_to_vectorval_entries(1) [of ups mem idc path "CHR ''3''" key tblval outs] assms sub len
    by auto
  then show ?thesis
    by (simp add: tblval_to_chdnodeval_path_def flip: ups_def key_def tblval_def)
qed

text \<open>
  C28: A service value holds exactly the services that are up: decoding the value stored for a
  list of children and their states yields, in order, the children whose state is up, together
  with the IDC and the path of the key.
\<close>

theorem services_roundtrip:
  assumes "length idc < 256" and "length path < 65536"
    and "length names = length flgs" and "length names < 65536"
    and "\<forall>s\<in>set names. length s < 65536 \<and> NUL \<notin> set s"
    and "\<forall>n. mem n"
  shows "tblval_to_chdnodeval_path mem
      (snd (chdnodeval_to_tblval (snd (serialize_to_tblkey QCONF_DATA_TYPE_SERVICE idc path)) (map Some names) flgs)) outs
    = (QCONF_OK, map Some [n. (n, f) \<leftarrow> zip names flgs, f = STATUS_UP], idc, path)"
  using assms by (rule services_rt)

theorem services_roundtrip_witness:
  "tblval_to_chdnodeval_path (\<lambda>_. True)
     (snd (chdnodeval_to_tblval (snd (serialize_to_tblkey QCONF_DATA_TYPE_SERVICE ''test'' ''/demo''))
        (map Some [''10.0.0.1:80'', ''10.0.0.2:80'', ''10.0.0.3:80'']) [STATUS_UP, STATUS_DOWN, STATUS_UP])) ([], [], [])
   = (QCONF_OK, map Some [''10.0.0.1:80'', ''10.0.0.3:80''], ''test'', ''/demo'')"
  using services_roundtrip [of "''test''" "''/demo''" "[''10.0.0.1:80'', ''10.0.0.2:80'', ''10.0.0.3:80'']"
        "[STATUS_UP, STATUS_DOWN, STATUS_UP]" "\<lambda>_. True" "([], [], [])"]
  by (simp add: NUL_def)

section \<open>Gray-release contents\<close>

lemma gray_loop_entries:
  assumes "\<forall>s\<in>set xs. length s < 4294967296"
  shows "gray_loop (length xs) (pre @ concat (map gray_entry xs) @ rest) (length pre) S = (QCONF_OK, S \<union> set xs)"
  using assms
proof (induction xs arbitrary: pre S)
  case Nil
  then show ?case by simp
next
  case (Cons s xs)
  then have "length s < 256 ^ 4" by simp
  moreover have "gray_loop (length xs) ((pre @ gray_entry s) @ concat (map gray_entry xs) @ rest)
      (length (pre @ gray_entry s)) (insert s S) = (QCONF_OK, insert s S \<union> set xs)"
    by (rule Cons.IH) (use Cons.prems in simp)
  ultimately show ?case
    by (simp add: gray_entry_def [of s] chunk_def Let_def add.assoc)
qed

lemma graynode_rt:
  assumes "finite nodes" and "card nodes < 65536" and "\<forall>s\<in>nodes. length s < 4294967296"
  shows "tblval_to_graynodeval (snd (graynodeval_to_tblval nodes)) = (QCONF_OK, nodes)"
proof -
  let ?xs = "sorted_list_of_set nodes"
  have len: "length ?xs = card nodes" by simp
  have "gray_loop (length ?xs) (qconf_encode_num 2 (card nodes) @ concat (map gray_entry ?xs) @ []) 
      (length (qconf_encode_num 2 (card nodes))) {} = (QCONF_OK, {} \<union> set ?xs)"
    by (rule gray_loop_entries) (use assms in simp)
  then show ?thesis
    using assms by (cases "nodes = {}")
      (simp_all add: tblval_to_graynodeval_def graynodeval_to_tblval_def Let_def)
qed

text \<open>
  The gray-release notification content round-trips: the set of node names decoded from the
  encoding of a set of fewer than 65536 names is that set.
\<close>

lemma graynode_roundtrip:
  assumes "finite nodes" and "card nodes < 65536" and "\<forall>s\<in>nodes. length s < 4294967296"
  shows "tblval_to_graynodeval (snd (graynodeval_to_tblval nodes)) = (QCONF_OK, nodes)"
  using assms by (rule graynode_rt)

lemma graynode_roundtrip_example:
  "tblval_to_graynodeval (snd (graynodeval_to_tblval {''/demo/a'', ''/demo/b''})) = (QCONF_OK, {''/demo/a'', ''/demo/b''})"
  by (rule graynode_roundtrip) auto

end
