(* ===== verification/QMsg.thy ===== *)
theory QMsg
  imports QFormat
begin

text \<open>
  The message queue from the drivers to the agent: \<open>src/base/qconf_msg.cc\<close>.

  The System V calls are parameters: \<open>msgget key create\<close> is an identifier or fails, \<open>msgsnd n msg\<close> is the
  outcome (0, or an \<open>errno\<close>) of the \<open>n\<close>-th send of the process, \<open>msgrcv\<close> the outcome of a receive.
\<close>

abbreviation (input) EAGAIN :: int where "EAGAIN \<equiv> 11"
abbreviation (input) EIDRM :: int where "EIDRM \<equiv> 43"

definition init_msg_queue :: "(int \<Rightarrow> bool \<Rightarrow> int option) \<Rightarrow> int \<Rightarrow> int \<times> int" where
  "init_msg_queue msgget key =
     (case msgget key False of None \<Rightarrow> (QCONF_ERR_MSGGET, -1) | Some msqid \<Rightarrow> (QCONF_OK, msqid))"

definition create_msg_queue :: "(int \<Rightarrow> bool \<Rightarrow> int option) \<Rightarrow> int \<Rightarrow> int \<times> int" where
  "create_msg_queue msgget key =
     (case msgget key True of None \<Rightarrow> (QCONF_ERR_MSGGET, -1) | Some msqid \<Rightarrow> (QCONF_OK, msqid))"

text \<open>The retry loop of \<open>send_msg\<close>: the code and the number of sends the process has made.\<close>

function send_loop :: "(nat \<Rightarrow> string \<Rightarrow> int) \<Rightarrow> string \<Rightarrow> nat \<Rightarrow> nat \<Rightarrow> int \<times> nat" where
  "send_loop msgsnd msg n try_send_times =
     (let ret = msgsnd n msg in
      if ret = 0 then (QCONF_OK, n + 1)
      else if ret = EAGAIN then
        (if try_send_times < QCONF_MAX_SEND_MSG_TIMES then send_loop msgsnd msg (n + 1) (try_send_times + 1)
         else (QCONF_ERR_MSGFULL, n + 1))
      else (QCONF_ERR_MSGSND, n + 1))"
  by pat_completeness auto
termination
  by (relation "measure (\<lambda>(msgsnd, msg, n, tries). QCONF_MAX_SEND_MSG_TIMES - tries)") auto

declare send_loop.simps [simp del]

definition send_msg :: "(nat \<Rightarrow> string \<Rightarrow> int) \<Rightarrow> nat \<Rightarrow> string \<Rightarrow> int \<times> nat" where
  "send_msg msgsnd n msg =
     (if msg = [] then (QCONF_ERR_PARAM, n)
      else if length msg \<ge> QCONF_MAX_MSG_LEN then (QCONF_ERR_E2BIG, n)
      else send_loop msgsnd msg n 1)"

text \<open>\<open>msgrcv\<close> gives an \<open>errno\<close> or the bytes of the next message, at most \<open>QCONF_MAX_MSG_LEN\<close>.\<close>

definition receive_msg :: "int + string \<Rightarrow> string \<Rightarrow> int \<times> string" where
  "receive_msg msgrcv msg =
     (case msgrcv of
        Inl e \<Rightarrow> (if e = EIDRM then QCONF_ERR_MSGIDRM else QCONF_ERR_MSGRCV, msg)
      | Inr mtext \<Rightarrow> (QCONF_OK, mtext))"

section \<open>Sending\<close>

lemma send_loop_unfold:
  "send_loop msgsnd msg n (Suc 0) =
     (if msgsnd n msg = 0 then (QCONF_OK, n + 1)
      else if msgsnd n msg \<noteq> EAGAIN then (QCONF_ERR_MSGSND, n + 1)
      else if msgsnd (n + 1) msg = 0 then (QCONF_OK, n + 2)
      else if msgsnd (n + 1) msg \<noteq> EAGAIN then (QCONF_ERR_MSGSND, n + 2)
      else if msgsnd (n + 2) msg = 0 then (QCONF_OK, n + 3)
      else if msgsnd (n + 2) msg \<noteq> EAGAIN then (QCONF_ERR_MSGSND, n + 3)
      else (QCONF_ERR_MSGFULL, n + 3))"
  by (simp add: send_loop.simps [of _ _ _ "Suc 0"] send_loop.simps [of _ _ _ "Suc (Suc 0)"]
      send_loop.simps [of _ _ _ "Suc (Suc (Suc 0))"] Let_def)

lemma three_cases:
  "(\<exists>i<3. P i) \<longleftrightarrow> P 0 \<or> P (Suc 0) \<or> P (2::nat)" "(\<forall>i<3. P i) \<longleftrightarrow> P 0 \<and> P (Suc 0) \<and> P (2::nat)"
  "(\<forall>i<2. P i) \<longleftrightarrow> P 0 \<and> P (Suc 0)"
  by (simp_all add: numeral_3_eq_3 numeral_2_eq_2 less_Suc_eq ex_disj_distrib all_conj_distrib conj_disj_distribR
      imp_disjL del: One_nat_def)

lemma send_loop_ok:
  "send_loop msgsnd msg n tries = (ret, n') \<Longrightarrow> n < n' \<and> (ret = QCONF_OK \<longrightarrow> msgsnd (n' - 1) msg = 0)"
proof (induction msgsnd msg n tries rule: send_loop.induct)
  case (1 msgsnd msg n tries)
  show ?case
  proof (cases "msgsnd n msg = EAGAIN \<and> tries < QCONF_MAX_SEND_MSG_TIMES")
    case True
    then have "send_loop msgsnd msg (n + 1) (tries + 1) = (ret, n')"
      using 1(2) by (subst (asm) send_loop.simps) (simp add: Let_def)
    then show ?thesis using 1(1) [OF refl _ _ ] True by simp
  next
    case False
    then show ?thesis using 1(2) by (subst (asm) send_loop.simps) (auto simp: Let_def split: if_splits)
  qed
qed

lemma send_msg_ok:
  assumes "send_msg msgsnd n msg = (QCONF_OK, n')"
  shows "n < n' \<and> msgsnd (n' - 1) msg = 0 \<and> msg \<noteq> [] \<and> length msg < QCONF_MAX_MSG_LEN"
  using assms send_loop_ok [of msgsnd msg n 1 QCONF_OK n'] by (simp add: send_msg_def split: if_splits)

text \<open>
  A message is sent exactly when it is not empty, shorter than the limit, and one of at most
  three attempts is accepted before any failure other than a full queue; a queue that stays full
  is reported as such after the third attempt.
\<close>

lemma send_msg_bounded:
  "send_msg msgsnd n msg = (ret, n') \<Longrightarrow> n' \<le> n + 3
    \<and> (ret = QCONF_OK \<longleftrightarrow> msg \<noteq> [] \<and> length msg < 2048
        \<and> (\<exists>i<3. msgsnd (n + i) msg = 0 \<and> (\<forall>j<i. msgsnd (n + j) msg = EAGAIN)))
    \<and> (ret = QCONF_ERR_MSGFULL \<longleftrightarrow> msg \<noteq> [] \<and> length msg < 2048 \<and> (\<forall>i<3. msgsnd (n + i) msg = EAGAIN))"
  by (cases "msgsnd n msg = 0"; cases "msgsnd n msg = EAGAIN"; cases "msgsnd (n + 1) msg = 0";
      cases "msgsnd (n + 1) msg = EAGAIN"; cases "msgsnd (n + 2) msg = 0"; cases "msgsnd (n + 2) msg = EAGAIN")
     (simp_all add: send_msg_def send_loop_unfold three_cases split: if_splits)

lemma send_msg_bounded_example:
  "send_msg (\<lambda>n _. if n < 2 then EAGAIN else 0) 0 ''2k'' = (QCONF_OK, 3) \<and> (3::nat) \<le> 0 + 3"
proof -
  have s: "send_msg (\<lambda>n _. if n < 2 then EAGAIN else 0) 0 ''2k'' = (QCONF_OK, 3)"
    by (simp add: send_msg_def send_loop_unfold)
  from send_msg_bounded [OF s] s show ?thesis by simp
qed

end
