(* ===== verification/QHash.thy ===== *)
theory QHash
  imports QPrelude
begin

text \<open>
  The hash functions of \<open>src/base/qlibc/qhash.c\<close> and \<open>src/base/qlibc/md5.c\<close>.

  \<open>qhashmurmur3_32\<close> chooses the bucket of a key in the shared-memory table, \<open>qhashmd5\<close>
  identifies keys that are longer than the key field of a slot and guards large values.
  Both work on \<open>32 word\<close> values, so every wrap-around of the C code is the wrap-around of
  the model.  A little-endian host is modelled (\<open>Encode\<close> and \<open>Decode\<close> are \<open>memcpy\<close>).

  Main results: the incremental MD5 (context, partial buffer, bit counter, padding) computes
  the digest of the padded message block by block; the digest has 16 bytes; the hexadecimal
  rendering is injective.
\<close>

unbundle bit_operations_syntax

type_synonym u32 = "32 word"

section \<open>MurmurHash3\<close>

definition murmur_c1 :: u32 where "murmur_c1 = 0xcc9e2d51"
definition murmur_c2 :: u32 where "murmur_c2 = 0x1b873593"

text \<open>\<open>blocks[i]\<close>: the i-th 32-bit little-endian word of the data.\<close>

definition block_at :: "string \<Rightarrow> nat \<Rightarrow> u32" where
  "block_at data i = word_of_nat (le_num (chunk (4 * i) 4 data))"

definition byte_word :: "string \<Rightarrow> nat \<Rightarrow> u32" where
  "byte_word s i = word_of_nat (of_char (s ! i))"

definition murmur_body :: "u32 \<Rightarrow> u32 \<Rightarrow> u32" where
  "murmur_body h k =
     (let k1 = k * murmur_c1;
          k2 = push_bit 15 k1 OR drop_bit (32 - 15) k1;
          k3 = k2 * murmur_c2;
          h1 = h XOR k3;
          h2 = push_bit 13 h1 OR drop_bit (32 - 13) h1
      in h2 * 5 + 0xe6546b64)"

text \<open>The \<open>switch (nbytes & 3)\<close> with its fall-through cases; note the unequal shift amounts
  (13 and 17) of the tail rotation in the source.\<close>

definition murmur_tail :: "string \<Rightarrow> nat \<Rightarrow> u32 \<Rightarrow> u32" where
  "murmur_tail tail r h =
     (let k3 = (if r = 3 then push_bit 16 (byte_word tail 2) else 0);
          k2 = (if r \<ge> 2 then k3 XOR push_bit 8 (byte_word tail 1) else k3)
      in if r \<ge> 1 then
           (let k1 = (k2 XOR byte_word tail 0) * murmur_c1;
                k = (push_bit 13 k1 OR drop_bit (32 - 15) k1) * murmur_c2
            in h XOR k)
         else h)"

definition murmur_final :: "u32 \<Rightarrow> u32" where
  "murmur_final h0 =
     (let h1 = h0 XOR drop_bit 16 h0;
          h2 = h1 * 0x85ebca6b;
          h3 = h2 XOR drop_bit 13 h2;
          h4 = h3 * 0xc2b2ae35
      in h4 XOR drop_bit 16 h4)"

definition qhashmurmur3_32 :: "string \<Rightarrow> u32" where
  "qhashmurmur3_32 data =
     (let nbytes = length data in
      if nbytes = 0 then 0
      else
        (let nblocks = nbytes div 4;
             tail = drop (nblocks * 4) data;
             h = foldl (\<lambda>h i. murmur_body h (block_at data i)) 0 [0..<nblocks];
             h = murmur_tail tail (nbytes mod 4) h;
             h = h XOR word_of_nat nbytes
         in murmur_final h))"

section \<open>MD5\<close>

record QMD5_CTX =
  md5_state :: "u32 \<times> u32 \<times> u32 \<times> u32"
  md5_count :: "u32 \<times> u32"
  md5_buffer :: string

definition md5_F :: "u32 \<Rightarrow> u32 \<Rightarrow> u32 \<Rightarrow> u32" where "md5_F x y z = (x AND y) OR (NOT x AND z)"
definition md5_G :: "u32 \<Rightarrow> u32 \<Rightarrow> u32 \<Rightarrow> u32" where "md5_G x y z = (x AND z) OR (y AND NOT z)"
definition md5_H :: "u32 \<Rightarrow> u32 \<Rightarrow> u32 \<Rightarrow> u32" where "md5_H x y z = x XOR y XOR z"
definition md5_I :: "u32 \<Rightarrow> u32 \<Rightarrow> u32 \<Rightarrow> u32" where "md5_I x y z = y XOR (x OR NOT z)"

definition ROTATE_LEFT :: "u32 \<Rightarrow> nat \<Rightarrow> u32" where
  "ROTATE_LEFT x n = push_bit n x OR drop_bit (32 - n) x"

text \<open>
  One of the macros FF, GG, HH, II.  The source calls them with the four registers rotated by
  one position each time, so a step returns the registers in the order the next call uses.
\<close>

definition md5_step ::
  "(u32 \<Rightarrow> u32 \<Rightarrow> u32 \<Rightarrow> u32) \<Rightarrow> u32 list \<Rightarrow> u32 \<times> u32 \<times> u32 \<times> u32 \<Rightarrow> nat \<times> nat \<times> u32 \<Rightarrow> u32 \<times> u32 \<times> u32 \<times> u32"
where
  "md5_step f x abcd ksac =
     (case abcd of (a, b, c, d) \<Rightarrow> case ksac of (k, s, ac) \<Rightarrow>
        (d, ROTATE_LEFT (a + (f b c d + x ! k + ac)) s + b, b, c))"

definition md5_round1 :: "(nat \<times> nat \<times> u32) list" where
  "md5_round1 =
     [(0, 7, 0xd76aa478), (1, 12, 0xe8c7b756), (2, 17, 0x242070db), (3, 22, 0xc1bdceee),
      (4, 7, 0xf57c0faf), (5, 12, 0x4787c62a), (6, 17, 0xa8304613), (7, 22, 0xfd469501),
      (8, 7, 0x698098d8), (9, 12, 0x8b44f7af), (10, 17, 0xffff5bb1), (11, 22, 0x895cd7be),
      (12, 7, 0x6b901122), (13, 12, 0xfd987193), (14, 17, 0xa679438e), (15, 22, 0x49b40821)]"

definition md5_round2 :: "(nat \<times> nat \<times> u32) list" where
  "md5_round2 =
     [(1, 5, 0xf61e2562), (6, 9, 0xc040b340), (11, 14, 0x265e5a51), (0, 20, 0xe9b6c7aa),
      (5, 5, 0xd62f105d), (10, 9, 0x2441453), (15, 14, 0xd8a1e681), (4, 20, 0xe7d3fbc8),
      (9, 5, 0x21e1cde6), (14, 9, 0xc33707d6), (3, 14, 0xf4d50d87), (8, 20, 0x455a14ed),
      (13, 5, 0xa9e3e905), (2, 9, 0xfcefa3f8), (7, 14, 0x676f02d9), (12, 20, 0x8d2a4c8a)]"

definition md5_round3 :: "(nat \<times> nat \<times> u32) list" where
  "md5_round3 =
     [(5, 4, 0xfffa3942), (8, 11, 0x8771f681), (11, 16, 0x6d9d6122), (14, 23, 0xfde5380c),
      (1, 4, 0xa4beea44), (4, 11, 0x4bdecfa9), (7, 16, 0xf6bb4b60), (10, 23, 0xbebfbc70),
      (13, 4, 0x289b7ec6), (0, 11, 0xeaa127fa), (3, 16, 0xd4ef3085), (6, 23, 0x4881d05),
      (9, 4, 0xd9d4d039), (12, 11, 0xe6db99e5), (15, 16, 0x1fa27cf8), (2, 23, 0xc4ac5665)]"

definition md5_round4 :: "(nat \<times> nat \<times> u32) list" where
  "md5_round4 =
     [(0, 6, 0xf4292244), (7, 10, 0x432aff97), (14, 15, 0xab9423a7), (5, 21, 0xfc93a039),
      (12, 6, 0x655b59c3), (3, 10, 0x8f0ccc92), (10, 15, 0xffeff47d), (1, 21, 0x85845dd1),
      (8, 6, 0x6fa87e4f), (15, 10, 0xfe2ce6e0), (6, 15, 0xa3014314), (13, 21, 0x4e0811a1),
      (4, 6, 0xf7537e82), (11, 10, 0xbd3af235), (2, 15, 0x2ad7d2bb), (9, 21, 0xeb86d391)]"

text \<open>\<open>Decode\<close>: sixteen little-endian words of a 64-byte block.\<close>

definition md5_Decode :: "string \<Rightarrow> u32 list" where
  "md5_Decode block = map (block_at block) [0..<16]"

definition QMD5Transform :: "u32 \<times> u32 \<times> u32 \<times> u32 \<Rightarrow> string \<Rightarrow> u32 \<times> u32 \<times> u32 \<times> u32" where
  "QMD5Transform st block =
     (let x = md5_Decode block;
          r1 = foldl (md5_step md5_F x) st md5_round1;
          r2 = foldl (md5_step md5_G x) r1 md5_round2;
          r3 = foldl (md5_step md5_H x) r2 md5_round3;
          r4 = foldl (md5_step md5_I x) r3 md5_round4
      in case st of (s0, s1, s2, s3) \<Rightarrow> case r4 of (a, b, c, d) \<Rightarrow> (s0 + a, s1 + b, s2 + c, s3 + d))"

text \<open>\<open>Encode\<close> on words: the little-endian bytes of each word.\<close>

definition md5_Encode :: "u32 list \<Rightarrow> string" where
  "md5_Encode ws = concat (map (\<lambda>w. le_bytes 4 (unat w)) ws)"

definition md5_PADDING :: string where
  "md5_PADDING = char_of (0x80 :: nat) # replicate 63 (char_of (0 :: nat))"

text \<open>The context of the source is uninitialised memory apart from the fields
  \<open>QMD5Init\<close> writes; \<open>buf\<close> is what the buffer happened to hold.\<close>

definition QMD5Init :: "string \<Rightarrow> QMD5_CTX" where
  "QMD5Init buf = \<lparr>md5_state = (0x67452301, 0xefcdab89, 0x98badcfe, 0x10325476),
                   md5_count = (0, 0), md5_buffer = buf\<rparr>"

text \<open>\<open>for (i = partLen; i + 63 < inputLen; i += 64) QMD5Transform(state, &input[i])\<close>;
  returns the state and the index at which the loop stopped.\<close>

function md5_blocks :: "u32 \<times> u32 \<times> u32 \<times> u32 \<Rightarrow> string \<Rightarrow> nat \<Rightarrow> (u32 \<times> u32 \<times> u32 \<times> u32) \<times> nat" where
  "md5_blocks st input i =
     (if i + 63 < length input
      then md5_blocks (QMD5Transform st (chunk i 64 input)) input (i + 64)
      else (st, i))"
  by pat_completeness auto
termination
  by (relation "measure (\<lambda>(st, input, i). length input - i)") auto

declare md5_blocks.simps [simp del]

definition QMD5Update :: "QMD5_CTX \<Rightarrow> string \<Rightarrow> QMD5_CTX" where
  "QMD5Update ctx input =
     (let inputLen = length input;
          (c0, c1) = md5_count ctx;
          idx = unat (drop_bit 3 c0 AND 0x3F);
          bits = push_bit 3 (word_of_nat inputLen :: u32);
          c0' = c0 + bits;
          c1' = (if c0' < bits then c1 + 1 else c1) + drop_bit 29 (word_of_nat inputLen :: u32);
          partLen = 64 - idx
      in if inputLen \<ge> partLen then
           (let buf = blit idx (take partLen input) (md5_buffer ctx);
                st = QMD5Transform (md5_state ctx) buf;
                (st', i) = md5_blocks st input partLen
            in \<lparr>md5_state = st', md5_count = (c0', c1'), md5_buffer = blit 0 (drop i input) buf\<rparr>)
         else
           \<lparr>md5_state = md5_state ctx, md5_count = (c0', c1'),
            md5_buffer = blit idx input (md5_buffer ctx)\<rparr>)"

definition QMD5Pad :: "QMD5_CTX \<Rightarrow> QMD5_CTX" where
  "QMD5Pad ctx =
     (let (c0, c1) = md5_count ctx;
          bits = md5_Encode [c0, c1];
          idx = unat (drop_bit 3 c0 AND 0x3f);
          padLen = (if idx < 56 then 56 - idx else 120 - idx)
      in QMD5Update (QMD5Update ctx (take padLen md5_PADDING)) bits)"

definition QMD5Final :: "QMD5_CTX \<Rightarrow> string" where
  "QMD5Final ctx =
     (case md5_state (QMD5Pad ctx) of (a, b, c, d) \<Rightarrow> md5_Encode [a, b, c, d])"

text \<open>\<open>qhashmd5(data, nbytes, retbuf)\<close>, for non-NULL pointers: the length is cast to a
  32-bit \<open>unsigned int\<close>.  The uninitialised buffer of the local context is \<open>garbage\<close>.\<close>

definition qhashmd5_from :: "string \<Rightarrow> string \<Rightarrow> string" where
  "qhashmd5_from garbage data =
     QMD5Final (QMD5Update (QMD5Init garbage) (take (length data mod 2 ^ 32) data))"

definition qhashmd5 :: "string \<Rightarrow> string" where
  "qhashmd5 data = qhashmd5_from (replicate 64 (char_of (0 :: nat))) data"

section \<open>Hexadecimal rendering of a digest\<close>

definition hexs :: string where "hexs = ''0123456789abcdef''"

definition qhashmd5_bin_to_hex :: "string \<Rightarrow> string" where
  "qhashmd5_bin_to_hex md5_int =
     concat (map (\<lambda>c. [hexs ! (of_char c div 16), hexs ! (of_char c mod 16)]) md5_int)"

section \<open>MD5 against the block-by-block definition\<close>

function md5_absorb :: "u32 \<times> u32 \<times> u32 \<times> u32 \<Rightarrow> string \<Rightarrow> u32 \<times> u32 \<times> u32 \<times> u32" where
  "md5_absorb st s =
     (if length s < 64 then st else md5_absorb (QMD5Transform st (take 64 s)) (drop 64 s))"
  by pat_completeness auto
termination
  by (relation "measure (\<lambda>(st, s). length s)") auto

declare md5_absorb.simps [simp del]

definition md5_iv :: "u32 \<times> u32 \<times> u32 \<times> u32" where
  "md5_iv = (0x67452301, 0xefcdab89, 0x98badcfe, 0x10325476)"

definition md5_pad :: "string \<Rightarrow> string" where
  "md5_pad s = s @ char_of (0x80 :: nat) # replicate ((119 - length s mod 64) mod 64) (char_of (0 :: nat))
     @ le_bytes 8 (8 * length s)"

definition md5_ref :: "string \<Rightarrow> string" where
  "md5_ref s = (case md5_absorb md5_iv (md5_pad s) of (a, b, c, d) \<Rightarrow> md5_Encode [a, b, c, d])"

definition md5_rep :: "QMD5_CTX \<Rightarrow> string \<Rightarrow> bool" where
  "md5_rep ctx p \<longleftrightarrow>
     length (md5_buffer ctx) = 64
     \<and> md5_state ctx = md5_absorb md5_iv p
     \<and> take (length p mod 64) (md5_buffer ctx) = drop (64 * (length p div 64)) p
     \<and> md5_count ctx = (word_of_nat (8 * length p), word_of_nat (8 * length p div 2 ^ 32))"

lemma md5_absorb_short: "length s < 64 \<Longrightarrow> md5_absorb st s = st"
  by (simp add: md5_absorb.simps)

lemma md5_absorb_step:
  "length b = 64 \<Longrightarrow> md5_absorb st (b @ s) = md5_absorb (QMD5Transform st b) s"
  by (subst md5_absorb.simps) simp

lemma md5_absorb_append:
  "64 dvd length a \<Longrightarrow> md5_absorb st (a @ b) = md5_absorb (md5_absorb st a) b"
proof (induction st a rule: md5_absorb.induct)
  case (1 st a)
  show ?case
  proof (cases "length a < 64")
    case True
    with "1.prems" have "a = []" by (auto dest: dvd_imp_le)
    then show ?thesis by (simp add: md5_absorb_short)
  next
    case False
    have "md5_absorb st (a @ b) = md5_absorb (QMD5Transform st (take 64 a)) (drop 64 a @ b)"
      using False by (subst md5_absorb.simps) simp
    also have "\<dots> = md5_absorb (md5_absorb (QMD5Transform st (take 64 a)) (drop 64 a)) b"
      using False "1.prems" by (intro "1.IH") (auto intro: dvd_diff_nat)
    also have "\<dots> = md5_absorb (md5_absorb st a) b"
      using False by (simp add: md5_absorb.simps [of st a])
    finally show ?thesis .
  qed
qed

lemma md5_blocks_absorb:
  "i \<le> length input \<Longrightarrow>
   md5_blocks st input i = (md5_absorb st (drop i input), i + 64 * ((length input - i) div 64))"
proof (induction st input i rule: md5_blocks.induct)
  case (1 st input i)
  show ?case
  proof (cases "i + 63 < length input")
    case True
    have split: "drop i input = chunk i 64 input @ drop (i + 64) input"
      unfolding chunk_def by (metis append_take_drop_id drop_drop add.commute)
    have "md5_blocks st input i =
        (md5_absorb (QMD5Transform st (chunk i 64 input)) (drop (i + 64) input),
         i + 64 + 64 * ((length input - (i + 64)) div 64))"
      using True "1.IH" by (subst md5_blocks.simps) simp
    moreover have "md5_absorb st (drop i input) =
        md5_absorb (QMD5Transform st (chunk i 64 input)) (drop (i + 64) input)"
      using True by (subst split) (rule md5_absorb_step, simp)
    moreover have "(length input - i) div 64 = Suc ((length input - (i + 64)) div 64)"
      using True by (simp add: le_div_geq diff_diff_left)
    ultimately show ?thesis by simp
  next
    case False
    then show ?thesis
      by (subst md5_blocks.simps) (simp add: md5_absorb_short)
  qed
qed

lemma md5_idx: "unat (drop_bit 3 (word_of_nat (8 * n) :: u32) AND 0x3F) = n mod 64"
proof -
  define w where "w = (word_of_nat (8 * n) :: u32)"
  have uw: "unat w = 8 * n mod 2 ^ 32"
    unfolding w_def by (simp only: unat_of_nat) simp
  have "(0x3F :: u32) = mask 6" by (simp add: mask_eq_decr_exp)
  then have "unat (drop_bit 3 w AND 0x3F) = take_bit 6 (drop_bit 3 (unat w))"
    by (simp only: flip: take_bit_eq_mask) (simp add: unsigned_take_bit_eq unat_drop_bit_eq)
  also have "\<dots> = (8 * n mod 2 ^ 32) div 8 mod 64"
    by (simp add: uw take_bit_eq_mod drop_bit_eq_div)
  also have "\<dots> = n mod 64"
  proof -
    have "8 * n mod 2 ^ 32 = 8 * (n mod 2 ^ 29)"
      using mult_mod_right [of 8 n "2 ^ 29"] by simp
    then show ?thesis by (simp add: mod_mod_cancel)
  qed
  finally show ?thesis by (simp add: w_def)
qed

lemma div_add_carry:
  fixes a b N :: nat
  assumes "0 < N"
  shows "(a + b) div N = a div N + b div N + (if (a + b) mod N < b mod N then 1 else 0)"
proof -
  have wrap: "(x + y) mod N = (if x + y < N then x + y else x + y - N)"
    "(x + y) mod N < y \<longleftrightarrow> \<not> x + y < N"
    "(x + y) div N = (if x + y < N then 0 else 1)" if "x < N" "y < N" for x y
    using that by (cases "x + y < N"; auto simp: le_mod_geq le_div_geq not_less)+
  have le: "a mod N < N" "b mod N < N" using assms by auto
  have "(a + b) mod N = (a mod N + b mod N) mod N" by (simp add: mod_simps)
  then have "(a + b) mod N < b mod N \<longleftrightarrow> \<not> a mod N + b mod N < N"
    by (simp only: wrap(2) [OF le])
  then show ?thesis by (simp add: div_add1_eq [of a b N] wrap(3) [OF le])
qed

lemma md5_count_low:
  "(word_of_nat (8 * n) :: u32) + push_bit 3 (word_of_nat k) = word_of_nat (8 * (n + k))"
  by (simp add: push_bit_eq_mult)

lemma md5_count_high:
  assumes "k < 2 ^ 32"
  shows "(if (word_of_nat (8 * (n + k)) :: u32) < push_bit 3 (word_of_nat k)
          then word_of_nat (8 * n div 2 ^ 32) + 1 else (word_of_nat (8 * n div 2 ^ 32) :: u32))
         + drop_bit 29 (word_of_nat k :: u32) = word_of_nat (8 * (n + k) div 2 ^ 32)"
proof -
  define bits where "bits = 8 * k mod 2 ^ 32"
  have ub: "unat (push_bit 3 (word_of_nat k) :: u32) = bits"
    by (simp add: bits_def push_bit_eq_mult unat_word_ariths unat_of_nat mod_mult_left_eq mult.commute [of k])
  have uc: "unat (word_of_nat (8 * (n + k)) :: u32) = 8 * (n + k) mod 2 ^ 32"
    by (simp only: unat_of_nat) simp
  have cmp: "(word_of_nat (8 * (n + k)) :: u32) < push_bit 3 (word_of_nat k) \<longleftrightarrow>
      8 * (n + k) mod 2 ^ 32 < bits"
    by (simp only: word_less_nat_alt ub uc)
  have dk: "(drop_bit 29 (word_of_nat k :: u32)) = word_of_nat (k div 2 ^ 29)"
    using assms by (simp add: word_eq_iff_unsigned drop_bit_eq_div unat_drop_bit_eq unat_of_nat
        word_unat_eq_iff unat_div take_bit_eq_mod) 
  have "8 * (n + k) div 2 ^ 32 = 8 * n div 2 ^ 32 + k div 2 ^ 29 +
      (if 8 * (n + k) mod 2 ^ 32 < bits then 1 else 0)"
  proof -
    have "8 * k div 2 ^ 32 = k div 2 ^ 29" by simp
    then show ?thesis
      unfolding bits_def using div_add_carry [of "2 ^ 32" "8 * n" "8 * k"] by (simp add: distrib_left)
  qed
  then show ?thesis
    by (simp only: cmp dk of_nat_add) simp
qed

lemma md5_rep_init: "length buf = 64 \<Longrightarrow> md5_rep (QMD5Init buf) []"
  by (simp add: md5_rep_def QMD5Init_def md5_absorb_short md5_iv_def)

text \<open>The representation invariant of a context: absorbing more input is absorbing the
  concatenation.\<close>

lemma md5_rep_update:
  assumes rep: "md5_rep ctx p" and len: "length input < 2 ^ 32"
  shows "md5_rep (QMD5Update ctx input) (p @ input)"
proof -
  define n where "n = length p"
  define idx where "idx = n mod 64"
  define a where "a = take (64 * (n div 64)) p"
  define r where "r = drop (64 * (n div 64)) p"
  have n_eq: "n = 64 * (n div 64) + idx" by (simp add: idx_def)
  have p: "p = a @ r" by (simp add: a_def r_def)
  have la: "length a = 64 * (n div 64)" and lr: "length r = idx"
    using n_eq by (auto simp: a_def r_def n_def min_def idx_def minus_mult_div_eq_mod)
  have idx64: "idx < 64" by (simp add: idx_def)
  have absorb_p: "md5_absorb md5_iv p = md5_absorb md5_iv a"
    unfolding p using la lr idx64 by (simp add: md5_absorb_append md5_absorb_short)
  from rep have buf: "length (md5_buffer ctx) = 64"
    and st: "md5_state ctx = md5_absorb md5_iv a"
    and tk: "take idx (md5_buffer ctx) = r"
    and cnt: "md5_count ctx = (word_of_nat (8 * n), word_of_nat (8 * n div 2 ^ 32))"
    by (simp_all add: md5_rep_def absorb_p idx_def n_def r_def)
  note high = md5_count_high [OF len, of n]
  show ?thesis
  proof (cases "64 - idx \<le> length input")
    case True
    define rest where "rest = drop (64 - idx) input"
    define blk where "blk = r @ take (64 - idx) input"
    have lblk: "length blk = 64" using True lr idx64 by (simp add: blk_def)
    have bl: "blit idx (take (64 - idx) input) (md5_buffer ctx) = blk"
      using True buf idx64 tk by (simp add: blit_def blk_def min_def)
    have pin: "p @ input = a @ blk @ rest" by (simp add: p blk_def rest_def)
    define k where "k = length rest div 64"
    have bk: "md5_blocks s input (64 - idx) = (md5_absorb s rest, 64 - idx + 64 * k)" for s
      using md5_blocks_absorb [OF True] by (simp add: rest_def k_def)
    have dr: "drop (64 - idx + 64 * k) input = drop (64 * k) rest"
      by (simp add: rest_def add.commute)
    have lpin: "length p + length input = 64 * (n div 64 + 1 + k) + length rest mod 64"
      using arg_cong [OF pin, of length] la lblk by (simp add: k_def)
    have upd: "QMD5Update ctx input =
        \<lparr>md5_state = md5_absorb (QMD5Transform (md5_absorb md5_iv a) blk) rest,
         md5_count = (word_of_nat (8 * (n + length input)), word_of_nat (8 * (n + length input) div 2 ^ 32)),
         md5_buffer = blit 0 (drop (64 * k) rest) blk\<rparr>"
      unfolding QMD5Update_def Let_def cnt prod.case md5_count_low md5_idx high st idx_def [symmetric]
      using True by (simp add: bl bk dr)
    have m: "length (p @ input) mod 64 = length rest mod 64" and d: "length (p @ input) div 64 = n div 64 + 1 + k"
      unfolding length_append lpin by (simp_all only: mod_mult_self3 mod_mod_trivial mod_mult_self4 div_mult_self4)
    have lk: "length (drop (64 * k) rest) = length rest mod 64"
      by (simp add: k_def minus_mult_div_eq_mod)
    then have lk64: "length (drop (64 * k) rest) \<le> 64"
      by (metis less_imp_le mod_less_divisor zero_less_numeral)
    have "take (length rest mod 64) (blit 0 (drop (64 * k) rest) blk) = drop (64 * k) rest"
      unfolding lk [symmetric] by (simp add: blit_def)
    moreover have "drop (64 * (n div 64 + 1 + k)) (p @ input) = drop (64 * k) rest"
      unfolding pin using la lblk by simp
    moreover have "md5_absorb md5_iv (p @ input) = md5_absorb (QMD5Transform (md5_absorb md5_iv a) blk) rest"
      unfolding pin using la lblk by (simp add: md5_absorb_append [of a] md5_absorb_step)
    moreover have "length (blit 0 (drop (64 * k) rest) blk) = 64"
      using lk64 lblk by simp
    ultimately show ?thesis
      unfolding md5_rep_def upd m d by (simp add: n_def)
  next
    case False
    then have small: "idx + length input < 64" by simp
    have upd: "QMD5Update ctx input =
        \<lparr>md5_state = md5_absorb md5_iv a,
         md5_count = (word_of_nat (8 * (n + length input)), word_of_nat (8 * (n + length input) div 2 ^ 32)),
         md5_buffer = blit idx input (md5_buffer ctx)\<rparr>"
      unfolding QMD5Update_def Let_def cnt prod.case md5_count_low md5_idx high st idx_def [symmetric]
      using False by simp
    have lpin: "length p + length input = 64 * (n div 64) + (idx + length input)"
      using n_eq by (simp add: n_def)
    have m: "length (p @ input) mod 64 = idx + length input" and d: "length (p @ input) div 64 = n div 64"
      unfolding length_append lpin using small by simp_all
    have "take (idx + length input) (blit idx input (md5_buffer ctx)) = r @ input"
      using buf small tk lr by (simp add: blit_def)
    moreover have "drop (64 * (n div 64)) (p @ input) = r @ input"
      by (simp add: p la)
    moreover have "md5_absorb md5_iv (p @ input) = md5_absorb md5_iv a"
      using small lr la by (simp add: p md5_absorb_append md5_absorb_short)
    ultimately show ?thesis
      unfolding md5_rep_def upd m d using buf small by (simp add: n_def)
  qed
qed

lemma md5_padding_prefix:
  "0 < k \<Longrightarrow> k \<le> 64 \<Longrightarrow> take k md5_PADDING = char_of (0x80 :: nat) # replicate (k - 1) (char_of (0 :: nat))"
  by (cases k) (simp_all add: md5_PADDING_def min_def)

lemma md5_Encode_count:
  "md5_Encode [word_of_nat (8 * n), word_of_nat (8 * n div 2 ^ 32)] = le_bytes 8 (8 * n)"
proof -
  have split: "le_bytes (a + b) x = le_bytes a (x mod 256 ^ a) @ le_bytes b (x div 256 ^ a)" for a b x
  proof (induction a arbitrary: x)
    case 0
    then show ?case by simp
  next
    case (Suc a)
    have "x mod (256 * 256 ^ a) div 256 = x div 256 mod 256 ^ a"
      by (simp add: mod_mult2_eq)
    then show ?case using Suc [of "x div 256"]
      by (simp add: mod_mod_cancel div_mult2_eq)
  qed
  have md: "le_bytes w (x mod 256 ^ w) = le_bytes w x" for w x
    by (metis length_le_bytes le_bytes_le_num le_num_le_bytes)
  have u: "unat (word_of_nat x :: u32) = x mod 256 ^ 4" for x
    by (simp add: unat_of_nat)
  show ?thesis
    unfolding md5_Encode_def
    by (simp only: list.map concat.simps u md append_Nil2)
       (simp add: split [of 4 4 "8 * n", simplified] md [of 4, simplified])
qed

lemma QMD5Pad_rep:
  assumes rep: "md5_rep ctx p"
  shows "md5_state (QMD5Pad ctx) = md5_absorb md5_iv (md5_pad p)"
proof -
  define n where "n = length p"
  define idx where "idx = n mod 64"
  define k where "k = (if idx < 56 then 56 - idx else 120 - idx)"
  have idx: "idx < 64" by (simp add: idx_def)
  have k: "0 < k" "k \<le> 64" using idx by (auto simp: k_def)
  have cnt: "md5_count ctx = (word_of_nat (8 * n), word_of_nat (8 * n div 2 ^ 32))"
    using rep by (simp add: md5_rep_def n_def)
  have z: "k - 1 = (119 - idx) mod 64"
    using idx by (auto simp: k_def le_mod_geq not_less)
  have "QMD5Pad ctx = QMD5Update (QMD5Update ctx (take k md5_PADDING)) (le_bytes 8 (8 * n))"
    unfolding QMD5Pad_def Let_def cnt prod.case md5_idx md5_Encode_count idx_def [symmetric] k_def ..
  moreover have "md5_rep (QMD5Update (QMD5Update ctx (take k md5_PADDING)) (le_bytes 8 (8 * n)))
      ((p @ take k md5_PADDING) @ le_bytes 8 (8 * n))"
    using k by (intro md5_rep_update rep) (auto simp: md5_PADDING_def)
  moreover have "(p @ take k md5_PADDING) @ le_bytes 8 (8 * n) = md5_pad p"
    using k z by (simp add: md5_pad_def md5_padding_prefix idx_def n_def)
  ultimately show ?thesis by (simp add: md5_rep_def)
qed

lemma qhashmd5_from_ref:
  assumes "length data < 2 ^ 32" and "length garbage = 64"
  shows "qhashmd5_from garbage data = md5_ref data"
proof -
  have "md5_rep (QMD5Update (QMD5Init garbage) data) ([] @ data)"
    using assms by (intro md5_rep_update md5_rep_init)
  then show ?thesis
    using assms by (simp add: qhashmd5_from_def QMD5Final_def md5_ref_def QMD5Pad_rep)
qed

lemma length_qhashmd5 [simp]: "length (qhashmd5 data) = 16"
  by (simp add: qhashmd5_def qhashmd5_from_def QMD5Final_def md5_Encode_def split: prod.split)


lemma hexs_inj: "i < 16 \<Longrightarrow> j < 16 \<Longrightarrow> hexs ! i = hexs ! j \<Longrightarrow> i = j"
  by (simp add: hexs_def nth_eq_iff_index_eq [of "''0123456789abcdef''", simplified])

lemma length_bin_to_hex [simp]: "length (qhashmd5_bin_to_hex s) = 2 * length s"
  by (induction s) (simp_all add: qhashmd5_bin_to_hex_def)

lemma bin_to_hex_inj: "qhashmd5_bin_to_hex s = qhashmd5_bin_to_hex t \<Longrightarrow> s = t"
proof (induction s arbitrary: t)
  case Nil
  then show ?case by (cases t) (simp_all add: qhashmd5_bin_to_hex_def)
next
  case (Cons c s)
  then obtain d t' where t: "t = d # t'"
    by (cases t) (auto simp: qhashmd5_bin_to_hex_def)
  with Cons.prems have hi: "hexs ! (of_char c div 16) = hexs ! (of_char d div 16)"
    and lo: "hexs ! (of_char c mod 16) = hexs ! (of_char d mod 16)"
    and rest: "qhashmd5_bin_to_hex s = qhashmd5_bin_to_hex t'"
    by (simp_all add: qhashmd5_bin_to_hex_def)
  have b: "(of_char x :: nat) div 16 < 16" for x
    using of_char_less_256 [of x] by (simp add: less_mult_imp_div_less)
  have "(of_char c :: nat) div 16 = of_char d div 16" "(of_char c :: nat) mod 16 = of_char d mod 16"
    using hexs_inj hi lo b by simp_all
  then have "(of_char c :: nat) = of_char d"
    by (metis div_mult_mod_eq)
  then show ?case using Cons.IH [OF rest] t by simp
qed

text \<open>
  C29: The incremental MD5 of the sources (buffering of partial blocks, the two-word bit
  counter with its carry, padding through two further updates) computes the block-by-block
  definition on every input of fewer than 2^32 bytes, whatever the uninitialised buffer of
  the local context holds.
\<close>

theorem md5_incremental_correct:
  assumes "length data < 2 ^ 32" and "length garbage = 64"
  shows "qhashmd5_from garbage data = md5_ref data"
  using assms by (rule qhashmd5_from_ref)

theorem md5_incremental_correct_witness:
  "qhashmd5_from (replicate 64 (CHR ''x'')) ''abc'' = md5_ref ''abc''"
  by (rule md5_incremental_correct) simp_all

text \<open>
  The hexadecimal rendering of a digest has two characters per byte and loses nothing:
  different byte strings render differently.
\<close>

lemma md5_hex_faithful:
  "length (qhashmd5_bin_to_hex s) = 2 * length s
   \<and> (qhashmd5_bin_to_hex s = qhashmd5_bin_to_hex t) = (s = t)"
  using bin_to_hex_inj by auto

section \<open>Relation to MurmurHash3\<close>

text \<open>
  The published algorithm \<open>MurmurHash3_x86_32\<close> with seed 0, stated over the list of bytes and apart
  from the model of the source: rotations are \<open>word_rotl\<close>, the blocks are taken off the list, and up
  to three last bytes form the tail.
\<close>

definition mm3_word :: "string \<Rightarrow> u32" where
  "mm3_word cs = foldr (\<lambda>c w. word_of_nat (of_char c) + 256 * w) cs 0"

definition mm3_scramble :: "u32 \<Rightarrow> u32" where
  "mm3_scramble k = word_rotl 15 (k * 0xcc9e2d51) * 0x1b873593"

fun mm3_blocks :: "u32 \<Rightarrow> string \<Rightarrow> u32" where
  "mm3_blocks h (a # b # c # d # rest) =
     mm3_blocks (word_rotl 13 (h XOR mm3_scramble (mm3_word [a, b, c, d])) * 5 + 0xe6546b64) rest"
| "mm3_blocks h [] = h"
| "mm3_blocks h tail = h XOR mm3_scramble (mm3_word tail)"

definition mm3_xorshift :: "nat \<Rightarrow> u32 \<Rightarrow> u32" where
  "mm3_xorshift n h = h XOR drop_bit n h"

definition mm3_fmix :: "u32 \<Rightarrow> u32" where
  "mm3_fmix h = mm3_xorshift 16 (mm3_xorshift 13 (mm3_xorshift 16 h * 0x85ebca6b) * 0xc2b2ae35)"

definition murmur3_x86_32 :: "string \<Rightarrow> u32" where
  "murmur3_x86_32 data = mm3_fmix (mm3_blocks 0 data XOR word_of_nat (length data))"

lemma rotl_shifts: "0 < n \<Longrightarrow> n < 32 \<Longrightarrow> word_rotl n (x :: u32) = push_bit n x OR drop_bit (32 - n) x"
proof (rule bit_word_eqI)
  fix m assume n: "0 < n" "n < 32" and m: "m < LENGTH(32)"
  show "bit (word_rotl n x) m = bit (push_bit n x OR drop_bit (32 - n) x) m"
  proof (cases "n \<le> m")
    case True
    then have "(m + (32 - n)) mod 32 = m - n" using n m by (simp add: mod_if)
    moreover have "\<not> bit x (32 - n + m)" using True n bit_imp_le_length [of x "32 - n + m"] by auto
    ultimately show ?thesis using True n m by (auto simp: bit_simps)
  next
    case False
    then have "(m + (32 - n)) mod 32 = 32 - n + m" using n m by simp
    then show ?thesis using False n m by (auto simp: bit_simps)
  qed
qed

lemma mm3_word_bytes: "mm3_word cs = word_of_nat (le_num cs)"
  by (induction cs) (simp_all add: mm3_word_def)

lemma mm3_blocks_loop:
  assumes "4 dvd length data"
  shows "mm3_blocks h data = foldl (\<lambda>h i. murmur_body h (block_at data i)) h [0..<length data div 4]"
  using assms
proof (induction h data rule: mm3_blocks.induct)
  case (1 h a b c d rest)
  let ?data = "a # b # c # d # rest"
  have l: "length ?data = length rest + 4" by simp
  have n: "length ?data div 4 = Suc (length rest div 4)" unfolding l by simp
  have r: "4 dvd length rest" using 1(2) unfolding l by (simp only: dvd_add_triv_right_iff)
  have b0: "block_at ?data 0 = mm3_word [a, b, c, d]" by (simp add: block_at_def chunk_def mm3_word_bytes)
  have bs: "block_at ?data (Suc i) = block_at rest i" for i
  proof -
    have "drop (4 * Suc i) ?data = drop (4 * i) (drop 4 ?data)" by (simp only: drop_drop mult_Suc_right add.commute)
    then show ?thesis by (simp add: block_at_def chunk_def)
  qed
  have "foldl (\<lambda>h i. murmur_body h (block_at ?data i)) h [0..<length ?data div 4]
      = foldl (\<lambda>h i. murmur_body h (block_at rest i)) (murmur_body h (mm3_word [a, b, c, d])) [0..<length rest div 4]"
    unfolding n upt_conv_Cons [OF zero_less_Suc] map_Suc_upt [symmetric] by (simp add: foldl_map b0 bs)
  also have "murmur_body h (mm3_word [a, b, c, d]) = word_rotl 13 (h XOR mm3_scramble (mm3_word [a, b, c, d])) * 5 + 0xe6546b64"
    by (simp add: murmur_body_def mm3_scramble_def rotl_shifts murmur_c1_def murmur_c2_def Let_def)
  finally show ?case using 1(1) [OF r] by simp
qed (auto dest: dvd_imp_le)

lemmas murmur_eval = murmur_final_def murmur_body_def block_at_def byte_word_def chunk_def
  murmur_c1_def murmur_c2_def upt_rec

lemma murmur_hello: "qhashmurmur3_32 ''hello'' = 0xa7bf1ac7"
  by (simp add: qhashmurmur3_32_def murmur_tail_def murmur_eval)

lemma mm3_hello: "murmur3_x86_32 ''hello'' = 0x248bfa47"
  by (simp add: murmur3_x86_32_def mm3_fmix_def mm3_xorshift_def mm3_scramble_def mm3_word_def rotl_shifts)

text \<open>
  C30: On keys whose length is a multiple of four the hash of the table is MurmurHash3.  The last one
  to three bytes of other keys are mixed by a pair of shifts that is not a rotation, and so the key
  \<open>"hello"\<close> does not get the published value \<open>0x248bfa47\<close>.
\<close>

theorem murmur_canonical_on_blocks:
  "(4 dvd length data \<longrightarrow> qhashmurmur3_32 data = murmur3_x86_32 data)
   \<and> murmur3_x86_32 ''hello'' = 0x248bfa47 \<and> qhashmurmur3_32 ''hello'' \<noteq> 0x248bfa47"
proof (intro conjI impI)
  assume d: "4 dvd length data"
  have f: "murmur_final h = mm3_fmix h" for h by (simp add: murmur_final_def mm3_fmix_def mm3_xorshift_def Let_def)
  show "qhashmurmur3_32 data = murmur3_x86_32 data"
  proof (cases "data = []")
    case True
    then show ?thesis by (simp add: qhashmurmur3_32_def murmur3_x86_32_def mm3_fmix_def mm3_xorshift_def)
  next
    case False
    then show ?thesis
      using d by (simp add: qhashmurmur3_32_def murmur3_x86_32_def murmur_tail_def f mm3_blocks_loop [OF d] Let_def)
  qed
qed (simp_all add: murmur_hello mm3_hello)

theorem murmur_canonical_on_blocks_witness: "qhashmurmur3_32 ''/abc'' = murmur3_x86_32 ''/abc''"
  using murmur_canonical_on_blocks [of "''/abc''"] by (simp add: numeral_eq_Suc)

end
