(* ===== verification/QHasharr.thy ===== *)
theory QHasharr
  imports QCommon QHash
begin

text \<open>
  The fixed-size hash table in shared memory: \<open>src/base/qlibc/qhasharr.c\<close> and the slot layout
  of \<open>src/base/qlibc/qlibc.h\<close>.

  A slot is a record; the union \<open>_slot_data\<close> is its 146 bytes, with \<open>pair.value\<close> at offset 0,
  \<open>pair.key\<close> at 96, \<open>pair.keylen\<close> at 128, \<open>pair.keymd5\<close> at 130 and \<open>ext.value\<close> covering all of
  them.  The table is the record of its counters and the array of slots; \<open>maxslots\<close> is the length
  of that array (\<open>qhasharr\<close> computes it and nothing writes it afterwards).  An index result
  of -1 is \<open>None\<close>.  A C result \<open>false\<close> (or NULL) is \<open>Inl\<close> of the value given to \<open>errno\<close>, with
  \<open>EUNSET\<close> where the code leaves \<open>errno\<close> alone.  \<open>mem n\<close> says whether \<open>malloc(n)\<close> succeeds.
\<close>

section \<open>Slots and table\<close>

abbreviation (input) Q_HASHARR_KEYSIZE :: nat where "Q_HASHARR_KEYSIZE \<equiv> 32"
abbreviation (input) Q_HASHARR_VALUESIZE :: nat where "Q_HASHARR_VALUESIZE \<equiv> 96"
abbreviation (input) SLOT_DATA_SIZE :: nat where "SLOT_DATA_SIZE \<equiv> 146"

record qhasharr_slot_s =
  s_count :: int
  s_hash :: nat
  s_size :: nat
  s_link :: int
  s_data :: string

record qhasharr_s =
  usedslots :: int
  num :: int
  slots :: "qhasharr_slot_s list"

datatype qerrno = EINVAL | ENOBUFS | EFAULT | ENOENT | ENOMEM | EUNSET

type_synonym 'a qres = "qerrno + 'a"

text \<open>Fields of the union.\<close>

definition pair_key :: "qhasharr_slot_s \<Rightarrow> string" where
  "pair_key s = chunk 96 32 (s_data s)"

definition pair_keylen :: "qhasharr_slot_s \<Rightarrow> nat" where
  "pair_keylen s = le_num (chunk 128 2 (s_data s))"

definition pair_keymd5 :: "qhasharr_slot_s \<Rightarrow> string" where
  "pair_keymd5 s = chunk 130 16 (s_data s)"

text \<open>A slot of cleared memory.\<close>

definition zero_slot :: qhasharr_slot_s where
  "zero_slot = \<lparr>s_count = 0, s_hash = 0, s_size = 0, s_link = 0, s_data = replicate SLOT_DATA_SIZE NUL\<rparr>"

text \<open>Assignment to the 16-bit signed \<open>count\<close>.\<close>

definition short_of :: "int \<Rightarrow> int" where
  "short_of x = (x + 2 ^ 15) mod 2 ^ 16 - 2 ^ 15"

definition maxslots :: "qhasharr_s \<Rightarrow> nat" where
  "maxslots t = length (slots t)"

definition upd_slot :: "nat \<Rightarrow> (qhasharr_slot_s \<Rightarrow> qhasharr_slot_s) \<Rightarrow> qhasharr_s \<Rightarrow> qhasharr_s" where
  "upd_slot i f t = t\<lparr>slots := (slots t)[i := f (slots t ! i)]\<rparr>"

definition bucket :: "qhasharr_s \<Rightarrow> string \<Rightarrow> nat" where
  "bucket t key = unat (qhashmurmur3_32 key) mod maxslots t"

section \<open>Sizing and initialisation\<close>

definition qhasharr_calculate_memsize :: "int \<Rightarrow> 64 word" where
  "qhasharr_calculate_memsize maxnum = 12 + 164 * word_of_int maxnum"

text \<open>\<open>memory\<close> is None for a NULL pointer; the quotient is truncated to a 32-bit \<open>int\<close>.\<close>

definition qhasharr :: "unit option \<Rightarrow> 64 word \<Rightarrow> (qerrno + qhasharr_s)" where
  "qhasharr memory memsize =
     (case memory of None \<Rightarrow> Inl EUNSET
      | Some _ \<Rightarrow>
        (let maxslots = sint (ucast ((memsize - 12) div 164) :: 32 word) in
         if maxslots < 1 \<or> memsize \<le> 12 then Inl EINVAL
         else Inr \<lparr>usedslots = 0, num = 0, slots = replicate (nat maxslots) zero_slot\<rparr>))"

section \<open>Searching slots\<close>

text \<open>The \<open>while (true)\<close> loop of \<open>_find_empty\<close>; the guard only says that the indices are in range,
  which the caller establishes.\<close>

function find_empty_loop :: "qhasharr_slot_s list \<Rightarrow> nat \<Rightarrow> nat \<Rightarrow> nat option" where
  "find_empty_loop S startidx idx =
     (if idx < length S \<and> startidx < length S then
        (if s_count (S ! idx) = 0 then Some idx
         else
           (let idx' = ring_next (length S) idx in
            if idx' = startidx then None else find_empty_loop S startidx idx'))
      else None)"
  by pat_completeness auto
termination
  by (relation "measure (\<lambda>(S, s, i). ring_dist (length S) s i)") (auto intro: ring_dist_next)

declare find_empty_loop.simps [simp del]

definition find_empty :: "qhasharr_s \<Rightarrow> nat \<Rightarrow> nat option" where
  "find_empty t startidx =
     (if maxslots t = 0 then None
      else
        (let startidx = (if startidx \<ge> maxslots t then 0 else startidx)
         in find_empty_loop (slots t) startidx startidx))"

text \<open>The key comparison of \<open>_get_idx\<close>.\<close>

definition key_match :: "string \<Rightarrow> qhasharr_slot_s \<Rightarrow> bool" where
  "key_match key s \<longleftrightarrow>
     length key = pair_keylen s \<and>
     (if length key \<le> Q_HASHARR_KEYSIZE then key = take (length key) (pair_key s)
      else take Q_HASHARR_KEYSIZE key = pair_key s \<and> qhashmd5 key = pair_keymd5 s)"

function get_idx_loop :: "qhasharr_slot_s list \<Rightarrow> string \<Rightarrow> nat \<Rightarrow> nat \<Rightarrow> int \<Rightarrow> nat option" where
  "get_idx_loop S key hash idx count =
     (if idx < length S \<and> hash < length S then
        (if count < s_count (S ! hash) then
           (let same = s_hash (S ! idx) = hash \<and> (s_count (S ! idx) > 0 \<or> s_count (S ! idx) = -1) in
            if same \<and> key_match key (S ! idx) then Some idx
            else
              (let count' = (if same then count + 1 else count);
                   idx' = ring_next (length S) idx
               in if idx' = hash then None else get_idx_loop S key hash idx' count'))
         else None)
      else None)"
  by pat_completeness auto
termination
  by (relation "measure (\<lambda>(S, k, h, i, c). ring_dist (length S) h i)") (auto intro: ring_dist_next)

declare get_idx_loop.simps [simp del]

definition get_idx :: "qhasharr_s \<Rightarrow> string \<Rightarrow> nat \<Rightarrow> nat option" where
  "get_idx t key hash =
     (if s_count (slots t ! hash) > 0 then get_idx_loop (slots t) key hash hash 0 else None)"

section \<open>Reading a value\<close>

text \<open>First loop of \<open>_get_data\<close>: the total size; None when \<open>loop_count\<close> exceeds \<open>maxslots\<close>.\<close>

function get_size_loop :: "qhasharr_slot_s list \<Rightarrow> nat \<Rightarrow> nat \<Rightarrow> nat \<Rightarrow> nat option" where
  "get_size_loop S newidx valsize loop_count =
     (let valsize' = valsize + s_size (S ! newidx) in
      if s_link (S ! newidx) = -1 then Some valsize'
      else if loop_count + 1 > length S then None
      else get_size_loop S (nat (s_link (S ! newidx))) valsize' (loop_count + 1))"
  by pat_completeness auto
termination
  by (relation "measure (\<lambda>(S, i, v, c). length S + 1 - c)") auto

declare get_size_loop.simps [simp del]

text \<open>Second loop: \<open>out\<close> are the bytes written so far (\<open>vp - value\<close> is their number).  Both views
  of the union start at offset 0.\<close>

function get_copy_loop :: "qhasharr_slot_s list \<Rightarrow> nat \<Rightarrow> string \<Rightarrow> nat \<Rightarrow> nat \<Rightarrow> string option" where
  "get_copy_loop S newidx out valsize loop_count =
     (if length out < valsize then
        (let vsize = s_size (S ! newidx) in
         if length out + vsize > valsize then None
         else
           (let out' = out @ chunk 0 vsize (s_data (S ! newidx)) in
            if s_link (S ! newidx) = -1 then Some out'
            else if loop_count + 1 > length S then None
            else get_copy_loop S (nat (s_link (S ! newidx))) out' valsize (loop_count + 1)))
      else Some out)"
  by pat_completeness auto
termination
  by (relation "measure (\<lambda>(S, i, out, v, c). length S + 1 - c)") auto

declare get_copy_loop.simps [simp del]

definition get_data :: "(nat \<Rightarrow> bool) \<Rightarrow> qhasharr_s \<Rightarrow> nat \<Rightarrow> string qres" where
  "get_data mem t idx =
     (case get_size_loop (slots t) idx 0 0 of None \<Rightarrow> Inl EUNSET
      | Some valsize \<Rightarrow>
        if \<not> mem valsize then Inl ENOMEM
        else (case get_copy_loop (slots t) idx [] valsize 0 of None \<Rightarrow> Inl EUNSET
              | Some out \<Rightarrow> Inr (out @ replicate (valsize - length out) NUL)))"

section \<open>Slot operations\<close>

definition copy_slot :: "qhasharr_s \<Rightarrow> nat \<Rightarrow> nat \<Rightarrow> unit qres \<times> qhasharr_s" where
  "copy_slot t idx1 idx2 =
     (if s_count (slots t ! idx1) \<noteq> 0 \<or> s_count (slots t ! idx2) = 0 then (Inl EFAULT, t)
      else (Inr (), (upd_slot idx1 (\<lambda>_. slots t ! idx2) t)\<lparr>usedslots := usedslots t + 1\<rparr>))"

definition remove_slot :: "qhasharr_s \<Rightarrow> nat \<Rightarrow> unit qres \<times> qhasharr_s" where
  "remove_slot t idx =
     (if s_count (slots t ! idx) = 0 then (Inl EFAULT, t)
      else (Inr (), (upd_slot idx (\<lambda>s. s\<lparr>s_count := 0\<rparr>) t)\<lparr>usedslots := usedslots t - 1\<rparr>))"

lemma maxslots_upd_slot [simp]: "maxslots (upd_slot i f t) = maxslots t"
  by (simp add: maxslots_def upd_slot_def)

lemma maxslots_counters [simp]:
  "maxslots (t\<lparr>usedslots := u\<rparr>) = maxslots t" "maxslots (t\<lparr>num := n\<rparr>) = maxslots t"
  by (simp_all add: maxslots_def)

lemma maxslots_remove_slot [simp]: "maxslots (snd (remove_slot t i)) = maxslots t"
  by (simp add: remove_slot_def)

text \<open>The loop of \<open>_remove_data\<close>.\<close>

function remove_data_loop :: "qhasharr_s \<Rightarrow> nat \<Rightarrow> nat \<Rightarrow> qhasharr_s" where
  "remove_data_loop t idx loop_count =
     (let link = s_link (slots t ! idx);
          t' = snd (remove_slot t idx)
      in if link = -1 then t'
         else if loop_count + 1 > maxslots t' then t'
         else remove_data_loop t' (nat link) (loop_count + 1))"
  by pat_completeness auto
termination
  by (relation "measure (\<lambda>(t, i, c). maxslots t + 1 - c)") auto

declare remove_data_loop.simps [simp del]

definition remove_data :: "qhasharr_s \<Rightarrow> nat \<Rightarrow> unit qres \<times> qhasharr_s" where
  "remove_data t idx =
     (if s_count (slots t ! idx) = 0 then (Inl EFAULT, t)
      else
        (let t' = remove_data_loop t idx 0 in (Inr (), t'\<lparr>num := num t' - 1\<rparr>)))"

section \<open>Storing a value\<close>

text \<open>Linking a cleared extension block \<open>tmpidx\<close> behind \<open>newidx\<close>.\<close>

definition link_block :: "qhasharr_s \<Rightarrow> nat \<Rightarrow> nat \<Rightarrow> qhasharr_s" where
  "link_block t newidx tmpidx =
     upd_slot newidx (\<lambda>s. s\<lparr>s_link := int tmpidx\<rparr>)
       (upd_slot tmpidx (\<lambda>_. zero_slot\<lparr>s_count := -2, s_hash := newidx, s_link := -1, s_size := 0\<rparr>) t)"

text \<open>Copying the next piece of the value into block \<open>newidx\<close>; returns the number of bytes.\<close>

definition store_block :: "qhasharr_s \<Rightarrow> nat \<Rightarrow> string \<Rightarrow> nat \<Rightarrow> qhasharr_s \<times> nat" where
  "store_block t newidx value savesize =
     (let rest = length value - savesize;
          ext = s_count (slots t ! newidx) = -2;
          copysize = (if ext then min rest SLOT_DATA_SIZE else min rest Q_HASHARR_VALUESIZE);
          t1 = (if ext then t else t\<lparr>num := num t + 1\<rparr>);
          t2 = upd_slot newidx
                 (\<lambda>s. s\<lparr>s_data := blit 0 (chunk savesize copysize value) (s_data s), s_size := copysize mod 256\<rparr>) t1
      in (t2\<lparr>usedslots := usedslots t2 + 1\<rparr>, copysize))"

lemma store_block_progress:
  "savesize < length value \<Longrightarrow> 0 < snd (store_block t newidx value savesize)"
  by (simp add: store_block_def Let_def)

function put_data_loop :: "qhasharr_s \<Rightarrow> nat \<Rightarrow> nat \<Rightarrow> nat \<Rightarrow> string \<Rightarrow> unit qres \<times> qhasharr_s" where
  "put_data_loop t idx newidx savesize value =
     (if savesize < length value then
        (case (if savesize > 0 then find_empty t (newidx + 1) else Some newidx) of
           None \<Rightarrow> (Inl ENOBUFS, snd (remove_data t idx))
         | Some cur \<Rightarrow>
             (let t1 = (if savesize > 0 then link_block t newidx cur else t);
                  t2 = fst (store_block t1 cur value savesize);
                  copysize = snd (store_block t1 cur value savesize)
              in put_data_loop t2 idx cur (savesize + copysize) value))
      else (Inr (), t))"
  by pat_completeness auto
termination
  by (relation "measure (\<lambda>(t, i, n, s, v). length v - s)")
    (auto intro!: diff_less_mono2 simp: store_block_progress)

declare put_data_loop.simps [simp del]

text \<open>The assignments of \<open>_put_data\<close> to the first slot: key, digest, 16-bit key length, link.\<close>

definition store_key :: "nat \<Rightarrow> string \<Rightarrow> int \<Rightarrow> qhasharr_slot_s \<Rightarrow> qhasharr_slot_s" where
  "store_key hash key count s =
     s\<lparr>s_count := count, s_hash := hash, s_link := -1,
       s_data := blit 128 (le_bytes 2 (length key mod 65536))
                   (blit 130 (qhashmd5 key)
                     (blit 96 (take Q_HASHARR_KEYSIZE key) (s_data s)))\<rparr>"

definition put_data ::
  "qhasharr_s \<Rightarrow> nat \<Rightarrow> nat \<Rightarrow> string \<Rightarrow> string \<Rightarrow> int \<Rightarrow> unit qres \<times> qhasharr_s" where
  "put_data t idx hash key value count =
     (if s_count (slots t ! idx) \<noteq> 0 then (Inl EFAULT, t)
      else put_data_loop (upd_slot idx (store_key hash key count) t) idx idx 0 value)"

section \<open>Removing a key\<close>

text \<open>The loop of \<open>qhasharr_remove\<close> that finds a collision slot of the same bucket; it starts
  behind \<open>idx\<close> and gives up when it is back there.\<close>

function find_dup :: "qhasharr_slot_s list \<Rightarrow> nat \<Rightarrow> nat \<Rightarrow> nat \<Rightarrow> nat option" where
  "find_dup S idx hash i =
     (if i < length S \<and> idx < length S then
        (let idx2 = ring_next (length S) i in
         if idx2 = idx then None
         else if s_count (S ! idx2) = -1 \<and> s_hash (S ! idx2) = hash then Some idx2
         else find_dup S idx hash idx2)
      else None)"
  by pat_completeness auto
termination
  by (relation "measure (\<lambda>(S, x, h, i). ring_dist (length S) x i)") (auto intro: ring_dist_next)

declare find_dup.simps [simp del]

definition remove_idx :: "qhasharr_s \<Rightarrow> nat \<Rightarrow> nat \<Rightarrow> unit qres \<times> qhasharr_s" where
  "remove_idx t hash idx =
     (let count = s_count (slots t ! idx) in
      if count = 1 then (Inr (), snd (remove_data t idx))
      else if count > 1 then
        (case find_dup (slots t) idx hash idx of
           None \<Rightarrow> (Inl EFAULT, t)
         | Some idx2 \<Rightarrow>
             (let t1 = snd (remove_data t idx);
                  t2 = snd (copy_slot t1 idx idx2);
                  t3 = snd (remove_slot t2 idx2);
                  t4 = upd_slot idx (\<lambda>s. s\<lparr>s_count := count - 1\<rparr>) t3;
                  link = s_link (slots t4 ! idx)
              in (Inr (), if link \<noteq> -1 then upd_slot (nat link) (\<lambda>s. s\<lparr>s_hash := idx\<rparr>) t4 else t4)))
      else if count = -1 then
        (let lead = s_hash (slots t ! idx) in
         if s_count (slots t ! lead) \<le> 1 then (Inl EFAULT, t)
         else
           (let t1 = upd_slot lead (\<lambda>s. s\<lparr>s_count := s_count s - 1\<rparr>) t
            in (Inr (), snd (remove_data t1 idx))))
      else (Inl ENOENT, t))"

definition qhasharr_remove :: "qhasharr_s \<Rightarrow> string \<Rightarrow> unit qres \<times> qhasharr_s" where
  "qhasharr_remove t key =
     (if maxslots t = 0 then (Inl EUNSET, t)
      else
        (let hash = bucket t key in
         case get_idx t key hash of
           None \<Rightarrow> (Inl ENOENT, t)
         | Some idx \<Rightarrow> remove_idx t hash idx))"

section \<open>Termination of the put recursion\<close>

text \<open>\<open>qhasharr_put\<close> removes an existing entry and calls itself.  Every successful removal empties
  at least one slot, in any table, consistent or not.\<close>

definition used_set :: "qhasharr_s \<Rightarrow> nat set" where
  "used_set t = {i. i < maxslots t \<and> s_count (slots t ! i) \<noteq> 0}"

lemma finite_used_set [simp]: "finite (used_set t)"
  by (simp add: used_set_def)

lemma slots_upd_slot: "slots (upd_slot i f t) = (slots t)[i := f (slots t ! i)]"
  by (simp add: upd_slot_def)

lemma nth_upd_slot:
  "p < maxslots t \<Longrightarrow> slots (upd_slot i f t) ! p = (if p = i then f (slots t ! i) else slots t ! p)"
  by (simp add: upd_slot_def maxslots_def)

lemma used_set_counters [simp]:
  "used_set (t\<lparr>usedslots := u\<rparr>) = used_set t" "used_set (t\<lparr>num := n\<rparr>) = used_set t"
  by (simp_all add: used_set_def maxslots_def)

lemma used_upd_slot: "used_set (upd_slot i f t) \<subseteq> insert i (used_set t)"
  by (auto simp: used_set_def nth_upd_slot split: if_splits)

lemma used_upd_same: "(\<And>s. s_count (f s) = s_count s) \<Longrightarrow> used_set (upd_slot i f t) = used_set t"
  by (auto simp: used_set_def nth_upd_slot split: if_splits)

lemma used_remove_slot: "used_set (snd (remove_slot t i)) = used_set t - {i}"
  by (auto simp: remove_slot_def used_set_def nth_upd_slot split: if_splits)

lemma used_copy_slot: "used_set (snd (copy_slot t i j)) \<subseteq> insert i (used_set t)"
  using used_upd_slot [of i "\<lambda>_. slots t ! j" t] by (auto simp: copy_slot_def)

lemma used_remove_data_loop: "used_set (remove_data_loop t i c) \<subseteq> used_set t - {i}"
proof (induction t i c rule: remove_data_loop.induct)
  case (1 t i c)
  then show ?case
    using used_remove_slot [of t i] by (subst remove_data_loop.simps) (auto simp: Let_def)
qed

lemma used_remove_data: "used_set (snd (remove_data t i)) \<subseteq> used_set t - {i}"
  using used_remove_data_loop [of t i 0]
  by (auto simp: remove_data_def Let_def) (auto simp: used_set_def)

lemma maxslots_remove_data_loop [simp]: "maxslots (remove_data_loop t i c) = maxslots t"
proof (induction t i c rule: remove_data_loop.induct)
  case (1 t i c)
  then show ?case by (subst remove_data_loop.simps) (auto simp: Let_def)
qed

lemma maxslots_ops [simp]:
  "maxslots (snd (remove_data t i)) = maxslots t"
  "maxslots (snd (copy_slot t i j)) = maxslots t"
  by (simp_all add: remove_data_def copy_slot_def Let_def)

text \<open>The loops are searches along the ring.\<close>

lemma find_empty_loop_eq:
  "i < length S \<Longrightarrow> x < length S \<Longrightarrow>
   find_empty_loop S x i = find (\<lambda>j. s_count (S ! j) = 0) (ring_from (length S) x i)"
proof (induction S x i rule: find_empty_loop.induct)
  case (1 S x i)
  then show ?case
    by (subst find_empty_loop.simps, subst ring_from_unfold) (auto simp: Let_def)
qed

lemma find_dup_eq:
  "i < length S \<Longrightarrow> x < length S \<Longrightarrow>
   find_dup S x h i = find (\<lambda>j. s_count (S ! j) = -1 \<and> s_hash (S ! j) = h) (tl (ring_from (length S) x i))"
proof (induction S x h i rule: find_dup.induct)
  case (1 S x h i)
  let ?n = "ring_next (length S) i"
  have n: "?n < length S" using "1.prems" by simp
  have r: "?n \<noteq> x \<Longrightarrow> ring_from (length S) x ?n = ?n # tl (ring_from (length S) x ?n)"
    using ring_from_unfold [OF n "1.prems"(2)] by simp
  show ?case
  proof (cases "?n = x")
    case True
    then show ?thesis
      using "1.prems" by (subst find_dup.simps, subst ring_from_unfold) auto
  next
    case False
    then have eq: "tl (ring_from (length S) x i) = ?n # tl (ring_from (length S) x ?n)"
      using r ring_from_unfold [OF "1.prems"] by simp
    show ?thesis
      unfolding eq using 1 n False by (subst find_dup.simps) (auto simp: Let_def)
  qed
qed

definition same_bucket :: "qhasharr_slot_s list \<Rightarrow> nat \<Rightarrow> nat \<Rightarrow> bool" where
  "same_bucket S hash i \<longleftrightarrow> s_hash (S ! i) = hash \<and> (s_count (S ! i) > 0 \<or> s_count (S ! i) = -1)"

fun scan_bucket :: "qhasharr_slot_s list \<Rightarrow> string \<Rightarrow> nat \<Rightarrow> int \<Rightarrow> nat list \<Rightarrow> nat option" where
  "scan_bucket S key hash count [] = None"
| "scan_bucket S key hash count (i # is) =
     (if count < s_count (S ! hash) then
        (if same_bucket S hash i \<and> key_match key (S ! i) then Some i
         else scan_bucket S key hash (if same_bucket S hash i then count + 1 else count) is)
      else None)"

lemma get_idx_loop_eq:
  "i < length S \<Longrightarrow> h < length S \<Longrightarrow> get_idx_loop S k h i c = scan_bucket S k h c (ring_from (length S) h i)"
proof (induction S k h i c rule: get_idx_loop.induct)
  case (1 S k h i c)
  let ?n = "ring_next (length S) i"
  have n: "?n < length S" using "1.prems" by simp
  show ?case
    using 1 n by (subst get_idx_loop.simps, subst ring_from_unfold) (auto simp: Let_def same_bucket_def)
qed

lemma scan_bucket_Some:
  "scan_bucket S k h c is = Some j \<Longrightarrow> j \<in> set is \<and> same_bucket S h j \<and> key_match k (S ! j)"
  by (induction "is" arbitrary: c) (auto split: if_splits)

lemma find_dup_less:
  assumes "find_dup S x h x = Some j"
  shows "j < length S \<and> j \<noteq> x \<and> s_count (S ! j) = -1 \<and> s_hash (S ! j) = h"
proof -
  have x: "x < length S"
    using assms by (subst (asm) find_dup.simps) (auto split: if_splits)
  obtain r where r: "ring_from (length S) x x = x # r"
    using ring_from_unfold [OF x x] by simp
  have "distinct (x # r)" "set (x # r) = {..<length S}"
    using distinct_ring_from [of "length S" x x] set_ring_from [OF x] r by metis+
  moreover have "find (\<lambda>j. s_count (S ! j) = -1 \<and> s_hash (S ! j) = h) r = Some j"
    using assms find_dup_eq [OF x x, of h] r by simp
  ultimately show ?thesis
    by (auto dest!: find_SomeD)
qed

lemma get_idx_less:
  assumes "get_idx t k h = Some j"
  shows "j < maxslots t \<and> same_bucket (slots t) h j \<and> key_match k (slots t ! j)"
proof -
  have g: "get_idx_loop (slots t) k h h 0 = Some j"
    using assms by (simp add: get_idx_def split: if_splits)
  have h: "h < length (slots t)"
    using g by (subst (asm) get_idx_loop.simps) (auto split: if_splits)
  have "scan_bucket (slots t) k h 0 (ring_from (length (slots t)) h h) = Some j"
    using g get_idx_loop_eq [OF h h] by simp
  from scan_bucket_Some [OF this] show ?thesis
    using set_ring_from [OF h] by (auto simp: maxslots_def)
qed

lemma remove_idx_used:
  assumes "remove_idx t h i = (Inr (), t')" and "i < maxslots t"
  shows "used_set t' \<subset> used_set t"
proof -
  let ?c = "s_count (slots t ! i)"
  from assms(1) consider (one) "?c = 1" "t' = snd (remove_data t i)"
    | (lead) j where "?c > 1" "find_dup (slots t) i h i = Some j" "used_set t' \<subseteq>
          insert i (used_set (snd (remove_slot (snd (copy_slot (snd (remove_data t i)) i j)) j)))"
    | (coll) "?c = -1" "s_count (slots t ! s_hash (slots t ! i)) > 1"
        "t' = snd (remove_data (upd_slot (s_hash (slots t ! i)) (\<lambda>s. s\<lparr>s_count := s_count s - 1\<rparr>) t) i)"
    using used_upd_slot used_upd_same
    by (fastforce simp: remove_idx_def Let_def split: if_splits option.splits)
  then show ?thesis
  proof cases
    case one
    then have "i \<in> used_set t" using assms(2) by (simp add: used_set_def)
    then show ?thesis using one used_remove_data [of t i] by blast
  next
    case lead
    have "i \<in> used_set t" using lead assms(2) by (simp add: used_set_def)
    moreover have "j \<in> used_set t" "j \<noteq> i"
      using find_dup_less [OF lead(2)] by (auto simp: used_set_def maxslots_def)
    moreover have "used_set t' \<subseteq> insert i (used_set t - {i, j})"
      using lead(3) used_remove_slot used_copy_slot used_remove_data by fastforce
    ultimately show ?thesis by blast
  next
    case coll
    let ?l = "s_hash (slots t ! i)"
    let ?t1 = "upd_slot ?l (\<lambda>s. s\<lparr>s_count := s_count s - 1\<rparr>) t"
    have i: "i \<in> used_set t" using coll assms(2) by (simp add: used_set_def)
    have "used_set ?t1 \<subseteq> used_set t"
      using coll(2) by (auto simp: used_set_def nth_upd_slot split: if_splits)
    then show ?thesis using i coll(3) used_remove_data [of ?t1 i] by blast
  qed
qed

lemma qhasharr_remove_used:
  assumes "qhasharr_remove t key = (Inr (), t')"
  shows "card (used_set t') < card (used_set t)"
  using assms
  by (auto simp: qhasharr_remove_def Let_def split: if_splits option.splits
      dest!: get_idx_less intro!: psubset_card_mono remove_idx_used)

section \<open>Putting a key\<close>

text \<open>Moving the slot \<open>hash\<close> that another chain occupies to the empty slot \<open>idx\<close>, and fixing the links
  to it.\<close>

definition move_slot :: "qhasharr_s \<Rightarrow> nat \<Rightarrow> nat \<Rightarrow> qhasharr_s" where
  "move_slot t idx hash =
     (let t1 = snd (copy_slot t idx hash);
          t2 = snd (remove_slot t1 hash);
          s = slots t2 ! idx;
          fix_next = (\<lambda>t. if s_link (slots t ! idx) \<noteq> -1
                         then upd_slot (nat (s_link (slots t ! idx))) (\<lambda>s. s\<lparr>s_hash := idx\<rparr>) t else t)
      in if s_count s = -2 then fix_next (upd_slot (s_hash s) (\<lambda>s. s\<lparr>s_link := int idx\<rparr>) t2)
         else if s_count s = -1 then fix_next t2
         else t2)"

function qhasharr_put :: "qhasharr_s \<Rightarrow> string \<Rightarrow> string \<Rightarrow> unit qres \<times> qhasharr_s" where
  "qhasharr_put t key value =
     (if maxslots t = 0 then (Inl EUNSET, t)
      else if usedslots t \<ge> int (maxslots t) then (Inl ENOBUFS, t)
      else
        (let hash = bucket t key in
         if s_count (slots t ! hash) = 0 then put_data t hash hash key value 1
         else if s_count (slots t ! hash) > 0 then
           (case get_idx t key hash of
              Some idx \<Rightarrow>
                (case qhasharr_remove t key of
                   (Inl e, t') \<Rightarrow> (Inl e, t')
                 | (Inr _, t') \<Rightarrow> qhasharr_put t' key value)
            | None \<Rightarrow>
                (case find_empty t hash of
                   None \<Rightarrow> (Inl ENOBUFS, t)
                 | Some idx \<Rightarrow>
                     (case put_data t idx hash key value (-1) of
                        (Inl e, t') \<Rightarrow> (Inl e, t')
                      | (Inr _, t') \<Rightarrow>
                          (Inr (), upd_slot hash (\<lambda>s. s\<lparr>s_count := short_of (s_count s + 1)\<rparr>) t'))))
         else
           (case find_empty t (hash + 1) of
              None \<Rightarrow> (Inl ENOBUFS, t)
            | Some idx \<Rightarrow> put_data (move_slot t idx hash) hash hash key value 1)))"
  by pat_completeness auto
termination
  by (relation "measure (\<lambda>(t, k, v). card (used_set t))") (auto dest: qhasharr_remove_used [OF sym])

declare qhasharr_put.simps [simp del]

section \<open>The other operations\<close>

definition qhasharr_exist :: "qhasharr_s \<Rightarrow> string \<Rightarrow> bool" where
  "qhasharr_exist t key =
     (if maxslots t = 0 then False else get_idx t key (bucket t key) \<noteq> None)"

definition qhasharr_get :: "(nat \<Rightarrow> bool) \<Rightarrow> qhasharr_s \<Rightarrow> string \<Rightarrow> string qres" where
  "qhasharr_get mem t key =
     (if maxslots t = 0 then Inl EUNSET
      else (case get_idx t key (bucket t key) of
              None \<Rightarrow> Inl ENOENT
            | Some idx \<Rightarrow> get_data mem t idx))"

text \<open>\<open>qhasharr_getnext\<close>: the result with the advanced index; on success the (possibly cut) name and
  the value.  An allocation failure leaves the index at the entry.\<close>

function qhasharr_getnext :: "(nat \<Rightarrow> bool) \<Rightarrow> qhasharr_s \<Rightarrow> nat \<Rightarrow> (string \<times> string) qres \<times> nat" where
  "qhasharr_getnext mem t idx =
     (if idx < maxslots t then
        (let s = slots t ! idx in
         if s_count s = 0 \<or> s_count s = -2 then qhasharr_getnext mem t (idx + 1)
         else
           (let keylen = min (pair_keylen s) Q_HASHARR_KEYSIZE in
            if \<not> mem keylen then (Inl ENOMEM, idx)
            else (case get_data mem t idx of
                    Inl _ \<Rightarrow> (Inl ENOMEM, idx)
                  | Inr v \<Rightarrow> (Inr (take keylen (pair_key s), v), idx + 1))))
      else (Inl ENOENT, idx))"
  by pat_completeness auto
termination
  by (relation "measure (\<lambda>(mem, t, i). maxslots t - i)") auto

declare qhasharr_getnext.simps [simp del]

text \<open>\<open>num\<close>, \<open>maxslots\<close> and \<open>usedslots\<close>; a NULL table gives 0 (\<open>return false\<close>).\<close>

definition qhasharr_size :: "qhasharr_s option \<Rightarrow> int \<times> (nat \<times> int) option" where
  "qhasharr_size tbl =
     (case tbl of None \<Rightarrow> (0, None) | Some t \<Rightarrow> (num t, Some (maxslots t, usedslots t)))"

definition qhasharr_clear :: "qhasharr_s \<Rightarrow> qhasharr_s" where
  "qhasharr_clear t =
     (if usedslots t = 0 then t
      else t\<lparr>usedslots := 0, num := 0, slots := replicate (maxslots t) zero_slot\<rparr>)"

end
