(* ===== verification/QHasharrInv.thy ===== *)
theory QHasharrInv
  imports QHasharr
begin

text \<open>
  The consistency invariant of the shared-memory table and its reading operations.

  A used slot is a head (\<open>count\<close> positive or -1: it holds a key) or an extension block (-2); a
  head and its extension blocks form a doubly linked chain (\<open>link\<close> forward, \<open>hash\<close> backward).
  \<open>shape\<close> says that the chains are well formed, \<open>buckets\<close> that leading slots count their
  collisions, \<open>keys_ok\<close> that a bucket holds a key at most once.  Reading an entry returns the
  concatenation of its blocks, and a key is found exactly when the table has an entry for it.
\<close>

section \<open>Invariant\<close>

definition used :: "qhasharr_slot_s list \<Rightarrow> nat \<Rightarrow> bool" where
  "used S i \<longleftrightarrow> i < length S \<and> s_count (S ! i) \<noteq> 0"

definition ext :: "qhasharr_slot_s list \<Rightarrow> nat \<Rightarrow> bool" where
  "ext S i \<longleftrightarrow> i < length S \<and> s_count (S ! i) = -2"

definition head :: "qhasharr_slot_s list \<Rightarrow> nat \<Rightarrow> bool" where
  "head S i \<longleftrightarrow> i < length S \<and> (s_count (S ! i) > 0 \<or> s_count (S ! i) = -1)"

definition slot_ok :: "qhasharr_slot_s \<Rightarrow> bool" where
  "slot_ok s \<longleftrightarrow> s_count s \<ge> -2 \<and> length (s_data s) = 146 \<and> s_size s \<le> 146"

definition linked :: "qhasharr_slot_s list \<Rightarrow> bool" where
  "linked S \<longleftrightarrow>
     (\<forall>i. used S i \<and> s_link (S ! i) \<noteq> -1 \<longrightarrow>
        (\<exists>j. s_link (S ! i) = int j \<and> ext S j \<and> s_hash (S ! j) = i))
   \<and> (\<forall>j. ext S j \<longrightarrow> used S (s_hash (S ! j)) \<and> s_link (S ! s_hash (S ! j)) = int j)"

definition ranked :: "qhasharr_slot_s list \<Rightarrow> (nat \<Rightarrow> nat) \<Rightarrow> bool" where
  "ranked S rank \<longleftrightarrow> (\<forall>j. ext S j \<longrightarrow> rank (s_hash (S ! j)) < rank j)"

definition shape :: "qhasharr_slot_s list \<Rightarrow> bool" where
  "shape S \<longleftrightarrow> (\<forall>s\<in>set S. slot_ok s) \<and> linked S \<and> (\<exists>rank. ranked S rank)"

definition collisions :: "qhasharr_slot_s list \<Rightarrow> nat \<Rightarrow> nat set" where
  "collisions S h = {j. j < length S \<and> s_count (S ! j) = -1 \<and> s_hash (S ! j) = h}"

definition buckets :: "qhasharr_slot_s list \<Rightarrow> bool" where
  "buckets S \<longleftrightarrow>
     (\<forall>i<length S. s_count (S ! i) > 0 \<longrightarrow>
        s_hash (S ! i) = i \<and> s_count (S ! i) = 1 + int (card (collisions S i)))
   \<and> (\<forall>j<length S. s_count (S ! j) = -1 \<longrightarrow>
        s_hash (S ! j) < length S \<and> s_count (S ! s_hash (S ! j)) > 0)"

text \<open>What the table keeps of a key: its length, its first 32 bytes and, for longer keys, its MD5.\<close>

type_synonym key_id = "nat \<times> string \<times> string"

definition kid :: "string \<Rightarrow> key_id" where
  "kid k = (length k, take 32 k, if length k \<le> 32 then [] else qhashmd5 k)"

definition slot_kid :: "qhasharr_slot_s \<Rightarrow> key_id" where
  "slot_kid s = (pair_keylen s, take (pair_keylen s) (pair_key s),
     if pair_keylen s \<le> 32 then [] else pair_keymd5 s)"

definition entry :: "qhasharr_slot_s list \<Rightarrow> nat \<Rightarrow> key_id \<Rightarrow> nat \<Rightarrow> bool" where
  "entry S b q i \<longleftrightarrow> head S i \<and> s_hash (S ! i) = b \<and> slot_kid (S ! i) = q"

definition keys_ok :: "qhasharr_slot_s list \<Rightarrow> bool" where
  "keys_ok S \<longleftrightarrow> (\<forall>b q i j. entry S b q i \<and> entry S b q j \<longrightarrow> i = j)"

lemma keys_okD: "keys_ok S \<Longrightarrow> entry S b q i \<Longrightarrow> entry S b q j \<Longrightarrow> i = j"
  unfolding keys_ok_def by blast

definition heads :: "qhasharr_slot_s list \<Rightarrow> nat set" where
  "heads S = {i. head S i}"

section \<open>Chains\<close>

inductive chain :: "qhasharr_slot_s list \<Rightarrow> nat \<Rightarrow> nat list \<Rightarrow> bool" for S where
  chain_end: "i < length S \<Longrightarrow> s_link (S ! i) = -1 \<Longrightarrow> chain S i [i]"
| chain_step: "i < length S \<Longrightarrow> s_link (S ! i) = int j \<Longrightarrow> chain S j xs \<Longrightarrow> chain S i (i # xs)"

inductive_cases chain_Nil: "chain S i []"
inductive_cases chain_Cons: "chain S i (x # xs)"

lemma chain_not_Nil: "chain S i xs \<Longrightarrow> xs \<noteq> []"
  by (induction rule: chain.induct) auto

lemma chain_hd: "chain S i xs \<Longrightarrow> xs \<noteq> [] \<and> hd xs = i"
  by (induction rule: chain.induct) auto

lemma chain_fun: "chain S i xs \<Longrightarrow> chain S i ys \<Longrightarrow> ys = xs"
proof (induction arbitrary: ys rule: chain.induct)
  case (chain_end i)
  from chain_end.prems show ?case
    by (cases rule: chain.cases) (use chain_end in auto)
next
  case (chain_step i j xs)
  from chain_step.prems show ?case
  proof (cases rule: chain.cases)
    case chain_end
    then show ?thesis using chain_step.hyps(2) by simp
  next
    case (chain_step j' xs')
    then have "chain S j xs'" using \<open>s_link (S ! i) = int j\<close> by simp
    then show ?thesis using chain_step(1) \<open>\<And>ys. chain S j ys \<Longrightarrow> ys = xs\<close> by blast
  qed
qed

lemma chain_cong:
  assumes "chain S i xs" and "length S' = length S" and "\<And>x. x \<in> set xs \<Longrightarrow> s_link (S' ! x) = s_link (S ! x)"
  shows "chain S' i xs"
  using assms by (induction rule: chain.induct) (auto intro: chain.intros)

definition chain_of :: "qhasharr_slot_s list \<Rightarrow> nat \<Rightarrow> nat list" where
  "chain_of S i = (THE xs. chain S i xs)"

lemma chain_of_eq: "chain S i xs \<Longrightarrow> chain_of S i = xs"
  unfolding chain_of_def by (rule the_equality) (auto dest: chain_fun)

definition blk :: "qhasharr_slot_s list \<Rightarrow> nat \<Rightarrow> string" where
  "blk S i = take (s_size (S ! i)) (s_data (S ! i))"

definition value_of :: "qhasharr_slot_s list \<Rightarrow> nat \<Rightarrow> string" where
  "value_of S i = concat (map (blk S) (chain_of S i))"

text \<open>The slots a value takes: 96 bytes beside the key, 146 in each extension block.  A head has
  exactly the blocks that its value needs.\<close>

definition nblocks :: "string \<Rightarrow> nat" where
  "nblocks v = 1 + (length v - 96 + 145) div 146"

definition packed :: "qhasharr_slot_s list \<Rightarrow> bool" where
  "packed S \<longleftrightarrow> (\<forall>i. head S i \<longrightarrow> length (chain_of S i) = nblocks (value_of S i))"

definition tbl_inv :: "qhasharr_s \<Rightarrow> bool" where
  "tbl_inv t \<longleftrightarrow> 0 < maxslots t \<and> shape (slots t) \<and> buckets (slots t) \<and> keys_ok (slots t) \<and> packed (slots t)
     \<and> usedslots t = int (card (used_set t)) \<and> num t = int (card (heads (slots t)))"

lemma shape_slot_ok: "shape S \<Longrightarrow> i < length S \<Longrightarrow> slot_ok (S ! i)"
  by (simp add: shape_def)

lemma shape_link:
  assumes "shape S" "used S i" "s_link (S ! i) \<noteq> -1"
  obtains j where "s_link (S ! i) = int j" "ext S j" "s_hash (S ! j) = i"
  using assms unfolding shape_def linked_def by blast

lemma shape_next: "shape S \<Longrightarrow> used S i \<Longrightarrow> s_link (S ! i) = int j \<Longrightarrow> ext S j \<and> s_hash (S ! j) = i"
  by (erule shape_link) auto

lemma shape_back: "shape S \<Longrightarrow> ext S j \<Longrightarrow> used S (s_hash (S ! j)) \<and> s_link (S ! s_hash (S ! j)) = int j"
  unfolding shape_def linked_def by blast

lemma ext_used: "ext S i \<Longrightarrow> used S i"
  by (simp add: ext_def used_def)

lemma head_used: "head S i \<Longrightarrow> used S i"
  by (auto simp: head_def used_def)

lemma head_not_ext: "head S i \<Longrightarrow> \<not> ext S i"
  by (auto simp: head_def ext_def)

lemma used_cases: "shape S \<Longrightarrow> used S i \<longleftrightarrow> head S i \<or> ext S i"
  using shape_slot_ok [of S i] by (auto simp: used_def head_def ext_def slot_ok_def)

lemma chain_exists:
  assumes "shape S" and "used S i"
  shows "\<exists>xs. chain S i xs"
proof -
  obtain rank where r: "ranked S rank"
    using assms(1) by (auto simp: shape_def)
  show ?thesis
    using assms(2)
  proof (induction "card {j. ext S j \<and> rank i < rank j}" arbitrary: i rule: less_induct)
    case less
    show ?case
    proof (cases "s_link (S ! i) = -1")
      case True
      then show ?thesis using less.prems by (auto simp: used_def intro: chain_end)
    next
      case False
      then obtain j where j: "s_link (S ! i) = int j" "ext S j" "s_hash (S ! j) = i"
        using shape_link [OF assms(1) less.prems] by blast
      have fin: "finite {j. ext S j \<and> rank i < rank j}"
        by (rule finite_subset [of _ "{..<length S}"]) (auto simp: ext_def)
      have ij: "rank i < rank j"
        using r j by (auto simp: ranked_def)
      then have "{p. ext S p \<and> rank j < rank p} \<subset> {p. ext S p \<and> rank i < rank p}"
        using j(2) by auto
      from less.hyps [OF psubset_card_mono [OF fin this] ext_used [OF j(2)]]
      obtain xs where "chain S j xs" by blast
      then show ?thesis
        using less.prems j(1) by (auto simp: used_def intro: chain_step)
    qed
  qed
qed

lemma chain_tail_ext:
  "chain S i xs \<Longrightarrow> shape S \<Longrightarrow> used S i \<Longrightarrow> (\<forall>x\<in>set xs. used S x) \<and> (\<forall>x\<in>set (tl xs). ext S x)"
proof (induction rule: chain.induct)
  case (chain_step i j xs)
  have j: "ext S j"
    using shape_next [OF chain_step.prems chain_step.hyps(2)] by simp
  then show ?case
    using chain_step.IH [OF chain_step.prems(1) ext_used [OF j]] chain_step.prems chain_hd [OF chain_step.hyps(3)]
    by (cases xs) auto
qed auto

lemmas chain_used = chain_tail_ext [THEN conjunct1, rule_format]
lemmas chain_ext = chain_tail_ext [THEN conjunct2, rule_format]

lemma chain_rank:
  "chain S i xs \<Longrightarrow> shape S \<Longrightarrow> used S i \<Longrightarrow> ranked S rank \<Longrightarrow> sorted_wrt (\<lambda>x y. rank x < rank y) xs"
proof (induction rule: chain.induct)
  case (chain_step i j xs)
  have j: "ext S j" "s_hash (S ! j) = i"
    using shape_next [OF chain_step.prems(1,2) chain_step.hyps(2)] by simp_all
  then have "rank i < rank j" using chain_step.prems by (auto simp: ranked_def)
  moreover have "sorted_wrt (\<lambda>x y. rank x < rank y) xs"
    using chain_step.IH chain_step.prems ext_used [OF j(1)] by blast
  ultimately show ?case
    using chain_hd [OF chain_step.hyps(3)] by (cases xs) auto
qed auto

lemma chain_distinct:
  assumes "chain S i xs" "shape S" "used S i"
  shows "distinct xs"
proof -
  obtain rank where "ranked S rank"
    using assms(2) by (auto simp: shape_def)
  from chain_rank [OF assms this] show ?thesis
    by (induction xs) auto
qed

lemma chain_length:
  assumes "chain S i xs" "shape S" "used S i"
  shows "length xs \<le> length S"
proof -
  have "set xs \<subseteq> {..<length S}"
    using chain_used [OF assms] by (auto simp: used_def)
  from card_mono [OF _ this] show ?thesis
    using distinct_card [OF chain_distinct [OF assms]] by simp
qed

lemma chain_link_closed:
  assumes "chain S i xs" "x \<in> set xs" "s_link (S ! x) = int j"
  shows "j \<in> set xs"
  using assms
proof (induction rule: chain.induct)
  case (chain_step i j' xs)
  then show ?case using chain_hd [OF chain_step.hyps(3)] by (cases xs) auto
qed auto

lemma chain_back_closed:
  assumes "chain S i xs" "shape S" "used S i" "x \<in> set xs" "x \<noteq> i"
  shows "s_hash (S ! x) \<in> set xs"
  using assms
proof (induction rule: chain.induct)
  case (chain_step i j xs)
  have j: "ext S j" "s_hash (S ! j) = i"
    using shape_next [OF chain_step.prems(1,2) chain_step.hyps(2)] by simp_all
  show ?case
    using chain_step.IH [OF chain_step.prems(1) ext_used [OF j(1)]] chain_step.prems j by (cases "x = j") auto
qed auto

lemma chain_disjoint:
  assumes "chain S i xs" "chain S k ys" "shape S" "head S i" "head S k" "x \<in> set xs" "x \<in> set ys"
  shows "i = k"
proof -
  obtain rank where r: "ranked S rank"
    using assms(3) by (auto simp: shape_def)
  note ui = head_used [OF assms(4)] and uk = head_used [OF assms(5)]
  show ?thesis
    using assms(6,7)
  proof (induction "rank x" arbitrary: x rule: less_induct)
    case less
    show ?case
    proof (cases "ext S x")
      case True
      then have "x \<noteq> i" "x \<noteq> k"
        using assms(4,5) head_not_ext by auto
      then have "s_hash (S ! x) \<in> set xs" "s_hash (S ! x) \<in> set ys"
        using chain_back_closed [OF assms(1,3) ui less.prems(1)] chain_back_closed [OF assms(2,3) uk less.prems(2)]
        by auto
      moreover have "rank (s_hash (S ! x)) < rank x"
        using r True by (auto simp: ranked_def)
      ultimately show ?thesis using less.hyps by blast
    next
      case False
      then have "x = i" "x = k"
        using chain_ext [OF assms(1,3) ui] chain_ext [OF assms(2,3) uk] less.prems
          chain_hd [OF assms(1)] chain_hd [OF assms(2)]
        by (metis list.collapse set_ConsD)+
      then show ?thesis by simp
    qed
  qed
qed

section \<open>Reading an entry\<close>

lemma length_blk: "slot_ok (S ! i) \<Longrightarrow> length (blk S i) = s_size (S ! i)"
  by (simp add: blk_def slot_ok_def)

lemma get_size_chain:
  assumes "chain S i xs" and "c + length xs \<le> length S + 1"
  shows "get_size_loop S i v c = Some (v + (\<Sum>x\<leftarrow>xs. s_size (S ! x)))"
  using assms
proof (induction arbitrary: v c rule: chain.induct)
  case (chain_end i)
  then show ?case by (subst get_size_loop.simps) simp
next
  case (chain_step i j xs)
  have "xs \<noteq> []" using chain_not_Nil [OF chain_step.hyps(3)] .
  then have "\<not> c + 1 > length S"
    using chain_step.prems by (cases xs) auto
  then show ?case
    using chain_step by (subst get_size_loop.simps) (simp add: Let_def)
qed

lemma get_copy_chain:
  assumes "chain S i xs" and "c + length xs \<le> length S + 1" and "\<And>x. x \<in> set xs \<Longrightarrow> slot_ok (S ! x)"
    and "v = length out + length (concat (map (blk S) xs))"
  shows "get_copy_loop S i out v c = Some (out @ concat (map (blk S) xs))"
  using assms
proof (induction arbitrary: out c rule: chain.induct)
  case (chain_end i)
  then show ?case
    by (subst get_copy_loop.simps) (auto simp: Let_def chunk_def blk_def slot_ok_def)
next
  case (chain_step i j xs)
  have "xs \<noteq> []" using chain_not_Nil [OF chain_step.hyps(3)] .
  then have c: "\<not> c + 1 > length S"
    using chain_step.prems by (cases xs) auto
  have sz: "length (blk S i) = s_size (S ! i)"
    using chain_step.prems(2) [of i] by (simp add: length_blk)
  have b: "chunk 0 (s_size (S ! i)) (s_data (S ! i)) = blk S i"
    by (simp add: chunk_def blk_def)
  have "get_copy_loop S j (out @ blk S i) v (c + 1) = Some ((out @ blk S i) @ concat (map (blk S) xs))"
    using chain_step.IH [of "c + 1" "out @ blk S i"] chain_step.prems by simp
  then show ?case
    using chain_step.prems(3) chain_step.hyps(2) c sz
    by (subst get_copy_loop.simps) (auto simp: Let_def b)
qed

lemma get_data_chain:
  assumes "shape (slots t)" and "used (slots t) i"
  shows "get_data mem t i = (if mem (length (value_of (slots t) i)) then Inr (value_of (slots t) i) else Inl ENOMEM)"
proof -
  let ?S = "slots t"
  obtain xs where xs: "chain ?S i xs"
    using chain_exists [OF assms] by blast
  have len: "0 + length xs \<le> length ?S + 1"
    using chain_length [OF xs assms] by simp
  have ok: "slot_ok (?S ! x)" if "x \<in> set xs" for x
    using chain_used [OF xs assms that] shape_slot_ok [OF assms(1)] by (simp add: used_def)
  have v: "value_of ?S i = concat (map (blk ?S) xs)"
    by (simp add: value_of_def chain_of_eq [OF xs])
  have "(\<Sum>x\<leftarrow>xs. s_size (?S ! x)) = length (value_of ?S i)"
    unfolding v using ok by (induction xs) (auto simp: length_blk)
  then have size: "get_size_loop ?S i 0 0 = Some (length (value_of ?S i))"
    using get_size_chain [OF xs len, of 0] by simp
  have "get_copy_loop ?S i [] (length (value_of ?S i)) 0 = Some (value_of ?S i)"
    using get_copy_chain [OF xs len ok, of "length (value_of ?S i)" "[]"] v by simp
  then show ?thesis
    by (simp add: get_data_def size)
qed

section \<open>Finding a key\<close>

lemma key_match_kid:
  assumes "slot_ok s"
  shows "key_match k s \<longleftrightarrow> slot_kid s = kid k"
  using assms by (auto simp: key_match_def slot_kid_def kid_def pair_key_def slot_ok_def take_chunk)

lemma same_bucket_head: "i < length S \<Longrightarrow> same_bucket S h i \<longleftrightarrow> head S i \<and> s_hash (S ! i) = h"
  by (auto simp: same_bucket_def head_def)

lemma scan_bucket_find:
  assumes "int (length (filter (same_bucket S h) is)) + c = s_count (S ! h)"
  shows "scan_bucket S k h c is = find (\<lambda>i. same_bucket S h i \<and> key_match k (S ! i)) is"
  using assms
proof (induction "is" arbitrary: c)
  case (Cons i "is")
  show ?case
  proof (cases "same_bucket S h i")
    case True
    then show ?thesis using Cons by simp
  next
    case False
    show ?thesis
    proof (cases "c < s_count (S ! h)")
      case True
      then show ?thesis using Cons \<open>\<not> same_bucket S h i\<close> by simp
    next
      case out: False
      then have "filter (same_bucket S h) (i # is) = []"
        using Cons.prems by (metis add_le_same_cancel2 length_0_conv linorder_not_less of_nat_le_0_iff)
      then have "\<forall>x\<in>set (i # is). \<not> same_bucket S h x"
        by (simp only: filter_empty_conv)
      then have "find (\<lambda>i. same_bucket S h i \<and> key_match k (S ! i)) (i # is) = None"
        unfolding find_None_iff by blast
      then show ?thesis using out by simp
    qed
  qed
qed simp

lemma bucket_members:
  assumes "buckets S" and "h < length S" and "s_count (S ! h) > 0"
  shows "int (card {i. i < length S \<and> same_bucket S h i}) = s_count (S ! h)"
proof -
  have "{i. i < length S \<and> same_bucket S h i} = insert h (collisions S h)"
  proof (intro set_eqI iffI)
    fix i assume "i \<in> {i. i < length S \<and> same_bucket S h i}"
    then have i: "i < length S" "s_hash (S ! i) = h" "s_count (S ! i) > 0 \<or> s_count (S ! i) = -1"
      by (auto simp: same_bucket_def)
    then have "s_count (S ! i) > 0 \<Longrightarrow> i = h"
      using assms(1) by (auto simp: buckets_def)
    then show "i \<in> insert h (collisions S h)"
      using i by (auto simp: collisions_def)
  next
    fix i assume "i \<in> insert h (collisions S h)"
    then show "i \<in> {i. i < length S \<and> same_bucket S h i}"
      using assms by (auto simp: collisions_def same_bucket_def buckets_def)
  qed
  moreover have "h \<notin> collisions S h" "finite (collisions S h)"
    using assms by (auto simp: collisions_def)
  ultimately show ?thesis
    using assms by (auto simp: buckets_def)
qed

lemma get_idx_find:
  assumes "buckets (slots t)" and "h < maxslots t" and "s_count (slots t ! h) > 0"
  shows "get_idx t k h =
    find (\<lambda>i. same_bucket (slots t) h i \<and> key_match k (slots t ! i)) (ring_from (maxslots t) h h)"
proof -
  let ?S = "slots t" and ?r = "ring_from (maxslots t) h h"
  have h: "h < length ?S" using assms(2) by (simp add: maxslots_def)
  have "length (filter (same_bucket ?S h) ?r) = card (set (filter (same_bucket ?S h) ?r))"
    by (rule distinct_card [symmetric]) (simp add: distinct_ring_from)
  also have "set (filter (same_bucket ?S h) ?r) = {i. i < length ?S \<and> same_bucket ?S h i}"
    using set_ring_from [OF assms(2)] by (auto simp: maxslots_def)
  finally have "int (length (filter (same_bucket ?S h) ?r)) + 0 = s_count (?S ! h)"
    using bucket_members [OF assms(1) h assms(3)] by simp
  from scan_bucket_find [OF this] show ?thesis
    using assms(3) get_idx_loop_eq [OF h h] by (simp add: get_idx_def maxslots_def)
qed

lemma get_idx_entry:
  assumes "tbl_inv t" and "h < maxslots t"
  shows "get_idx t k h = Some i \<longleftrightarrow> entry (slots t) h (kid k) i"
proof
  assume "get_idx t k h = Some i"
  then show "entry (slots t) h (kid k) i"
    using get_idx_less [of t k h i] assms(1) key_match_kid shape_slot_ok [of "slots t" i]
    by (auto simp: entry_def same_bucket_head tbl_inv_def maxslots_def)
next
  assume e: "entry (slots t) h (kid k) i"
  have sh: "shape (slots t)" and bk: "buckets (slots t)" and ko: "keys_ok (slots t)"
    using assms(1) by (auto simp: tbl_inv_def)
  have i: "i < length (slots t)" "head (slots t) i" "s_hash (slots t ! i) = h"
    using e by (auto simp: entry_def head_def)
  have pos: "s_count (slots t ! h) > 0"
    using bk i by (auto simp: buckets_def head_def)
  let ?P = "\<lambda>i. same_bucket (slots t) h i \<and> key_match k (slots t ! i)"
  have "?P i"
    using e i key_match_kid [OF shape_slot_ok [OF sh i(1)]] by (auto simp: entry_def same_bucket_head)
  moreover have "i \<in> set (ring_from (maxslots t) h h)"
    using set_ring_from [OF assms(2)] i(1) by (simp add: maxslots_def)
  ultimately obtain j where j: "find ?P (ring_from (maxslots t) h h) = Some j"
    by (cases "find ?P (ring_from (maxslots t) h h)") (auto simp: find_None_iff)
  then have g: "get_idx t k h = Some j"
    using get_idx_find [OF bk assms(2) pos] by simp
  from get_idx_less [OF g] have "entry (slots t) h (kid k) j"
    using key_match_kid [OF shape_slot_ok [OF sh]] by (auto simp: entry_def same_bucket_head maxslots_def)
  then have "j = i" using keys_okD [OF ko _ e] by blast
  with g show "get_idx t k h = Some i" by simp
qed

section \<open>Abstraction\<close>

text \<open>The table as a map from bucket and key identity to values.\<close>

definition tbl_map :: "qhasharr_slot_s list \<Rightarrow> nat \<times> key_id \<Rightarrow> string option" where
  "tbl_map S = (\<lambda>(b, q). if \<exists>i. entry S b q i then Some (value_of S (THE i. entry S b q i)) else None)"

lemma tbl_map_entry: "keys_ok S \<Longrightarrow> entry S b q i \<Longrightarrow> tbl_map S (b, q) = Some (value_of S i)"
proof -
  assume ko: "keys_ok S" and e: "entry S b q i"
  have "(THE i. entry S b q i) = i"
    using e by (rule the_equality) (rule keys_okD [OF ko _ e])
  then show ?thesis using e by (auto simp: tbl_map_def)
qed

lemma tbl_map_Some:
  "keys_ok S \<Longrightarrow> tbl_map S (b, q) = Some v \<longleftrightarrow> (\<exists>i. entry S b q i \<and> value_of S i = v)"
proof (cases "\<exists>i. entry S b q i")
  case True
  then obtain i where i: "entry S b q i" by blast
  assume ko: "keys_ok S"
  have "(\<exists>j. entry S b q j \<and> value_of S j = v) \<longleftrightarrow> value_of S i = v"
    using keys_okD [OF ko i] i by metis
  then show ?thesis
    using tbl_map_entry [OF ko i] by simp
next
  case False
  then show ?thesis by (auto simp: tbl_map_def)
qed

lemma tbl_map_None: "tbl_map S (b, q) = None \<longleftrightarrow> (\<nexists>i. entry S b q i)"
  by (auto simp: tbl_map_def)

definition key_of :: "qhasharr_s \<Rightarrow> string \<Rightarrow> nat \<times> key_id" where
  "key_of t k = (bucket t k, kid k)"

lemma bucket_less: "0 < maxslots t \<Longrightarrow> bucket t k < maxslots t"
  by (simp add: bucket_def)

lemma qhasharr_get_map:
  assumes "tbl_inv t"
  shows "qhasharr_get mem t k =
    (case tbl_map (slots t) (key_of t k) of
       None \<Rightarrow> Inl ENOENT
     | Some v \<Rightarrow> if mem (length v) then Inr v else Inl ENOMEM)"
proof -
  have m: "0 < maxslots t" and sh: "shape (slots t)" and ko: "keys_ok (slots t)"
    using assms by (auto simp: tbl_inv_def)
  note b = bucket_less [OF m, of k]
  show ?thesis
  proof (cases "get_idx t k (bucket t k)")
    case None
    then have "\<nexists>i. entry (slots t) (bucket t k) (kid k) i"
      using get_idx_entry [OF assms b, of k] by auto
    then show ?thesis
      using m None by (simp add: qhasharr_get_def key_of_def tbl_map_None [THEN iffD2])
  next
    case (Some i)
    then have e: "entry (slots t) (bucket t k) (kid k) i"
      using get_idx_entry [OF assms b, of k] by simp
    then have "used (slots t) i"
      by (auto simp: entry_def intro: head_used)
    then show ?thesis
      using m Some get_data_chain [OF sh] tbl_map_entry [OF ko e]
      by (simp add: qhasharr_get_def key_of_def)
  qed
qed

lemma qhasharr_exist_map:
  assumes "tbl_inv t"
  shows "qhasharr_exist t k \<longleftrightarrow> tbl_map (slots t) (key_of t k) \<noteq> None"
proof -
  have m: "0 < maxslots t" using assms by (simp add: tbl_inv_def)
  have "get_idx t k (bucket t k) \<noteq> None \<longleftrightarrow> (\<exists>i. entry (slots t) (bucket t k) (kid k) i)"
    using get_idx_entry [OF assms bucket_less [OF m], of k k] by auto
  then show ?thesis
    using m by (auto simp: qhasharr_exist_def key_of_def tbl_map_None)
qed

end
