(* ===== verification/QHasharrOps.thy ===== *)
theory QHasharrOps
  imports QHasharrInv
begin

text \<open>
  The writing operations of the table keep the invariant and act on the abstract map:
  \<open>qhasharr_remove\<close> deletes a key, \<open>qhasharr_put\<close> stores a value or reports a full table.
\<close>

section \<open>States that agree on used slots\<close>

text \<open>The invariant and the abstraction depend on used slots only.\<close>

lemma used_set_used: "used_set t = {i. used (slots t) i}"
  by (simp add: used_set_def used_def maxslots_def)

lemma length_slots: "length (slots t) = maxslots t"
  by (simp add: maxslots_def)

section \<open>Removing a chain\<close>

definition cleared :: "qhasharr_slot_s list \<Rightarrow> nat set \<Rightarrow> qhasharr_slot_s list" where
  "cleared S X = map (\<lambda>i. if i \<in> X then (S ! i)\<lparr>s_count := 0\<rparr> else S ! i) [0..<length S]"

lemma length_cleared [simp]: "length (cleared S X) = length S"
  by (simp add: cleared_def)

lemma nth_cleared [simp]:
  "i < length S \<Longrightarrow> cleared S X ! i = (if i \<in> X then (S ! i)\<lparr>s_count := 0\<rparr> else S ! i)"
  by (simp add: cleared_def)

lemma cleared_insert: "i < length S \<Longrightarrow> cleared (S[i := (S ! i)\<lparr>s_count := 0\<rparr>]) X = cleared S (insert i X)"
  by (rule nth_equalityI) (auto simp: nth_list_update)

lemma cleared_empty [simp]: "cleared S {} = S"
  by (rule nth_equalityI) auto

lemma remove_data_loop_chain:
  assumes "chain (slots t) i xs" and "distinct xs" and "\<forall>x\<in>set xs. used (slots t) x"
    and "c + length xs \<le> maxslots t + 1"
  shows "remove_data_loop t i c =
    t\<lparr>slots := cleared (slots t) (set xs), usedslots := usedslots t - int (length xs)\<rparr>"
  using assms
proof (induction xs arbitrary: t i c rule: list.induct)
  case Nil
  then show ?case by (auto elim: chain_Nil)
next
  case (Cons x xs)
  let ?S = "slots t"
  have x: "x = i" using chain_hd [OF Cons.prems(1)] by simp
  have i: "i < length ?S" "s_count (?S ! i) \<noteq> 0"
    using Cons.prems(3) x by (auto simp: used_def)
  let ?t' = "snd (remove_slot t i)"
  have t': "?t' = t\<lparr>slots := ?S[i := (?S ! i)\<lparr>s_count := 0\<rparr>], usedslots := usedslots t - 1\<rparr>"
    using i by (simp add: remove_slot_def upd_slot_def)
  from Cons.prems(1) show ?case
  proof (cases rule: chain.cases)
    case chain_end
    then show ?thesis
      using t' x cleared_insert [OF i(1), of "{}"] by (subst remove_data_loop.simps) (simp add: Let_def)
  next
    case (chain_step j)
    have ne: "xs \<noteq> []" using chain_not_Nil [OF chain_step(4)] by simp
    have ch: "chain (slots ?t') j xs"
      using chain_step(4) by (rule chain_cong) (use t' i in \<open>auto simp: nth_list_update\<close>)
    have "\<forall>y\<in>set xs. used (slots ?t') y"
      using Cons.prems(2,3) x t' i by (auto simp: used_def nth_list_update)
    from Cons.IH [OF ch _ this, of "c + 1"] have
      "remove_data_loop ?t' j (c + 1) = ?t'\<lparr>slots := cleared (slots ?t') (set xs),
         usedslots := usedslots ?t' - int (length xs)\<rparr>"
      using Cons.prems by simp
    moreover have "\<not> c + 1 > maxslots ?t'"
      using Cons.prems(4) ne by (cases xs) auto
    ultimately show ?thesis
      using chain_step(3) x cleared_insert [OF i(1), of "set xs"]
      by (subst remove_data_loop.simps) (simp add: Let_def, simp add: t')
  qed
qed

lemma remove_data_chain:
  assumes "shape (slots t)" and "used (slots t) i" and "chain (slots t) i xs"
  shows "remove_data t i = (Inr (), t\<lparr>slots := cleared (slots t) (set xs),
    usedslots := usedslots t - int (length xs), num := num t - 1\<rparr>)"
proof -
  have "remove_data_loop t i 0 = t\<lparr>slots := cleared (slots t) (set xs), usedslots := usedslots t - int (length xs)\<rparr>"
    using remove_data_loop_chain [OF assms(3) chain_distinct [OF assms(3,1,2)], of 0]
      chain_used [OF assms(3,1,2)] chain_length [OF assms(3,1,2)]
    by (simp add: length_slots)
  then show ?thesis
    using assms(2) by (simp add: remove_data_def used_def Let_def)
qed

text \<open>A set of slots that contains whole chains.\<close>

definition closed :: "qhasharr_slot_s list \<Rightarrow> nat set \<Rightarrow> bool" where
  "closed S X \<longleftrightarrow> (\<forall>i j. used S i \<and> s_link (S ! i) = int j \<longrightarrow> (i \<in> X \<longleftrightarrow> j \<in> X))"

lemma chain_closed:
  assumes "shape S" and "head S i" and "chain S i xs"
  shows "closed S (set xs)"
  unfolding closed_def
proof (intro allI impI iffI; elim conjE)
  fix p q assume p: "used S p" "s_link (S ! p) = int q"
  show "q \<in> set xs" if "p \<in> set xs"
    using chain_link_closed [OF assms(3) that p(2)] .
  have "ext S q" "s_hash (S ! q) = p"
    using shape_next [OF assms(1) p] by simp_all
  then show "p \<in> set xs" if "q \<in> set xs"
    using chain_back_closed [OF assms(3,1) head_used [OF assms(2)] that] head_not_ext [OF assms(2)] by auto
qed

lemma used_cleared: "used (cleared S X) p \<longleftrightarrow> used S p \<and> p \<notin> X"
  by (auto simp: used_def split: if_splits)

lemma ext_cleared: "ext (cleared S X) p \<longleftrightarrow> ext S p \<and> p \<notin> X"
  by (auto simp: ext_def split: if_splits)

lemma head_cleared: "head (cleared S X) p \<longleftrightarrow> head S p \<and> p \<notin> X"
  by (auto simp: head_def split: if_splits)

lemma link_cleared: "p < length S \<Longrightarrow> s_link (cleared S X ! p) = s_link (S ! p)"
  by simp

lemma shape_cleared:
  assumes "shape S" and "closed S X"
  shows "shape (cleared S X)"
proof -
  obtain rank where r: "ranked S rank" using assms(1) by (auto simp: shape_def)
  have "\<forall>s\<in>set (cleared S X). slot_ok s"
    using shape_slot_ok [OF assms(1)] by (auto simp: cleared_def slot_ok_def)
  moreover have "linked (cleared S X)"
    unfolding linked_def
  proof (intro conjI allI impI; (elim conjE)?)
    fix i assume i: "used (cleared S X) i" "s_link (cleared S X ! i) \<noteq> -1"
    then have u: "used S i" "i \<notin> X" "s_link (S ! i) \<noteq> -1"
      by (auto simp: used_cleared used_def split: if_splits)
    obtain j where j: "s_link (S ! i) = int j" "ext S j" "s_hash (S ! j) = i"
      using shape_link [OF assms(1) u(1,3)] by blast
    moreover have "j \<notin> X"
      using assms(2) u j(1) by (auto simp: closed_def)
    ultimately show "\<exists>j. s_link (cleared S X ! i) = int j \<and> ext (cleared S X) j \<and> s_hash (cleared S X ! j) = i"
      using u by (auto simp: ext_cleared used_def ext_def)
  next
    fix j assume "ext (cleared S X) j"
    then have j: "ext S j" "j \<notin> X" by (auto simp: ext_cleared)
    note b = shape_back [OF assms(1) j(1)]
    then have "s_hash (S ! j) \<notin> X"
      using assms(2) j(2) by (auto simp: closed_def)
    then show "used (cleared S X) (s_hash (cleared S X ! j))"
      and "s_link (cleared S X ! s_hash (cleared S X ! j)) = int j"
      using b j by (auto simp: used_cleared ext_def used_def)
  qed
  moreover have "ranked (cleared S X) rank"
    using r by (auto simp: ranked_def ext_cleared) (auto simp: ext_def)
  ultimately show ?thesis by (auto simp: shape_def)
qed

lemma chain_cleared: "chain S i xs \<Longrightarrow> set xs \<subseteq> {..<length S} \<Longrightarrow> chain (cleared S X) i xs"
  by (erule chain_cong) auto

lemma value_cleared:
  assumes "shape S" and "used S i"
  shows "value_of (cleared S X) i = value_of S i" "chain_of (cleared S X) i = chain_of S i"
proof -
  obtain xs where xs: "chain S i xs" using chain_exists [OF assms] by blast
  have sub: "set xs \<subseteq> {..<length S}"
    using chain_used [OF xs assms] by (auto simp: used_def)
  have "map (blk (cleared S X)) xs = map (blk S) xs"
    using sub by (auto simp: blk_def)
  then show "value_of (cleared S X) i = value_of S i"
    by (simp only: value_of_def chain_of_eq [OF xs] chain_of_eq [OF chain_cleared [OF xs sub]])
  show "chain_of (cleared S X) i = chain_of S i"
    by (simp only: chain_of_eq [OF xs] chain_of_eq [OF chain_cleared [OF xs sub]])
qed

section \<open>Recounting a head\<close>

definition recount :: "qhasharr_slot_s list \<Rightarrow> nat \<Rightarrow> int \<Rightarrow> qhasharr_slot_s list" where
  "recount S l c = S[l := (S ! l)\<lparr>s_count := c\<rparr>]"

lemma length_recount [simp]: "length (recount S l c) = length S"
  by (simp add: recount_def)

lemma nth_recount:
  "p < length S \<Longrightarrow> recount S l c ! p = (if p = l then (S ! l)\<lparr>s_count := c\<rparr> else S ! p)"
  by (auto simp: recount_def nth_list_update)

lemma nth_recount_any:
  "recount S l c ! p = (if p = l \<and> l < length S then (S ! l)\<lparr>s_count := c\<rparr> else S ! p)"
  by (cases "p = l"; cases "l < length S") (simp_all add: recount_def not_less list_update_beyond)

lemma recount_fields [simp]:
  "s_link (recount S l c ! p) = s_link (S ! p)" "s_hash (recount S l c ! p) = s_hash (S ! p)"
  "s_size (recount S l c ! p) = s_size (S ! p)" "s_data (recount S l c ! p) = s_data (S ! p)"
  by (simp_all add: nth_recount_any)

lemma used_recount: "head S l \<Longrightarrow> c > 0 \<or> c = -1 \<Longrightarrow> used (recount S l c) p \<longleftrightarrow> used S p"
  by (cases "p = l") (auto simp: used_def head_def nth_recount)

lemma ext_recount: "head S l \<Longrightarrow> c > 0 \<or> c = -1 \<Longrightarrow> ext (recount S l c) p \<longleftrightarrow> ext S p"
  by (cases "p = l") (auto simp: ext_def head_def nth_recount)

lemma head_recount: "head S l \<Longrightarrow> c > 0 \<or> c = -1 \<Longrightarrow> head (recount S l c) p \<longleftrightarrow> head S p"
  by (cases "p = l") (auto simp: head_def nth_recount)

lemma shape_recount:
  assumes "shape S" and l: "head S l" and c: "c > 0 \<or> c = -1"
  shows "shape (recount S l c)"
proof -
  have "\<forall>s\<in>set (recount S l c). slot_ok s"
    using shape_slot_ok [OF assms(1)] l c
    by (auto simp: in_set_conv_nth nth_recount slot_ok_def head_def)
  moreover have "linked (recount S l c)"
    using assms(1) used_recount [OF l c] ext_recount [OF l c] by (simp add: shape_def linked_def)
  moreover have "\<exists>rank. ranked (recount S l c) rank"
    using assms(1) ext_recount [OF l c] by (simp add: shape_def ranked_def)
  ultimately show ?thesis by (simp add: shape_def)
qed

lemma chain_recount: "chain (recount S l c) i xs \<longleftrightarrow> chain S i xs"
  by (rule iffI; erule chain_cong) simp_all

lemma value_recount: "value_of (recount S l c) i = value_of S i"
  by (simp add: value_of_def chain_of_def chain_recount blk_def [abs_def])

lemma chain_of_recount: "chain_of (recount S l c) i = chain_of S i"
  by (simp add: chain_of_def chain_recount)

lemma slot_kid_data: "s_data s = s_data s' \<Longrightarrow> slot_kid s = slot_kid s'"
  by (simp add: slot_kid_def pair_keylen_def pair_key_def pair_keymd5_def)

section \<open>Correspondence of heads\<close>

text \<open>\<open>same_heads \<phi> H S S'\<close>: the heads of \<open>S'\<close> are the images of the heads in \<open>H\<close>, with the
  same bucket, key and value and as many blocks.\<close>

definition same_heads ::
  "(nat \<Rightarrow> nat) \<Rightarrow> nat set \<Rightarrow> qhasharr_slot_s list \<Rightarrow> qhasharr_slot_s list \<Rightarrow> bool" where
  "same_heads \<phi> H S S' \<longleftrightarrow> H \<subseteq> heads S \<and> bij_betw \<phi> H (heads S') \<and>
     (\<forall>p\<in>H. s_hash (S' ! \<phi> p) = s_hash (S ! p) \<and> slot_kid (S' ! \<phi> p) = slot_kid (S ! p)
           \<and> value_of S' (\<phi> p) = value_of S p \<and> length (chain_of S' (\<phi> p)) = length (chain_of S p))"

lemma same_heads_entry:
  assumes "same_heads \<phi> H S S'"
  shows "entry S' b q j \<longleftrightarrow> (\<exists>p\<in>H. j = \<phi> p \<and> entry S b q p)"
proof -
  have h: "heads S' = \<phi> ` H" "H \<subseteq> heads S"
    using assms by (auto simp: same_heads_def bij_betw_def)
  have "head S' j \<longleftrightarrow> j \<in> \<phi> ` H"
    unfolding h(1) [symmetric] by (simp add: heads_def)
  moreover have "head S p" if "p \<in> H" for p
    using h(2) that by (auto simp: heads_def)
  ultimately show ?thesis
    using assms by (auto simp: same_heads_def entry_def)
qed

lemma same_heads_keys_ok: "same_heads \<phi> H S S' \<Longrightarrow> keys_ok S \<Longrightarrow> keys_ok S'"
  unfolding keys_ok_def by (simp only: same_heads_entry) blast

lemma same_heads_packed:
  assumes "same_heads \<phi> H S S'" and "packed S"
  shows "packed S'"
  unfolding packed_def
proof (intro allI impI)
  fix i assume "head S' i"
  then have "i \<in> \<phi> ` H" using assms(1) by (auto simp: same_heads_def bij_betw_def heads_def)
  then obtain p where "i = \<phi> p" "p \<in> H" "head S p" using assms(1) by (auto simp: same_heads_def heads_def)
  then show "length (chain_of S' i) = nblocks (value_of S' i)"
    using assms by (simp add: same_heads_def packed_def)
qed

lemma same_heads_map:
  assumes "same_heads \<phi> H S S'" and "keys_ok S"
  shows "tbl_map S' (b, q) = Some v \<longleftrightarrow> (\<exists>p\<in>H. entry S b q p \<and> value_of S p = v)"
  using assms same_heads_keys_ok [OF assms]
  by (auto simp: tbl_map_Some same_heads_entry same_heads_def)

lemma map_graph_ext: "(\<And>x v. f x = Some v \<longleftrightarrow> g x = Some v) \<Longrightarrow> f = g"
  by (rule ext) (metis not_None_eq)

lemma same_heads_all:
  assumes "same_heads \<phi> (heads S) S S'" and "keys_ok S"
  shows "tbl_map S' = tbl_map S"
  by (rule map_graph_ext)
    (auto simp: split_paired_all same_heads_map [OF assms] tbl_map_Some [OF assms(2)] entry_def heads_def)

lemma same_heads_delete:
  assumes "same_heads \<phi> (heads S - {i}) S S'" and "keys_ok S" and "entry S b q i"
  shows "tbl_map S' = (tbl_map S)((b, q) := None)"
proof (rule map_graph_ext)
  fix x :: "nat \<times> key_id" and v
  obtain b' q' where x: "x = (b', q')" by (cases x)
  have "(\<exists>p\<in>heads S - {i}. entry S b' q' p \<and> value_of S p = v) \<longleftrightarrow>
      (b', q') \<noteq> (b, q) \<and> (\<exists>p. entry S b' q' p \<and> value_of S p = v)"
  proof -
    have "p \<in> heads S" if "entry S b' q' p" for p
      using that by (simp add: entry_def heads_def)
    moreover have "b' = b \<and> q' = q" if "entry S b' q' i"
      using that assms(3) by (auto simp: entry_def)
    moreover have "p = i" if "entry S b q p" for p
      by (rule keys_okD [OF assms(2) that assms(3)])
    ultimately show ?thesis by blast
  qed
  then show "tbl_map S' x = Some v \<longleftrightarrow> ((tbl_map S)((b, q) := None)) x = Some v"
    using same_heads_map [OF assms(1,2)] tbl_map_Some [OF assms(2)] by (auto simp: x)
qed

lemma same_heads_card: "same_heads \<phi> H S S' \<Longrightarrow> card (heads S') = card H"
  by (auto simp: same_heads_def dest: bij_betw_same_card)

lemma finite_heads [simp]: "finite (heads S)"
  by (rule finite_subset [of _ "{..<length S}"]) (auto simp: heads_def head_def)

lemma same_heads_cleared:
  assumes "shape S" and "head S i" and "chain S i xs"
  shows "same_heads id (heads S - {i}) S (cleared S (set xs))"
proof -
  have "heads (cleared S (set xs)) = heads S - {i}"
    using chain_ext [OF assms(3,1) head_used [OF assms(2)]] chain_hd [OF assms(3)] head_not_ext
    by (cases xs) (auto simp: heads_def head_cleared)
  moreover have "p \<notin> set xs" if "p \<in> heads S - {i}" for p
    using calculation that by (auto simp: heads_def head_cleared)
  ultimately show ?thesis
    using value_cleared [OF assms(1)] head_used
    by (auto simp: same_heads_def heads_def head_def)
qed

end
