(* ===== verification/QHasharrMove.thy ===== *)
theory QHasharrMove
  imports QHasharrOps
begin

text \<open>
  Moving a head slot to another place (the collision handling of \<open>qhasharr_put\<close> and the promotion
  in \<open>qhasharr_remove\<close>): relocation keeps chains, entries and the abstract map.
\<close>

section \<open>Moving a slot\<close>

definition reidx :: "nat \<Rightarrow> nat \<Rightarrow> nat \<Rightarrow> nat" where
  "reidx h e p = (if p = h then e else p)"

text \<open>\<open>moved S S' h e\<close>: the contents of slot \<open>h\<close> are now in slot \<open>e\<close>, which was free, and its
  neighbours in the chain point there.\<close>

definition moved :: "qhasharr_slot_s list \<Rightarrow> qhasharr_slot_s list \<Rightarrow> nat \<Rightarrow> nat \<Rightarrow> bool" where
  "moved S S' h e \<longleftrightarrow>
     length S' = length S \<and> e < length S \<and> e \<noteq> h \<and> used S h \<and> \<not> used S e \<and> (\<forall>s\<in>set S'. slot_ok s)
   \<and> (\<forall>p. used S' p \<longrightarrow> (\<exists>q. used S q \<and> p = reidx h e q))
   \<and> (\<forall>p. used S p \<longrightarrow>
        s_count (S' ! reidx h e p) = s_count (S ! p)
      \<and> s_size (S' ! reidx h e p) = s_size (S ! p) \<and> s_data (S' ! reidx h e p) = s_data (S ! p)
      \<and> s_link (S' ! reidx h e p) = (if s_link (S ! p) = int h then int e else s_link (S ! p))
      \<and> s_hash (S' ! reidx h e p) = (if ext S p \<and> s_hash (S ! p) = h then e else s_hash (S ! p)))"

lemma movedI:
  assumes "shape S" and "length S' = length S" and "e < length S" and "e \<noteq> h" and "used S h" and "\<not> used S e"
    and "\<forall>s\<in>set S'. slot_ok s"
    and e: "S' ! e = S ! h" and h: "s_count (S' ! h) = 0"
    and p: "\<And>p. p < length S \<Longrightarrow> p \<noteq> e \<Longrightarrow> p \<noteq> h \<Longrightarrow> S' ! p =
      (if s_link (S ! h) = int p then (S ! p)\<lparr>s_hash := e\<rparr>
       else if ext S h \<and> s_hash (S ! h) = p then (S ! p)\<lparr>s_link := int e\<rparr> else S ! p)"
  shows "moved S S' h e"
proof -
  obtain rank where r: "ranked S rank" using assms(1) by (auto simp: shape_def)
  have hl: "h < length S" using assms(5) by (simp add: used_def)
  have nxt: "ext S p \<and> s_hash (S ! p) = h" if "s_link (S ! h) = int p" for p
    using shape_next [OF assms(1,5) that] by simp
  have prv: "s_link (S ! p) = int h \<longleftrightarrow> ext S h \<and> s_hash (S ! h) = p" if "used S p" for p
    using shape_next [OF assms(1) that] shape_back [OF assms(1), of h] by auto
  have bck: "s_link (S ! h) = int p" if "ext S p" "s_hash (S ! p) = h" for p
    using shape_back [OF assms(1) that(1)] that(2) by simp
  have noself: "s_link (S ! h) \<noteq> int h"
  proof
    assume "s_link (S ! h) = int h"
    with nxt have "ext S h" "s_hash (S ! h) = h" by auto
    with r show False by (auto simp: ranked_def)
  qed
  have noself2: "\<not> (ext S h \<and> s_hash (S ! h) = h)"
    using r by (auto simp: ranked_def)
  have both: "\<not> (ext S h \<and> s_hash (S ! h) = p)" if "s_link (S ! h) = int p" for p
    using nxt [OF that] r by (auto simp: ranked_def) (metis not_less_iff_gr_or_eq)
  show ?thesis
    unfolding moved_def
  proof (intro conjI allI impI)
    fix p assume "used S' p"
    show "\<exists>q. used S q \<and> p = reidx h e q"
    proof (cases "p = e")
      case True
      then show ?thesis using assms(5) by (auto simp: reidx_def)
    next
      case False
      then have ph: "p \<noteq> h" "p < length S"
        using \<open>used S' p\<close> h assms(2) by (auto simp: used_def)
      have "s_count (S' ! p) = s_count (S ! p)"
        using p [OF ph(2) False ph(1)] by (simp split: if_splits)
      then have "used S p"
        using \<open>used S' p\<close> ph by (simp add: used_def)
      then show ?thesis using ph by (auto simp: reidx_def)
    qed
  next
    fix p assume u: "used S p"
    then have pe: "p \<noteq> e" "p < length S" using assms(6) by (auto simp: used_def)
    show "s_count (S' ! reidx h e p) = s_count (S ! p)"
      "s_size (S' ! reidx h e p) = s_size (S ! p)" "s_data (S' ! reidx h e p) = s_data (S ! p)"
      using e p [OF pe(2,1)] by (auto simp: reidx_def)
    show "s_link (S' ! reidx h e p) = (if s_link (S ! p) = int h then int e else s_link (S ! p))"
      using e p [OF pe(2,1)] prv [OF u] both [of p] noself by (auto simp: reidx_def)
    show "s_hash (S' ! reidx h e p) = (if ext S p \<and> s_hash (S ! p) = h then e else s_hash (S ! p))"
      using e p [OF pe(2,1)] nxt [of p] bck [of p] noself2 by (auto simp: reidx_def)
  qed (use assms in auto)
qed

lemma moved_used:
  assumes "moved S S' h e" "used S p"
  shows "used S' (reidx h e p)" "ext S' (reidx h e p) \<longleftrightarrow> ext S p" "head S' (reidx h e p) \<longleftrightarrow> head S p"
    "reidx h e p < length S"
  using assms by (auto simp: moved_def used_def ext_def head_def reidx_def)

lemma moved_shape:
  assumes m: "moved S S' h e" and sh: "shape S"
  shows "shape S'"
proof -
  obtain rank where r: "ranked S rank" using sh by (auto simp: shape_def)
  have pre: "\<exists>q. used S q \<and> p = reidx h e q" if "used S' p" for p
    using m that by (simp add: moved_def)
  have lnk: "s_link (S' ! reidx h e p) = (if s_link (S ! p) = int h then int e else s_link (S ! p))"
    and hsh: "s_hash (S' ! reidx h e p) = (if ext S p \<and> s_hash (S ! p) = h then e else s_hash (S ! p))"
    if "used S p" for p
    using m that by (simp_all add: moved_def)
  have "linked S'"
    unfolding linked_def
  proof (intro conjI allI impI; (elim conjE)?)
    fix p' assume p': "used S' p'" "s_link (S' ! p') \<noteq> -1"
    obtain p where p: "used S p" "p' = reidx h e p" using pre [OF p'(1)] by blast
    have "s_link (S ! p) \<noteq> -1" using p' lnk [OF p(1)] p(2) by (auto split: if_splits)
    then obtain j where j: "s_link (S ! p) = int j" "ext S j" "s_hash (S ! j) = p"
      using shape_link [OF sh p(1)] by blast
    have "s_link (S' ! p') = int (reidx h e j)"
      using lnk [OF p(1)] j(1) p(2) by (auto simp: reidx_def)
    moreover have "ext S' (reidx h e j)"
      using moved_used(2) [OF m ext_used [OF j(2)]] j(2) by simp
    moreover have "s_hash (S' ! reidx h e j) = p'"
      using hsh [OF ext_used [OF j(2)]] j p(2) by (auto simp: reidx_def)
    ultimately show "\<exists>j. s_link (S' ! p') = int j \<and> ext S' j \<and> s_hash (S' ! j) = p'" by blast
  next
    fix j' assume "ext S' j'"
    then obtain j where j: "used S j" "j' = reidx h e j" "ext S j"
      using pre [OF ext_used] moved_used(2) [OF m] by blast
    note b = shape_back [OF sh j(3)]
    have hj: "s_hash (S' ! j') = reidx h e (s_hash (S ! j))"
      using hsh [OF j(1)] j(2,3) by (auto simp: reidx_def)
    show "used S' (s_hash (S' ! j'))"
      unfolding hj using moved_used(1) [OF m] b by blast
    show "s_link (S' ! s_hash (S' ! j')) = int j'"
      unfolding hj using lnk b j(2) by (auto simp: reidx_def)
  qed
  moreover have "ranked S' (\<lambda>x. if x = e then rank h else rank x)"
    unfolding ranked_def
  proof (intro allI impI)
    fix j' assume "ext S' j'"
    then obtain j where j: "used S j" "j' = reidx h e j" "ext S j"
      using pre [OF ext_used] moved_used(2) [OF m] by blast
    have ne: "\<not> used S e" using m by (simp add: moved_def)
    have "s_hash (S ! j) \<noteq> e" "j \<noteq> e" using shape_back [OF sh j(3)] ne j(1) by auto
    moreover have "rank (s_hash (S ! j)) < rank j" using r j(3) by (simp add: ranked_def)
    ultimately show "(if s_hash (S' ! j') = e then rank h else rank (s_hash (S' ! j'))) < (if j' = e then rank h else rank j')"
      using hsh [OF j(1)] j(2,3) by (auto simp: reidx_def)
  qed
  moreover have "\<forall>s\<in>set S'. slot_ok s" using m by (simp add: moved_def)
  ultimately show ?thesis by (auto simp: shape_def)
qed

lemma moved_chain:
  assumes "chain S i xs" "moved S S' h e" "shape S" "used S i"
  shows "chain S' (reidx h e i) (map (reidx h e) xs)"
  using assms
proof (induction rule: chain.induct)
  case (chain_end i)
  have "s_link (S' ! reidx h e i) = -1" "reidx h e i < length S'"
    using chain_end moved_used(4) [of S S' h e i] by (simp_all add: moved_def)
  then show ?case by (simp add: chain.chain_end)
next
  case (chain_step i j xs)
  have "ext S j" using shape_next [OF chain_step.prems(2,3) chain_step.hyps(2)] by simp
  then have "chain S' (reidx h e j) (map (reidx h e) xs)"
    using chain_step.IH chain_step.prems ext_used by blast
  moreover have "s_link (S' ! reidx h e i) = int (reidx h e j)" "reidx h e i < length S'"
    using chain_step moved_used(4) [of S S' h e i] by (simp_all add: moved_def reidx_def)
  ultimately show ?case by (simp add: chain.chain_step)
qed

lemma moved_value:
  assumes "moved S S' h e" "shape S" "used S i"
  shows "value_of S' (reidx h e i) = value_of S i" "length (chain_of S' (reidx h e i)) = length (chain_of S i)"
proof -
  obtain xs where xs: "chain S i xs" using chain_exists [OF assms(2,3)] by blast
  have "map (blk S') (map (reidx h e) xs) = map (blk S) xs"
    using chain_used [OF xs assms(2,3)] assms(1) by (auto simp: moved_def blk_def)
  then show "value_of S' (reidx h e i) = value_of S i"
    by (simp only: value_of_def chain_of_eq [OF xs] chain_of_eq [OF moved_chain [OF xs assms]])
  show "length (chain_of S' (reidx h e i)) = length (chain_of S i)"
    by (simp add: chain_of_eq [OF xs] chain_of_eq [OF moved_chain [OF xs assms]])
qed

lemma reidx_inj: "moved S S' h e \<Longrightarrow> inj_on (reidx h e) {p. used S p}"
  by (auto simp: inj_on_def reidx_def moved_def split: if_splits)

lemma moved_heads:
  assumes "moved S S' h e" "shape S"
  shows "same_heads (reidx h e) (heads S) S S'"
proof -
  have sub: "heads S \<subseteq> {p. used S p}" by (auto simp: heads_def head_used)
  have "heads S' = reidx h e ` heads S"
  proof (intro set_eqI iffI)
    fix p' assume "p' \<in> heads S'"
    then have "head S' p'" by (simp add: heads_def)
    moreover obtain p where "used S p" "p' = reidx h e p"
      using assms(1) head_used [OF \<open>head S' p'\<close>] unfolding moved_def by blast
    ultimately show "p' \<in> reidx h e ` heads S"
      using moved_used(3) [OF assms(1)] by (auto simp: heads_def)
  next
    fix p' assume "p' \<in> reidx h e ` heads S"
    then show "p' \<in> heads S'"
      using moved_used(3) [OF assms(1) head_used] by (auto simp: heads_def)
  qed
  then have "bij_betw (reidx h e) (heads S) (heads S')"
    using inj_on_subset [OF reidx_inj [OF assms(1)] sub] by (simp add: bij_betw_def)
  moreover have "s_hash (S' ! reidx h e p) = s_hash (S ! p) \<and> slot_kid (S' ! reidx h e p) = slot_kid (S ! p)
      \<and> value_of S' (reidx h e p) = value_of S p
      \<and> length (chain_of S' (reidx h e p)) = length (chain_of S p)" if "p \<in> heads S" for p
  proof -
    have p: "head S p" "used S p" "\<not> ext S p"
      using that head_used head_not_ext by (auto simp: heads_def)
    have "slot_kid (S' ! reidx h e p) = slot_kid (S ! p)"
      by (rule slot_kid_data) (use assms(1) p(2) in \<open>simp add: moved_def\<close>)
    then show ?thesis
      using p moved_value [OF assms p(2)] assms(1) by (simp add: moved_def)
  qed
  ultimately show ?thesis by (simp add: same_heads_def)
qed

lemma moved_card_used:
  assumes "moved S S' h e"
  shows "card {p. used S' p} = card {p. used S p}"
proof -
  have "{p. used S' p} = reidx h e ` {p. used S p}"
    using assms moved_used(1) [OF assms] by (auto simp: moved_def)
  then show ?thesis using card_image [OF reidx_inj [OF assms]] by simp
qed

text \<open>The list of slots after copying \<open>h\<close> to \<open>e\<close>, freeing \<open>h\<close> and fixing the neighbours.\<close>

definition reloc :: "qhasharr_slot_s list \<Rightarrow> nat \<Rightarrow> nat \<Rightarrow> qhasharr_slot_s list" where
  "reloc S h e =
     (let S1 = S[e := S ! h, h := (S ! h)\<lparr>s_count := 0\<rparr>];
          S2 = (if s_count (S ! h) = -2 then S1[s_hash (S ! h) := (S1 ! s_hash (S ! h))\<lparr>s_link := int e\<rparr>] else S1)
      in if s_link (S ! h) \<noteq> -1
         then S2[nat (s_link (S ! h)) := (S2 ! nat (s_link (S ! h)))\<lparr>s_hash := e\<rparr>] else S2)"

lemma length_reloc [simp]: "length (reloc S h e) = length S"
  by (simp add: reloc_def Let_def)

lemma nth_reloc:
  assumes "shape S" "used S h" "\<not> used S e" "e < length S" "p < length S"
  shows "reloc S h e ! p =
    (if p = e then S ! h else if p = h then (S ! h)\<lparr>s_count := 0\<rparr>
     else if s_link (S ! h) = int p then (S ! p)\<lparr>s_hash := e\<rparr>
     else if ext S h \<and> s_hash (S ! h) = p then (S ! p)\<lparr>s_link := int e\<rparr> else S ! p)"
proof -
  obtain rank where r: "ranked S rank" using assms(1) by (auto simp: shape_def)
  have h: "h < length S" using assms(2) by (simp add: used_def)
  have eh: "e \<noteq> h" using assms(2,3) by auto
  let ?m = "s_hash (S ! h)"
  have mom: "?m < length S" "?m \<noteq> h" "?m \<noteq> e" if "s_count (S ! h) = -2"
    using shape_back [OF assms(1), of h] r assms(3) that h by (auto simp: ext_def used_def ranked_def)
  have nx: "\<exists>n. s_link (S ! h) = int n \<and> n < length S \<and> n \<noteq> h \<and> n \<noteq> e \<and> (s_count (S ! h) = -2 \<longrightarrow> n \<noteq> ?m)"
    if lk: "s_link (S ! h) \<noteq> -1"
  proof -
    obtain n where n: "s_link (S ! h) = int n" "ext S n" "s_hash (S ! n) = h"
      using shape_link [OF assms(1,2) lk] by blast
    have "rank h < rank n" using r n by (auto simp: ranked_def)
    moreover have "s_count (S ! h) = -2 \<Longrightarrow> rank ?m < rank h" using r h by (simp add: ranked_def ext_def)
    ultimately show ?thesis using n assms(3) ext_used [OF n(2)] by (auto simp: used_def)
  qed
  show ?thesis
  proof (cases "s_link (S ! h) = -1")
    case True
    then show ?thesis
      using h eh assms(4,5) mom by (auto simp: reloc_def Let_def ext_def nth_list_update)
  next
    case False
    then obtain n where "s_link (S ! h) = int n" "n < length S" "n \<noteq> h" "n \<noteq> e" "s_count (S ! h) = -2 \<longrightarrow> n \<noteq> ?m"
      using nx by blast
    then show ?thesis
      using h eh assms(4,5) mom by (auto simp: reloc_def Let_def ext_def nth_list_update)
  qed
qed

lemma moved_reloc:
  assumes "shape S" "used S h" "\<not> used S e" "e < length S"
  shows "moved S (reloc S h e) h e"
proof (rule movedI)
  have h: "h < length S" using assms(2) by (simp add: used_def)
  note n = nth_reloc [OF assms]
  have ok: "slot_ok (S ! p)" if "p < length S" for p using shape_slot_ok [OF assms(1) that] .
  show "\<forall>s\<in>set (reloc S h e). slot_ok s"
  proof
    fix s assume "s \<in> set (reloc S h e)"
    then obtain p where p: "p < length S" "s = reloc S h e ! p" by (auto simp: in_set_conv_nth)
    show "slot_ok s" using ok [OF p(1)] ok [OF h] unfolding p(2) n [OF p(1)] by (auto simp: slot_ok_def)
  qed
  show "e \<noteq> h" using assms by auto
  show "reloc S h e ! e = S ! h" using n [OF assms(4)] by simp
  show "s_count (reloc S h e ! h) = 0" using n [OF h] \<open>e \<noteq> h\<close> by simp
  show "reloc S h e ! p = (if s_link (S ! h) = int p then (S ! p)\<lparr>s_hash := e\<rparr>
      else if ext S h \<and> s_hash (S ! h) = p then (S ! p)\<lparr>s_link := int e\<rparr> else S ! p)"
    if "p < length S" "p \<noteq> e" "p \<noteq> h" for p
    using n [OF that(1)] that by simp
qed (use assms in auto)

end
