(* ===== verification/QHasharrRemove.thy ===== *)
theory QHasharrRemove
  imports QHasharrMove
begin

text \<open>
  Removing an entry: \<open>_remove_data\<close>, \<open>qhasharr_remove\<close> by index and by key, on the invariant and
  the abstract map.
\<close>

section \<open>Removing an entry\<close>

lemma card_used_cleared:
  assumes "shape S" "used S i" "chain S i xs"
  shows "int (card {p. used (cleared S (set xs)) p}) = int (card {p. used S p}) - int (length xs)"
proof -
  have fin: "finite {p. used S p}"
    by (rule finite_subset [of _ "{..<length S}"]) (auto simp: used_def)
  have sub: "set xs \<subseteq> {p. used S p}" using chain_used [OF assms(3,1,2)] by blast
  have "{p. used (cleared S (set xs)) p} = {p. used S p} - set xs"
    by (auto simp: used_cleared)
  moreover have "card ({p. used S p} - set xs) = card {p. used S p} - length xs"
    using card_Diff_subset [OF _ sub] distinct_card [OF chain_distinct [OF assms(3,1,2)]] by simp
  moreover have "length xs \<le> card {p. used S p}"
    using card_mono [OF fin sub] distinct_card [OF chain_distinct [OF assms(3,1,2)]] by simp
  ultimately show ?thesis by simp
qed

lemma collisions_cleared:
  assumes "shape S" "head S i" "chain S i xs"
  shows "collisions (cleared S (set xs)) p = collisions S p - {i}"
proof -
  have "s_count (S ! x) = -2" if "x \<in> set xs" "x \<noteq> i" for x
    using chain_ext [OF assms(3,1) head_used [OF assms(2)]] chain_hd [OF assms(3)] that
    by (cases xs) (auto simp: ext_def)
  moreover have "i \<in> set xs" using chain_hd [OF assms(3)] by (cases xs) auto
  ultimately show ?thesis
    by (auto simp: collisions_def split: if_splits)
qed

lemma count_cleared_pos:
  assumes "shape S" "head S i" "chain S i xs" "p < length S" "p \<noteq> i"
  shows "s_count (cleared S (set xs) ! p) > 0 \<longleftrightarrow> s_count (S ! p) > 0"
    and "s_count (cleared S (set xs) ! p) = -1 \<longleftrightarrow> s_count (S ! p) = -1"
    and "s_count (S ! p) > 0 \<Longrightarrow> s_count (cleared S (set xs) ! p) = s_count (S ! p)"
proof -
  have "s_count (S ! p) = -2" if "p \<in> set xs"
    using chain_ext [OF assms(3,1) head_used [OF assms(2)]] chain_hd [OF assms(3)] that assms(5)
    by (cases xs) (auto simp: ext_def)
  then show "s_count (cleared S (set xs) ! p) > 0 \<longleftrightarrow> s_count (S ! p) > 0"
    and "s_count (cleared S (set xs) ! p) = -1 \<longleftrightarrow> s_count (S ! p) = -1"
    and "s_count (S ! p) > 0 \<Longrightarrow> s_count (cleared S (set xs) ! p) = s_count (S ! p)"
    using assms(4) by auto
qed

lemma bucketsD:
  assumes "buckets S" "i < length S"
  shows "s_count (S ! i) > 0 \<Longrightarrow> s_hash (S ! i) = i \<and> s_count (S ! i) = 1 + int (card (collisions S i))"
    and "s_count (S ! i) = -1 \<Longrightarrow> s_hash (S ! i) < length S \<and> s_count (S ! s_hash (S ! i)) > 0"
  using assms by (auto simp: buckets_def)

lemma finite_collisions [simp]: "finite (collisions S h)"
  by (simp add: collisions_def)

text \<open>Removing a lone leading entry, and removing a collision entry after its leading slot was
  counted down.\<close>

lemma buckets_clear_lone:
  assumes "buckets S" "shape S" "head S i" "chain S i xs" "s_count (S ! i) = 1"
  shows "buckets (cleared S (set xs))"
proof -
  have i: "i < length S" using assms(3) by (simp add: head_def)
  have none: "collisions S i = {}"
    using bucketsD(1) [OF assms(1) i] assms(5) by (simp add: card_eq_0_iff)
  have inx: "i \<in> set xs" using chain_hd [OF assms(4)] by (cases xs) auto
  note cc = count_cleared_pos [OF assms(2-4)] and col = collisions_cleared [OF assms(2-4)]
  have noi: "i \<notin> collisions S p" for p using assms(5) by (simp add: collisions_def)
  show ?thesis
    unfolding buckets_def
  proof (intro conjI allI impI)
    fix p assume "p < length (cleared S (set xs))" "s_count (cleared S (set xs) ! p) > 0"
    then have p: "p < length S" "p \<noteq> i" using inx by auto
    with \<open>s_count (cleared S (set xs) ! p) > 0\<close> have pos: "s_count (S ! p) > 0" using cc(1) by blast
    note b = bucketsD(1) [OF assms(1) p(1) pos]
    then show "s_hash (cleared S (set xs) ! p) = p" using p(1) by simp
    show "s_count (cleared S (set xs) ! p) = 1 + int (card (collisions (cleared S (set xs)) p))"
      using cc(3) [OF p pos] b col [of p] noi by simp
  next
    fix j assume "j < length (cleared S (set xs))" "s_count (cleared S (set xs) ! j) = -1"
    then have j: "j < length S" "j \<noteq> i" using inx by auto
    with \<open>s_count (cleared S (set xs) ! j) = -1\<close> have m1: "s_count (S ! j) = -1" using cc(2) by blast
    note b = bucketsD(2) [OF assms(1) j(1) m1]
    have "s_hash (S ! j) \<noteq> i" using none j(1) m1 by (auto simp: collisions_def)
    then show "s_hash (cleared S (set xs) ! j) < length (cleared S (set xs))"
      and "s_count (cleared S (set xs) ! s_hash (cleared S (set xs) ! j)) > 0"
      using b j(1) cc(1) [of "s_hash (S ! j)"] by (auto split: if_splits)
  qed
qed

lemma buckets_clear_collision:
  assumes "buckets S" "shape S" "head S i" "chain S i xs" "s_count (S ! i) = -1"
    and "l = s_hash (S ! i)" and "S' = recount S l (s_count (S ! l) - 1)"
  shows "s_count (S ! l) > 1 \<and> buckets (cleared S' (set xs))"
proof -
  have i: "i < length S" using assms(3) by (simp add: head_def)
  have l: "l < length S" "s_count (S ! l) > 0"
    using bucketsD(2) [OF assms(1) i assms(5)] assms(6) by simp_all
  note bl = bucketsD(1) [OF assms(1) l]
  have icol: "i \<in> collisions S l" using i assms(5,6) by (simp add: collisions_def)
  then have "card (collisions S l) > 0" by (auto simp: card_gt_0_iff)
  then have l1: "s_count (S ! l) > 1" using bl by simp
  have hl: "head S l" using l by (simp add: head_def)
  have c: "s_count (S ! l) - 1 > 0 \<or> s_count (S ! l) - 1 = -1" using l1 by simp
  have sh': "shape S'" unfolding assms(7) by (rule shape_recount [OF assms(2) hl c])
  have hd': "head S' i" unfolding assms(7) using assms(3) head_recount [OF hl c] by simp
  have ch': "chain S' i xs" unfolding assms(7) using assms(4) by (simp add: chain_recount)
  have li: "l \<noteq> i" using assms(5) l by auto
  have cnt: "s_count (S' ! p) = (if p = l then s_count (S ! l) - 1 else s_count (S ! p))" if "p < length S" for p
    using that by (simp add: assms(7) nth_recount)
  have hsh: "s_hash (S' ! p) = s_hash (S ! p)" for p by (simp add: assms(7))
  have len: "length S' = length S" by (simp add: assms(7))
  have colS: "collisions S' p = collisions S p" for p
    using l cnt by (auto simp: collisions_def hsh len split: if_splits)
  note cc = count_cleared_pos [OF sh' hd' ch'] and col = collisions_cleared [OF sh' hd' ch', unfolded colS]
  have inx: "i \<in> set xs" using chain_hd [OF assms(4)] by (cases xs) auto
  have "buckets (cleared S' (set xs))"
    unfolding buckets_def
  proof (intro conjI allI impI)
    fix p assume "p < length (cleared S' (set xs))" "s_count (cleared S' (set xs) ! p) > 0"
    then have p: "p < length S" "p < length S'" "p \<noteq> i" using inx len by auto
    with \<open>s_count (cleared S' (set xs) ! p) > 0\<close> have pos: "s_count (S' ! p) > 0" using cc(1) by blast
    then have pos0: "s_count (S ! p) > 0" using cnt [OF p(1)] by (auto split: if_splits)
    note b = bucketsD(1) [OF assms(1) p(1) pos0]
    then show "s_hash (cleared S' (set xs) ! p) = p" using p(2) hsh by simp
    have "i \<in> collisions S p \<longleftrightarrow> p = l" using i assms(5,6) by (auto simp: collisions_def)
    then have "int (card (collisions S p - {i})) = int (card (collisions S p)) - (if p = l then 1 else 0)"
      using card_Diff_singleton [of i "collisions S p"] \<open>card (collisions S l) > 0\<close> by auto
    then show "s_count (cleared S' (set xs) ! p) = 1 + int (card (collisions (cleared S' (set xs)) p))"
      using cc(3) [OF p(2,3) pos] cnt [OF p(1)] b col [of p] by (cases "p = l") simp_all
  next
    fix j assume "j < length (cleared S' (set xs))" "s_count (cleared S' (set xs) ! j) = -1"
    then have j: "j < length S" "j < length S'" "j \<noteq> i" using inx len by auto
    with \<open>s_count (cleared S' (set xs) ! j) = -1\<close> have "s_count (S' ! j) = -1" using cc(2) by blast
    then have m1: "s_count (S ! j) = -1" using cnt [OF j(1)] l1 by (auto split: if_splits)
    note b = bucketsD(2) [OF assms(1) j(1) m1]
    have "s_hash (S ! j) \<noteq> i" using b assms(5) by auto
    moreover have "s_count (S' ! s_hash (S ! j)) > 0"
      using b cnt [of "s_hash (S ! j)"] l1 by auto
    ultimately show "s_hash (cleared S' (set xs) ! j) < length (cleared S' (set xs))"
      and "s_count (cleared S' (set xs) ! s_hash (cleared S' (set xs) ! j)) > 0"
      using b j(2) hsh cc(1) [of "s_hash (S ! j)"] len by (auto split: if_splits)
  qed
  with l1 show ?thesis by simp
qed

text \<open>Promoting a collision entry into the leading slot.\<close>

lemma buckets_promote:
  assumes "buckets S" "shape S" "head S i" "chain S i xs" "s_count (S ! i) > 1" "j \<in> collisions S i"
    and "S1 = cleared S (set xs)" and "S2 = recount S1 j (s_count (S ! i) - 1)" and m: "moved S2 S' j i"
  shows "buckets S'"
proof -
  have i: "i < length S" using assms(3) by (simp add: head_def)
  have j: "j < length S" "s_count (S ! j) = -1" "s_hash (S ! j) = i" using assms(6) by (auto simp: collisions_def)
  have ij: "i \<noteq> j" using assms(5) j(2) by auto
  note cc = count_cleared_pos [OF assms(2-4)]
  have len: "length S1 = length S" "length S2 = length S" "length S' = length S"
    using m by (simp_all add: assms(7,8) moved_def)
  have uj: "used S2 j" using m by (simp add: moved_def)
  have pre: "\<exists>q. used S2 q \<and> x = reidx j i q" if "used S' x" for x
    using m that by (simp add: moved_def)
  have c2: "s_count (S2 ! x) = s_count (S1 ! x)" if "x < length S" "x \<noteq> j" for x
    using that len by (simp add: assms(8) nth_recount)
  have cj: "s_count (S' ! j) = 0"
  proof (rule ccontr)
    assume "s_count (S' ! j) \<noteq> 0"
    then obtain q where "j = reidx j i q" using pre [of j] j(1) len by (auto simp: used_def)
    then show False using ij by (simp add: reidx_def split: if_splits)
  qed
  have ci: "s_count (S' ! i) = s_count (S ! i) - 1" "s_hash (S' ! i) = i"
  proof -
    have "s_count (S2 ! j) = s_count (S ! i) - 1"
      using j(1) len by (simp add: assms(8) nth_recount)
    then have "\<not> ext S2 j" "s_count (S' ! i) = s_count (S ! i) - 1"
      using m uj assms(5) by (auto simp: moved_def reidx_def ext_def)
    then show "s_count (S' ! i) = s_count (S ! i) - 1" "s_hash (S' ! i) = i"
      using m uj j(1,3) by (auto simp: moved_def reidx_def assms(7,8))
  qed
  have cx: "s_count (S' ! x) = s_count (S1 ! x)" if x: "x < length S" "x \<noteq> i" "x \<noteq> j" for x
  proof (cases "used S2 x")
    case True
    then show ?thesis using m x c2 by (auto simp: moved_def reidx_def)
  next
    case False
    then have "\<not> used S' x" using pre [of x] x by (auto simp: reidx_def split: if_splits)
    then show ?thesis using False x c2 len by (simp add: used_def)
  qed
  have hx: "s_hash (S' ! x) = s_hash (S ! x)"
    if x: "x < length S" "x \<noteq> i" "x \<noteq> j" "s_count (S ! x) > 0 \<or> s_count (S ! x) = -1" for x
  proof -
    have "s_count (S2 ! x) > 0 \<or> s_count (S2 ! x) = -1"
      using x cc(1,2) [of x] c2 by (auto simp: assms(7))
    then have "used S2 x" "\<not> ext S2 x" using x len by (auto simp: used_def ext_def)
    then show ?thesis using m x by (auto simp: moved_def reidx_def assms(7,8))
  qed
  have pos: "s_count (S' ! x) > 0 \<longleftrightarrow> s_count (S ! x) > 0" "s_count (S' ! x) = -1 \<longleftrightarrow> s_count (S ! x) = -1"
    "s_count (S ! x) > 0 \<Longrightarrow> s_count (S' ! x) = s_count (S ! x)" if "x < length S" "x \<noteq> i" "x \<noteq> j" for x
    using cx [OF that] cc [of x] that by (auto simp: assms(7))
  have col: "collisions S' p = collisions S p - {j}" for p
  proof (rule set_eqI)
    fix x
    consider "x = i" | "x = j" | "x \<noteq> i" "x \<noteq> j" by blast
    then show "x \<in> collisions S' p \<longleftrightarrow> x \<in> collisions S p - {j}"
    proof cases
      case 1
      then show ?thesis using ci assms(5) by (auto simp: collisions_def)
    next
      case 2
      then show ?thesis using cj by (auto simp: collisions_def)
    next
      case 3
      then show ?thesis using pos(2) [of x] hx [of x] len by (auto simp: collisions_def)
    qed
  qed
  show ?thesis
    unfolding buckets_def
  proof (intro conjI allI impI)
    fix p assume p: "p < length S'" "s_count (S' ! p) > 0"
    have "s_hash (S' ! p) = p \<and> s_count (S' ! p) = 1 + int (card (collisions S' p))"
    proof (cases "p = i")
      case True
      have "int (card (collisions S i - {j})) = int (card (collisions S i)) - 1"
        using assms(6) card_gt_0_iff [of "collisions S i"] by (auto simp: card_Diff_singleton)
      then show ?thesis
        using True ci bucketsD(1) [OF assms(1) i] assms(5) col [of i] by simp
    next
      case False
      then have pj: "p \<noteq> j" using p cj by auto
      then have "s_count (S ! p) > 0" using False p len pos(1) by simp
      moreover have "j \<notin> collisions S p" using j(3) False by (auto simp: collisions_def)
      ultimately show ?thesis
        using bucketsD(1) [OF assms(1), of p] hx [of p] pos(3) [of p] p len False pj col [of p] by simp
    qed
    then show "s_hash (S' ! p) = p" "s_count (S' ! p) = 1 + int (card (collisions S' p))" by simp_all
  next
    fix x assume x: "x < length S'" "s_count (S' ! x) = -1"
    then have xx: "x \<noteq> i" "x \<noteq> j" using ci cj assms(5) by auto
    then have m1: "s_count (S ! x) = -1" using pos(2) [of x] x len by simp
    note b = bucketsD(2) [OF assms(1) _ m1]
    have h: "s_hash (S' ! x) = s_hash (S ! x)" using hx [of x] xx m1 x len by simp
    have "s_hash (S ! x) \<noteq> j" using b j(2) x len by auto
    then have "s_count (S' ! s_hash (S ! x)) > 0"
      using b pos(1) [of "s_hash (S ! x)"] x len ci(1) assms(5) by (cases "s_hash (S ! x) = i") auto
    then show "s_hash (S' ! x) < length S'" "s_count (S' ! s_hash (S' ! x)) > 0"
      using h b x len by simp_all
  qed
qed

lemma find_dup_exists:
  assumes "i < length S" "collisions S i \<noteq> {}" "s_count (S ! i) > 0"
  obtains j where "find_dup S i i i = Some j" "j \<in> collisions S i"
proof -
  let ?P = "\<lambda>j. s_count (S ! j) = -1 \<and> s_hash (S ! j) = i"
  obtain r where r: "ring_from (length S) i i = i # r"
    using ring_from_unfold [OF assms(1,1)] by simp
  obtain k where k: "k < length S" "?P k" using assms(2) by (auto simp: collisions_def)
  have "k \<in> set (i # r)" using set_ring_from [OF assms(1)] r k(1) by (metis lessThan_iff)
  then have "k \<in> set r" using k(2) assms(3) by auto
  then obtain j where j: "find ?P r = Some j"
    using k(2) by (cases "find ?P r") (auto simp: find_None_iff)
  then have d: "find_dup S i i i = Some j" using find_dup_eq [OF assms(1,1), of i] r by simp
  from find_dup_less [OF this] have "j \<in> collisions S i" by (simp add: collisions_def)
  with d show ?thesis by (rule that)
qed

text \<open>What a removal leaves behind.\<close>

definition bucket_size :: "qhasharr_slot_s list \<Rightarrow> nat \<Rightarrow> nat" where
  "bucket_size S b = card {i \<in> heads S. s_hash (S ! i) = b}"

lemma same_heads_bucket:
  assumes "same_heads \<phi> H S S'"
  shows "bucket_size S' b \<le> bucket_size S b"
proof -
  have h: "heads S' = \<phi> ` H" "H \<subseteq> heads S" using assms by (auto simp: same_heads_def bij_betw_def)
  have sub: "{i \<in> heads S'. s_hash (S' ! i) = b} \<subseteq> \<phi> ` {i \<in> heads S. s_hash (S ! i) = b}"
    unfolding h(1) using assms h(2) by (auto simp: same_heads_def)
  show ?thesis
    using card_mono [OF _ sub] card_image_le [of "{i \<in> heads S. s_hash (S ! i) = b}" \<phi>]
    by (simp add: bucket_size_def)
qed

definition removed :: "qhasharr_s \<Rightarrow> nat \<times> key_id \<Rightarrow> nat \<Rightarrow> qhasharr_s \<Rightarrow> bool" where
  "removed t bq n t' \<longleftrightarrow> tbl_inv t' \<and> tbl_map (slots t') = (tbl_map (slots t))(bq := None)
     \<and> maxslots t' = maxslots t \<and> usedslots t' = usedslots t - int n
     \<and> (\<forall>b. bucket_size (slots t') b \<le> bucket_size (slots t) b)"

lemma removedI:
  assumes "tbl_inv t" "entry (slots t) b q i" "same_heads \<phi> (heads (slots t) - {i}) (slots t) S'"
    and "shape S'" "buckets S'" "length S' = maxslots t"
    and "int (card {p. used S' p}) = int (card {p. used (slots t) p}) - int n"
  shows "removed t (b, q) n (t\<lparr>slots := S', usedslots := usedslots t - int n, num := num t - 1\<rparr>)"
proof -
  have ko: "keys_ok (slots t)" using assms(1) by (simp add: tbl_inv_def)
  have "int (card (heads S')) = int (card (heads (slots t))) - 1"
  proof -
    have "i \<in> heads (slots t)" using assms(2) by (simp add: entry_def heads_def)
    then have "card (heads (slots t)) > 0" "card (heads (slots t) - {i}) = card (heads (slots t)) - 1"
      by (auto simp: card_gt_0_iff)
    then show ?thesis using same_heads_card [OF assms(3)] by simp
  qed
  then show ?thesis
    using assms same_heads_keys_ok [OF assms(3) ko] same_heads_delete [OF assms(3) ko assms(2)]
      same_heads_bucket [OF assms(3)] same_heads_packed [OF assms(3)]
    by (simp add: removed_def tbl_inv_def maxslots_def used_set_used)
qed

lemma same_heads_trans:
  assumes "same_heads \<phi> H S S'" "same_heads \<psi> (heads S') S' S''"
  shows "same_heads (\<psi> \<circ> \<phi>) H S S''"
proof -
  have "\<phi> p \<in> heads S'" if "p \<in> H" for p
    using assms(1) that by (auto simp: same_heads_def bij_betw_def)
  then show ?thesis
    using assms by (auto simp: same_heads_def intro: bij_betw_trans)
qed

lemma same_heads_pre:
  assumes "same_heads id (heads S) S S1" "same_heads \<phi> H S1 S2"
  shows "same_heads \<phi> H S S2"
proof -
  have "heads S1 = heads S" using assms(1) by (simp add: same_heads_def bij_betw_def)
  then show ?thesis using assms by (auto simp: same_heads_def)
qed

lemma slot_kid_recount: "slot_kid (recount S l c ! p) = slot_kid (S ! p)"
  by (rule slot_kid_data) simp

lemma same_heads_recount:
  assumes "head S l" "c > 0 \<or> c = -1"
  shows "same_heads id (heads S) S (recount S l c)"
  using head_recount [OF assms] by (simp add: same_heads_def heads_def value_recount chain_of_recount slot_kid_recount)

lemma entry_chain:
  assumes "tbl_inv t" and "entry (slots t) h q i"
  obtains xs where "head (slots t) i" "s_hash (slots t ! i) = h" "i < length (slots t)" "used (slots t) i"
    "chain (slots t) i xs" "i \<in> set xs"
proof -
  have sh: "shape (slots t)" using assms(1) by (simp add: tbl_inv_def)
  have hd: "head (slots t) i" "s_hash (slots t ! i) = h" using assms(2) by (auto simp: entry_def)
  note ui = head_used [OF hd(1)]
  obtain xs where xs: "chain (slots t) i xs" using chain_exists [OF sh ui] by blast
  moreover have "i \<in> set xs" using chain_hd [OF xs] by (cases xs) auto
  ultimately show ?thesis using that hd ui by (auto simp: used_def)
qed

lemma remove_idx_one:
  assumes inv: "tbl_inv t" and e: "entry (slots t) h q i" and one: "s_count (slots t ! i) = 1"
  shows "\<exists>t'. remove_idx t h i = (Inr (), t') \<and> removed t (h, q) (length (chain_of (slots t) i)) t'"
proof -
  let ?S = "slots t"
  have sh: "shape ?S" and bk: "buckets ?S" using inv by (auto simp: tbl_inv_def)
  obtain xs where hd: "head ?S i" "s_hash (?S ! i) = h" and i: "i < length ?S" and ui: "used ?S i"
    and xs: "chain ?S i xs" and inx: "i \<in> set xs"
    using entry_chain [OF inv e] by blast
  note co = chain_of_eq [OF xs]
  have "removed t (h, q) (length xs) (snd (remove_data t i))"
    unfolding remove_data_chain [OF sh ui xs] snd_conv
    by (rule removedI [OF inv e same_heads_cleared [OF sh hd(1) xs] shape_cleared [OF sh chain_closed [OF sh hd(1) xs]]
          buckets_clear_lone [OF bk sh hd(1) xs one] _ card_used_cleared [OF sh ui xs]])
      (simp add: maxslots_def)
  then show ?thesis using one co by (simp add: remove_idx_def)
qed

lemma remove_idx_coll:
  assumes inv: "tbl_inv t" and e: "entry (slots t) h q i" and coll: "s_count (slots t ! i) = -1"
  shows "\<exists>t'. remove_idx t h i = (Inr (), t') \<and> removed t (h, q) (length (chain_of (slots t) i)) t'"
proof -
  let ?S = "slots t"
  have sh: "shape ?S" and bk: "buckets ?S" using inv by (auto simp: tbl_inv_def)
  obtain xs where hd: "head ?S i" "s_hash (?S ! i) = h" and i: "i < length ?S" and ui: "used ?S i"
    and xs: "chain ?S i xs" and inx: "i \<in> set xs"
    using entry_chain [OF inv e] by blast
  note co = chain_of_eq [OF xs]
  let ?S' = "recount ?S h (s_count (?S ! h) - 1)"
  let ?t1 = "upd_slot h (\<lambda>s. s\<lparr>s_count := s_count s - 1\<rparr>) t"
  note bc = buckets_clear_collision [OF bk sh hd(1) xs coll hd(2) [symmetric] refl]
  have h: "h < length ?S" using bucketsD(2) [OF bk i coll] hd(2) by simp
  have hl: "head ?S h" using bc h by (simp add: head_def)
  have c: "s_count (?S ! h) - 1 > 0 \<or> s_count (?S ! h) - 1 = -1" using bc by simp
  have s1: "slots ?t1 = ?S'" by (simp add: upd_slot_def recount_def)
  have sh1: "shape ?S'" and ui1: "used ?S' i" and hd1: "head ?S' i" and xs1: "chain ?S' i xs"
    using shape_recount [OF sh hl c] used_recount [OF hl c] head_recount [OF hl c] ui hd(1) xs
    by (simp_all add: chain_recount)
  have "same_heads id (heads ?S - {i}) ?S (cleared ?S' (set xs))"
    using same_heads_pre [OF same_heads_recount [OF hl c] same_heads_cleared [OF sh1 hd1 xs1]]
      head_recount [OF hl c] by (simp add: heads_def)
  moreover have "int (card {p. used (cleared ?S' (set xs)) p}) = int (card {p. used ?S p}) - int (length xs)"
    using card_used_cleared [OF sh1 ui1 xs1] used_recount [OF hl c] by simp
  moreover have "shape (cleared ?S' (set xs))"
    by (rule shape_cleared [OF sh1 chain_closed [OF sh1 hd1 xs1]])
  ultimately have "removed t (h, q) (length xs)
      (t\<lparr>slots := cleared ?S' (set xs), usedslots := usedslots t - int (length xs), num := num t - 1\<rparr>)"
    using bc by (intro removedI [OF inv e]) (auto simp: maxslots_def)
  moreover have "snd (remove_data ?t1 i) =
      t\<lparr>slots := cleared ?S' (set xs), usedslots := usedslots t - int (length xs), num := num t - 1\<rparr>"
    using remove_data_chain [of ?t1 i xs] sh1 ui1 xs1 by (simp add: s1) (simp add: upd_slot_def)
  ultimately show ?thesis
    using coll bc co hd(2) by (simp add: remove_idx_def Let_def)
qed

lemma remove_idx_lead:
  assumes inv: "tbl_inv t" and e: "entry (slots t) h q i" and lead: "s_count (slots t ! i) > 1"
  shows "\<exists>t'. remove_idx t h i = (Inr (), t') \<and> removed t (h, q) (length (chain_of (slots t) i)) t'"
proof -
  let ?S = "slots t"
  have sh: "shape ?S" and bk: "buckets ?S" using inv by (auto simp: tbl_inv_def)
  obtain xs where hd: "head ?S i" "s_hash (?S ! i) = h" and i: "i < length ?S" and ui: "used ?S i"
    and xs: "chain ?S i xs" and inx: "i \<in> set xs"
    using entry_chain [OF inv e] by blast
  note co = chain_of_eq [OF xs]
  have hi: "h = i" using bucketsD(1) [OF bk i] lead hd(2) by simp
  have "card (collisions ?S i) > 0" using bucketsD(1) [OF bk i] lead by simp
  then obtain j where dup: "find_dup ?S i i i = Some j" and j: "j \<in> collisions ?S i"
    using find_dup_exists [OF i] lead by (metis card.empty less_irrefl less_trans zero_less_one)
  have jS: "j < length ?S" "s_count (?S ! j) = -1" using j by (auto simp: collisions_def)
  define S1 where "S1 = cleared ?S (set xs)"
  define S2 where "S2 = recount S1 j (s_count (?S ! i) - 1)"
  have hj: "head ?S j" "j \<noteq> i" using jS lead by (auto simp: head_def)
  have jx: "j \<notin> set xs"
    using chain_ext [OF xs sh ui] chain_hd [OF xs] head_not_ext [OF hj(1)] hj(2) by (cases xs) auto
  have len: "length S1 = length ?S" "length S2 = length ?S" by (simp_all add: S1_def S2_def)
  have h1: "head S1 j" using hj jx by (simp add: S1_def head_cleared)
  have c: "s_count (?S ! i) - 1 > 0 \<or> s_count (?S ! i) - 1 = -1" using lead by simp
  have sh1: "shape S1" unfolding S1_def by (rule shape_cleared [OF sh chain_closed [OF sh hd(1) xs]])
  have sh2: "shape S2" unfolding S2_def by (rule shape_recount [OF sh1 h1 c])
  have u2: "used S2 j" "\<not> used S2 i" "i < length S2"
    using used_recount [OF h1 c] head_used [OF h1] inx i len
    by (simp_all add: S2_def S1_def used_cleared)
  note mv = moved_reloc [OF sh2 u2]
  have "same_heads (reidx j i \<circ> id) (heads ?S - {i}) ?S (reloc S2 j i)"
  proof (rule same_heads_trans)
    show "same_heads id (heads ?S - {i}) ?S S2"
      using same_heads_trans [OF same_heads_cleared [OF sh hd(1) xs] same_heads_recount, of j "s_count (?S ! i) - 1"]
        h1 c by (simp add: S2_def S1_def)
    show "same_heads (reidx j i) (heads S2) S2 (reloc S2 j i)" by (rule moved_heads [OF mv sh2])
  qed
  moreover have "int (card {p. used (reloc S2 j i) p}) = int (card {p. used ?S p}) - int (length xs)"
    using moved_card_used [OF mv] card_used_cleared [OF sh ui xs] used_recount [OF h1 c]
    by (simp add: S2_def S1_def)
  ultimately have rem: "removed t (h, q) (length xs)
      (t\<lparr>slots := reloc S2 j i, usedslots := usedslots t - int (length xs), num := num t - 1\<rparr>)"
    using moved_shape [OF mv sh2] buckets_promote [OF bk sh hd(1) xs lead j S1_def S2_def mv] len
    by (intro removedI [OF inv e]) (auto simp: maxslots_def)
  have cnt: "s_count (S1 ! i) = 0" "s_count (S1 ! j) = -1"
    using inx i jx jS by (simp_all add: S1_def)
  have base: "S1[i := S1 ! j, j := (S1 ! j)\<lparr>s_count := 0\<rparr>, i := (S1 ! j)\<lparr>s_count := s_count (?S ! i) - 1\<rparr>]
      = S2[i := S2 ! j, j := (S2 ! j)\<lparr>s_count := 0\<rparr>]"
    using i jS(1) hj(2) len by (intro nth_equalityI) (auto simp: S2_def recount_def nth_list_update)
  have s2: "S2 ! j = (S1 ! j)\<lparr>s_count := s_count (?S ! i) - 1\<rparr>"
    using jS(1) len by (simp add: S2_def nth_recount)
  let ?S4 = "S2[i := S2 ! j, j := (S2 ! j)\<lparr>s_count := 0\<rparr>]"
  have rl: "reloc S2 j i = (if s_link (S1 ! j) \<noteq> -1
      then ?S4[nat (s_link (S1 ! j)) := (?S4 ! nat (s_link (S1 ! j)))\<lparr>s_hash := i\<rparr>] else ?S4)"
    using lead by (simp add: reloc_def Let_def s2)
  have l4: "s_link (?S4 ! i) = s_link (S1 ! j)"
    using i jS(1) hj(2) len by (simp add: s2 nth_list_update)
  have t1: "snd (remove_data t i) =
      t\<lparr>slots := S1, usedslots := usedslots t - int (length xs), num := num t - 1\<rparr>"
    by (simp add: remove_data_chain [OF sh ui xs] S1_def)
  define t3 where "t3 = snd (remove_slot (snd (copy_slot (snd (remove_data t i)) i j)) j)"
  have t3: "t3 = t\<lparr>slots := S1[i := S1 ! j, j := (S1 ! j)\<lparr>s_count := 0\<rparr>],
      usedslots := usedslots t - int (length xs), num := num t - 1\<rparr>"
    using cnt hj(2) jS(1) len by (simp add: t3_def t1 copy_slot_def remove_slot_def upd_slot_def)
  have t4: "upd_slot i (\<lambda>s. s\<lparr>s_count := s_count (?S ! i) - 1\<rparr>) t3 =
      t\<lparr>slots := ?S4, usedslots := usedslots t - int (length xs), num := num t - 1\<rparr>"
    using i hj(2) jS(1) len by (simp add: t3 upd_slot_def flip: base)
  have "remove_idx t h i =
      (Inr (), t\<lparr>slots := reloc S2 j i, usedslots := usedslots t - int (length xs), num := num t - 1\<rparr>)"
    using lead dup l4 by (simp add: remove_idx_def Let_def hi t4 flip: t3_def) (simp add: rl upd_slot_def)
  with rem co show ?thesis by simp
qed

lemma remove_idx_spec:
  assumes "tbl_inv t" and e: "entry (slots t) h q i"
  shows "\<exists>t'. remove_idx t h i = (Inr (), t') \<and> removed t (h, q) (length (chain_of (slots t) i)) t'"
proof -
  have "s_count (slots t ! i) = 1 \<or> s_count (slots t ! i) > 1 \<or> s_count (slots t ! i) = -1"
    using e by (force simp: entry_def head_def)
  then show ?thesis
    using remove_idx_one [OF assms] remove_idx_lead [OF assms] remove_idx_coll [OF assms] by blast
qed

lemma qhasharr_remove_spec:
  assumes inv: "tbl_inv t"
  shows "(case tbl_map (slots t) (key_of t k) of
      None \<Rightarrow> qhasharr_remove t k = (Inl ENOENT, t)
    | Some v \<Rightarrow> \<exists>i t'. get_idx t k (bucket t k) = Some i \<and> qhasharr_remove t k = (Inr (), t')
        \<and> removed t (key_of t k) (length (chain_of (slots t) i)) t')"
proof -
  have m: "0 < maxslots t" and ko: "keys_ok (slots t)" using inv by (auto simp: tbl_inv_def)
  note g = get_idx_entry [OF inv bucket_less [OF m], of k]
  show ?thesis
  proof (cases "get_idx t k (bucket t k)")
    case None
    then have "tbl_map (slots t) (key_of t k) = None"
      using g unfolding key_of_def tbl_map_None by (metis option.distinct(1))
    then show ?thesis using None m by (simp add: qhasharr_remove_def)
  next
    case (Some i)
    then have e: "entry (slots t) (bucket t k) (kid k) i" using g by simp
    then show ?thesis
      using Some m remove_idx_spec [OF inv e] tbl_map_entry [OF ko e]
      by (auto simp: qhasharr_remove_def key_of_def)
  qed
qed

end
