(* ===== verification/QHasharrPut.thy ===== *)
theory QHasharrPut
  imports QHasharrRemove
begin

text \<open>
  Storing: \<open>_put_data\<close> builds the chain of a new entry in free slots or, when the slots run out,
  gives back what it took; \<open>qhasharr_put\<close> updates the abstract map.
\<close>

section \<open>Free slots\<close>

lemma find_empty_Some:
  assumes "find_empty t s = Some e"
  shows "e < length (slots t) \<and> \<not> used (slots t) e"
proof -
  have m: "0 < length (slots t)" using assms by (auto simp: find_empty_def maxslots_def split: if_splits)
  let ?s = "if s \<ge> length (slots t) then 0 else s"
  have s: "?s < length (slots t)" using m by simp
  have "find (\<lambda>j. s_count (slots t ! j) = 0) (ring_from (length (slots t)) ?s ?s) = Some e"
    using assms m find_empty_loop_eq [OF s s] by (simp add: find_empty_def maxslots_def Let_def)
  from find_SomeD [OF this] show ?thesis
    using set_ring_from [OF s] by (auto simp: used_def)
qed

lemma find_empty_None:
  assumes "find_empty t s = None" "p < length (slots t)"
  shows "used (slots t) p"
proof -
  let ?s = "if s \<ge> length (slots t) then 0 else s"
  have s: "?s < length (slots t)" using assms(2) by auto
  have "find (\<lambda>j. s_count (slots t ! j) = 0) (ring_from (length (slots t)) ?s ?s) = None"
    using assms find_empty_loop_eq [OF s s] by (simp add: find_empty_def maxslots_def Let_def split: if_splits)
  then show ?thesis
    using set_ring_from [OF s] assms(2) by (auto simp: find_None_iff used_def)
qed

definition nused :: "qhasharr_slot_s list \<Rightarrow> nat" where
  "nused S = card {p. used S p}"

lemma used_subset: "{p. used S p} \<subseteq> {..<length S}"
  by (auto simp: used_def)

lemma finite_used [simp]: "finite {p. used S p}"
  by (rule finite_subset [OF used_subset]) simp

lemma nused_le: "nused S \<le> length S"
  using card_mono [OF _ used_subset [of S]] by (simp add: nused_def)

lemma nused_less: "p < length S \<Longrightarrow> \<not> used S p \<Longrightarrow> nused S < length S"
  using psubset_card_mono [of "{..<length S}" "{p. used S p}"] used_subset [of S]
  by (auto simp: nused_def)

lemma find_empty_nused: "find_empty t s = None \<longleftrightarrow> nused (slots t) = length (slots t)"
proof
  assume n: "find_empty t s = None"
  have "{p. used (slots t) p} = {..<length (slots t)}"
    using find_empty_None [OF n] used_subset by blast
  then show "nused (slots t) = length (slots t)" by (simp add: nused_def)
next
  assume n: "nused (slots t) = length (slots t)"
  show "find_empty t s = None"
  proof (rule ccontr)
    assume "find_empty t s \<noteq> None"
    then obtain e where "find_empty t s = Some e" by auto
    then show False using find_empty_Some nused_less [of e "slots t"] n by auto
  qed
qed

section \<open>States that agree on used slots\<close>

definition agree :: "qhasharr_slot_s list \<Rightarrow> qhasharr_slot_s list \<Rightarrow> bool" where
  "agree S S' \<longleftrightarrow> length S' = length S \<and> (\<forall>s\<in>set S'. slot_ok s)
     \<and> (\<forall>p. used S' p \<longleftrightarrow> used S p) \<and> (\<forall>p. used S p \<longrightarrow> S' ! p = S ! p)"

lemma agree_kinds:
  assumes "agree S S'"
  shows "ext S' p \<longleftrightarrow> ext S p" "head S' p \<longleftrightarrow> head S p" "collisions S' h = collisions S h"
proof -
  have cnt: "s_count (S' ! p) = s_count (S ! p)" if "p < length S" for p
    using assms that by (cases "used S p") (auto simp: agree_def used_def)
  then show "ext S' p \<longleftrightarrow> ext S p" "head S' p \<longleftrightarrow> head S p"
    using assms by (auto simp: agree_def ext_def head_def)
  have "S' ! p = S ! p" if "p < length S" "s_count (S ! p) = -1" for p
    using assms that by (simp add: agree_def used_def)
  then show "collisions S' h = collisions S h"
    using assms cnt by (auto simp: agree_def collisions_def)
qed

lemma agree_shape:
  assumes "agree S S'" "shape S"
  shows "shape S'"
proof -
  note k = agree_kinds [OF assms(1)]
  have same: "S' ! p = S ! p" if "used S p" for p using assms(1) that by (simp add: agree_def)
  have u: "used S' p \<longleftrightarrow> used S p" for p using assms(1) by (simp add: agree_def)
  obtain rank where r: "ranked S rank" using assms(2) by (auto simp: shape_def)
  have "linked S'"
    unfolding linked_def
  proof (intro conjI allI impI; (elim conjE)?)
    fix i assume "used S' i" "s_link (S' ! i) \<noteq> -1"
    then have i: "used S i" "s_link (S ! i) \<noteq> -1" using u same by auto
    obtain j where j: "s_link (S ! i) = int j" "ext S j" "s_hash (S ! j) = i"
      using shape_link [OF assms(2) i] by blast
    then show "\<exists>j. s_link (S' ! i) = int j \<and> ext S' j \<and> s_hash (S' ! j) = i"
      using same [OF i(1)] same [OF ext_used [OF j(2)]] k(1) by auto
  next
    fix j assume "ext S' j"
    then have j: "ext S j" using k(1) by simp
    note b = shape_back [OF assms(2) j]
    then show "used S' (s_hash (S' ! j))" "s_link (S' ! s_hash (S' ! j)) = int j"
      using same [OF ext_used [OF j]] u same [of "s_hash (S ! j)"] by auto
  qed
  moreover have "ranked S' rank"
    using r k(1) same [OF ext_used] by (auto simp: ranked_def)
  ultimately show ?thesis using assms(1) by (auto simp: shape_def agree_def)
qed

lemma agree_value:
  assumes "agree S S'" "shape S" "used S i"
  shows "value_of S' i = value_of S i" "chain_of S' i = chain_of S i"
proof -
  obtain xs where xs: "chain S i xs" using chain_exists [OF assms(2,3)] by blast
  have same: "S' ! x = S ! x" if "x \<in> set xs" for x
    using chain_used [OF xs assms(2,3) that] assms(1) by (simp add: agree_def)
  have ch: "chain S' i xs"
    using xs by (rule chain_cong) (use assms(1) same in \<open>auto simp: agree_def\<close>)
  have "map (blk S') xs = map (blk S) xs" using same by (simp add: blk_def)
  then show "value_of S' i = value_of S i" by (simp only: value_of_def chain_of_eq [OF xs] chain_of_eq [OF ch])
  show "chain_of S' i = chain_of S i" by (simp only: chain_of_eq [OF xs] chain_of_eq [OF ch])
qed

lemma agree_heads:
  assumes "agree S S'" "shape S"
  shows "same_heads id (heads S) S S'"
  using agree_kinds(2) [OF assms(1)] agree_value [OF assms] head_used assms(1)
  by (auto simp: same_heads_def heads_def agree_def)

lemma agree_inv:
  assumes "agree (slots t) (slots t')" "tbl_inv t" "usedslots t' = usedslots t" "num t' = num t"
  shows "tbl_inv t' \<and> tbl_map (slots t') = tbl_map (slots t) \<and> maxslots t' = maxslots t"
proof -
  have sh: "shape (slots t)" and bk: "buckets (slots t)" and ko: "keys_ok (slots t)"
    using assms(2) by (auto simp: tbl_inv_def)
  note sm = agree_heads [OF assms(1) sh]
  have len: "length (slots t') = length (slots t)" using assms(1) by (simp add: agree_def)
  have same: "slots t' ! p = slots t ! p" if "p < length (slots t)" "s_count (slots t ! p) \<noteq> 0" for p
    using assms(1) that by (simp add: agree_def used_def)
  have cnt: "s_count (slots t' ! p) = s_count (slots t ! p)" if "p < length (slots t)" for p
    using assms(1) that by (cases "used (slots t) p") (auto simp: agree_def used_def)
  have "buckets (slots t')"
    unfolding buckets_def using bk len cnt same agree_kinds(3) [OF assms(1)]
    by (auto simp: buckets_def)
  then show ?thesis
    using assms agree_shape [OF assms(1) sh] same_heads_keys_ok [OF sm ko] same_heads_all [OF sm ko]
      same_heads_packed [OF sm] same_heads_card [OF sm] by (simp add: tbl_inv_def used_set_used maxslots_def agree_def)
qed

section \<open>Growing a chain\<close>

lemma shape_new_head:
  assumes "shape S" "i < length S" "\<not> used S i" "slot_ok s" "s_count s \<noteq> 0" "s_count s \<noteq> -2" "s_link s = -1"
  shows "shape (S[i := s])"
proof -
  let ?S = "S[i := s]"
  obtain rank where r: "ranked S rank" using assms(1) by (auto simp: shape_def)
  have u: "used ?S p \<longleftrightarrow> p = i \<or> used S p" and x: "ext ?S p \<longleftrightarrow> ext S p" for p
    using assms by (auto simp: used_def ext_def nth_list_update)
  have ne: "p \<noteq> i" if "used S p" for p using assms(3) that by auto
  have "linked ?S"
    unfolding linked_def
  proof (intro conjI allI impI; (elim conjE)?)
    fix p assume p: "used ?S p" "s_link (?S ! p) \<noteq> -1"
    then have pi: "p \<noteq> i" using assms(2,7) by auto
    then have us: "used S p" "s_link (S ! p) \<noteq> -1" using p u by auto
    obtain j where j: "s_link (S ! p) = int j" "ext S j" "s_hash (S ! j) = p"
      using shape_link [OF assms(1) us] by blast
    then show "\<exists>j. s_link (?S ! p) = int j \<and> ext ?S j \<and> s_hash (?S ! j) = p"
      using pi x ne [OF ext_used [OF j(2)]] by auto
  next
    fix j assume "ext ?S j"
    then have j: "ext S j" using x by simp
    note b = shape_back [OF assms(1) j]
    then show "used ?S (s_hash (?S ! j))" "s_link (?S ! s_hash (?S ! j)) = int j"
      using ne [OF ext_used [OF j]] u ne [of "s_hash (S ! j)"] by auto
  qed
  moreover have "ranked ?S rank"
  proof -
    have "?S ! j = S ! j" if "ext S j" for j using ne [OF ext_used [OF that]] by simp
    then show ?thesis using r x by (simp add: ranked_def)
  qed
  moreover have "\<forall>s\<in>set ?S. slot_ok s"
    using assms(1,4) set_update_subset_insert [of S i s] by (auto simp: shape_def)
  ultimately show ?thesis by (auto simp: shape_def)
qed

lemma shape_new_ext:
  assumes "shape S" "e < length S" "\<not> used S e" "used S n" "s_link (S ! n) = -1"
    and "slot_ok s" "s_count s = -2" "s_hash s = n" "s_link s = -1"
  shows "shape (S[e := s, n := (S ! n)\<lparr>s_link := int e\<rparr>])"
proof -
  let ?S = "S[e := s, n := (S ! n)\<lparr>s_link := int e\<rparr>]"
  obtain rank where r: "ranked S rank" using assms(1) by (auto simp: shape_def)
  have n: "n < length S" "n \<noteq> e" using assms(3,4) by (auto simp: used_def)
  have se: "?S ! e = s" and sn: "?S ! n = (S ! n)\<lparr>s_link := int e\<rparr>"
    and so: "\<And>p. p \<noteq> e \<Longrightarrow> p \<noteq> n \<Longrightarrow> ?S ! p = S ! p"
    using n assms(2) by auto
  have cnt: "s_count (?S ! p) = (if p = e then -2 else s_count (S ! p))"
    and hsh: "s_hash (?S ! p) = (if p = e then n else s_hash (S ! p))" for p
    using se sn so assms(7,8) n by (cases "p = e"; cases "p = n"; simp)+
  have u: "used ?S p \<longleftrightarrow> p = e \<or> used S p" and x: "ext ?S p \<longleftrightarrow> p = e \<or> ext S p" for p
    using assms(2) cnt by (auto simp: used_def ext_def)
  have "linked ?S"
    unfolding linked_def
  proof (intro conjI allI impI; (elim conjE)?)
    fix p assume p: "used ?S p" "s_link (?S ! p) \<noteq> -1"
    then have pe: "p \<noteq> e" using se assms(9) by auto
    then have up: "used S p" using p u by simp
    show "\<exists>j. s_link (?S ! p) = int j \<and> ext ?S j \<and> s_hash (?S ! j) = p"
    proof (cases "p = n")
      case True
      then show ?thesis using sn se x assms(8) by auto
    next
      case False
      then have "s_link (S ! p) \<noteq> -1" using p so pe by simp
      then obtain j where j: "s_link (S ! p) = int j" "ext S j" "s_hash (S ! j) = p"
        using shape_link [OF assms(1) up] by blast
      moreover have "j \<noteq> e" using ext_used [OF j(2)] assms(3) by auto
      ultimately show ?thesis using so [OF pe False] x hsh by auto
    qed
  next
    fix j assume "ext ?S j"
    then consider "j = e" | "j \<noteq> e" "ext S j" using x by blast
    then have "used ?S (s_hash (?S ! j)) \<and> s_link (?S ! s_hash (?S ! j)) = int j"
    proof cases
      case 1
      then show ?thesis
        using hsh u assms(4) sn by auto
    next
      case 2
      note b = shape_back [OF assms(1) 2(2)]
      then have "s_hash (S ! j) \<noteq> e" "s_hash (S ! j) \<noteq> n" using assms(3,5) by auto
      then show ?thesis
        using b hsh u so 2(1) by auto
    qed
    then show "used ?S (s_hash (?S ! j))" "s_link (?S ! s_hash (?S ! j)) = int j" by auto
  qed
  moreover have "ranked ?S (rank(e := Suc (rank n)))"
    unfolding ranked_def
  proof (intro allI impI)
    fix j assume "ext ?S j"
    then consider "j = e" | "j \<noteq> e" "ext S j" using x by blast
    then show "(rank(e := Suc (rank n))) (s_hash (?S ! j)) < (rank(e := Suc (rank n))) j"
    proof cases
      case 1
      then show ?thesis using n assms(2,8) by simp
    next
      case 2
      have "s_hash (S ! j) \<noteq> e" using shape_back [OF assms(1) 2(2)] assms(3) by auto
      then show ?thesis using hsh 2 r by (simp add: ranked_def)
    qed
  qed
  moreover have "\<forall>s\<in>set ?S. slot_ok s"
  proof -
    have "slot_ok (S ! n)" by (rule shape_slot_ok [OF assms(1) n(1)])
    then have "slot_ok ((S ! n)\<lparr>s_link := int e\<rparr>)" by (simp add: slot_ok_def)
    then show ?thesis
      using assms(1,6) by (auto simp: shape_def dest!: set_update_subset_insert [THEN subsetD])
  qed
  ultimately show ?thesis by (auto simp: shape_def)
qed

lemma chain_snoc:
  assumes "chain S i xs" "distinct xs" "e \<notin> set xs" "e < length S'" "length S' = length S"
    and "\<And>x. x \<in> set xs \<Longrightarrow> x \<noteq> last xs \<Longrightarrow> s_link (S' ! x) = s_link (S ! x)"
    and "s_link (S' ! last xs) = int e" "s_link (S' ! e) = -1"
  shows "chain S' i (xs @ [e])"
  using assms
proof (induction rule: chain.induct)
  case (chain_end i)
  then show ?case by (auto intro!: chain.intros)
next
  case (chain_step i j xs)
  have ne: "xs \<noteq> []" using chain_not_Nil [OF chain_step.hyps(3)] .
  then have il: "i \<noteq> last (i # xs)" using chain_step.prems(1) by auto
  have "chain S' j (xs @ [e])"
    using chain_step.IH chain_step.prems ne by auto
  moreover have "s_link (S' ! i) = int j"
    using chain_step.prems(5) [of i] il chain_step.hyps(2) by simp
  ultimately show ?case
    using chain_step.hyps(1) chain_step.prems(4) by (auto intro!: chain.chain_step)
qed

section \<open>The loop of \<open>_put_data\<close>\<close>

text \<open>The state of the loop after the first \<open>n\<close> bytes: \<open>xs\<close> are the blocks taken so far, all free in
  the initial table, and nothing else has changed.\<close>

definition building ::
  "qhasharr_s \<Rightarrow> nat \<Rightarrow> int \<Rightarrow> nat \<Rightarrow> string \<Rightarrow> string \<Rightarrow> qhasharr_s \<Rightarrow> nat list \<Rightarrow> nat \<Rightarrow> bool" where
  "building t0 idx c h k v t xs n \<longleftrightarrow>
     length (slots t) = length (slots t0) \<and> shape (slots t) \<and> chain (slots t) idx xs \<and> used (slots t) idx
   \<and> (\<forall>x\<in>set xs. \<not> used (slots t0) x)
   \<and> (\<forall>p<length (slots t0). p \<notin> set xs \<longrightarrow> slots t ! p = slots t0 ! p)
   \<and> s_count (slots t ! idx) = c \<and> s_hash (slots t ! idx) = h \<and> slot_kid (slots t ! idx) = kid k
   \<and> concat (map (blk (slots t)) xs) = take n v
   \<and> usedslots t = usedslots t0 + int (length xs) \<and> num t = num t0 + 1"

lemma chain_single: "i < length S \<Longrightarrow> s_link (S ! i) = -1 \<Longrightarrow> chain S i [i]"
  by (rule chain.chain_end)

lemma store_key_kid:
  assumes "length (s_data s) = 146" "length k < 65536"
  shows "slot_kid (store_key h k c s) = kid k" "length (s_data (store_key h k c s)) = 146"
proof -
  let ?k = "take 32 k"
  let ?d1 = "blit 96 ?k (s_data s)"
  let ?d2 = "blit 130 (qhashmd5 k) ?d1"
  have l: "length ?d1 = 146" "length ?d2 = 146" using assms(1) by simp_all
  then show "length (s_data (store_key h k c s)) = 146" by (simp add: store_key_def)
  have kl: "pair_keylen (store_key h k c s) = length k"
    using l assms(2) by (simp add: pair_keylen_def store_key_def buffer_simps)
  have ky: "take (length k) (pair_key (store_key h k c s)) = ?k"
  proof -
    have "take (length k) (pair_key (store_key h k c s)) = chunk 96 (min (length k) 32) ?d1"
      using l by (simp add: pair_key_def store_key_def take_chunk buffer_simps)
    also have "\<dots> = ?k" using assms(1) by (subst chunk_blit_same) (auto simp: min_def)
    finally show ?thesis .
  qed
  have "pair_keymd5 (store_key h k c s) = qhashmd5 k"
    using l by (simp add: pair_keymd5_def store_key_def buffer_simps)
  with kl ky show "slot_kid (store_key h k c s) = kid k"
    by (simp add: slot_kid_def kid_def)
qed

lemma slot_kid_value:
  assumes "length (s_data s) = 146" "length b \<le> 96"
  shows "slot_kid (s\<lparr>s_data := blit 0 b (s_data s), s_size := n\<rparr>) = slot_kid s"
  using assms by (simp add: slot_kid_def pair_keylen_def pair_key_def pair_keymd5_def buffer_simps)

lemma building_start:
  assumes "shape (slots t0)" "idx < length (slots t0)" "\<not> used (slots t0) idx" "c = 1 \<or> c = -1"
    and "length k < 65536" "v \<noteq> []"
  shows "building t0 idx c h k v (fst (store_block (upd_slot idx (store_key h k c) t0) idx v 0)) [idx]
           (snd (store_block (upd_slot idx (store_key h k c) t0) idx v 0))
    \<and> snd (store_block (upd_slot idx (store_key h k c) t0) idx v 0) = min (length v) 96"
proof -
  let ?S = "slots t0" and ?s = "slots t0 ! idx" and ?n = "min (length v) 96"
  let ?s' = "store_key h k c ?s"
  have d: "length (s_data ?s) = 146" and sz: "s_size ?s \<le> 146"
    using shape_slot_ok [OF assms(1,2)] by (auto simp: slot_ok_def)
  note kk = store_key_kid [OF d assms(5), of h c]
  have c: "s_count ?s' = c" "s_hash ?s' = h" "s_link ?s' = -1" by (simp_all add: store_key_def)
  have t1: "slots (upd_slot idx (store_key h k c) t0) = ?S[idx := ?s']" by (simp add: upd_slot_def)
  define s2 where "s2 = ?s'\<lparr>s_data := blit 0 (chunk 0 ?n v) (s_data ?s'), s_size := ?n\<rparr>"
  let ?r = "store_block (upd_slot idx (store_key h k c) t0) idx v 0"
  have nmod: "?n mod 256 = ?n" by (simp add: min_def)
  have r: "fst ?r = t0\<lparr>slots := ?S[idx := s2], usedslots := usedslots t0 + 1, num := num t0 + 1\<rparr>" "snd ?r = ?n"
    using assms(2,4) c nmod by (auto simp: store_block_def Let_def upd_slot_def s2_def)
  have len: "length (chunk 0 ?n v) = ?n" by simp
  have ok: "slot_ok s2" using kk(2) len assms(4) c(1) by (auto simp: slot_ok_def s2_def)
  have sh: "shape (?S[idx := s2])"
    using assms(4) c by (intro shape_new_head [OF assms(1-3) ok]) (auto simp: s2_def)
  have b: "blk (?S[idx := s2]) idx = take ?n v"
    using assms(2) kk(2) len by (simp add: blk_def s2_def) (simp add: blit_def chunk_def)
  have "slot_kid s2 = kid k"
    unfolding s2_def using slot_kid_value [OF kk(2)] kk(1) len by simp
  then have "building t0 idx c h k v (fst ?r) [idx] (snd ?r)"
    unfolding building_def r using assms(2-4) sh b c
    by (auto simp: used_def s2_def intro!: chain_single)
  then show ?thesis using r(2) by simp
qed

end
