(* ===== verification/QHasharrLoop.thy ===== *)
theory QHasharrLoop
  imports QHasharrPut
begin

text \<open>
  The block-by-block loop of \<open>_put_data\<close>: it either stores the whole value or gives back every
  slot it took.
\<close>

lemma link_block_slots:
  assumes "e < length (slots t)" "n < length (slots t)" "e \<noteq> n"
  shows "slots (link_block t n e) = (slots t)[e := zero_slot\<lparr>s_count := -2, s_hash := n, s_link := -1, s_size := 0\<rparr>,
     n := (slots t ! n)\<lparr>s_link := int e\<rparr>]"
  using assms by (simp add: link_block_def upd_slot_def)

lemma chunk_take_append: "take n v @ chunk n c v = take (n + c) v"
  by (simp add: chunk_def take_add)

lemma building_last:
  assumes "building t0 idx c h k v t xs n"
  shows "last xs \<in> set xs" "used (slots t) (last xs)" "s_link (slots t ! last xs) = -1" "idx \<in> set xs" "distinct xs"
proof -
  let ?S = "slots t"
  have b: "shape ?S" "chain ?S idx xs" "used ?S idx" using assms by (auto simp: building_def)
  have ne: "xs \<noteq> []" using chain_not_Nil [OF b(2)] .
  then show "last xs \<in> set xs" by simp
  then show u: "used ?S (last xs)" using chain_used [OF b(2,1,3)] by blast
  show "idx \<in> set xs" using chain_hd [OF b(2)] by (cases xs) auto
  show "distinct xs" using chain_distinct [OF b(2,1,3)] .
  show "s_link (?S ! last xs) = -1"
    using b(2) by (induction rule: chain.induct) (auto dest: chain_not_Nil)
qed

lemma building_step:
  assumes b: "building t0 idx c h k v t xs n" and "n < length v" and e: "find_empty t s = Some e" and "c \<noteq> -2"
    and t1: "t1 = link_block t (last xs) e"
  shows "building t0 idx c h k v (fst (store_block t1 e v n)) (xs @ [e]) (n + snd (store_block t1 e v n))
    \<and> snd (store_block t1 e v n) = min (length v - n) 146"
proof -
  let ?S = "slots t" and ?l = "last xs" and ?c = "min (length v - n) 146"
  note bl = building_last [OF b]
  have len: "length ?S = length (slots t0)" and sh: "shape ?S" and ch: "chain ?S idx xs" and ui: "used ?S idx"
    and fr: "\<forall>x\<in>set xs. \<not> used (slots t0) x"
    and eq: "\<forall>p<length (slots t0). p \<notin> set xs \<longrightarrow> ?S ! p = slots t0 ! p"
    and hd: "s_count (?S ! idx) = c" "s_hash (?S ! idx) = h" "slot_kid (?S ! idx) = kid k"
    and val: "concat (map (blk ?S) xs) = take n v"
    and cnt: "usedslots t = usedslots t0 + int (length xs)" "num t = num t0 + 1"
    using b by (auto simp: building_def)
  have el: "e < length ?S" "\<not> used ?S e" using find_empty_Some [OF e] by auto
  have us: "used ?S x" if "x \<in> set xs" for x using chain_used [OF ch sh ui that] .
  have ex: "e \<notin> set xs" "e \<noteq> ?l" using us el(2) bl(1) by auto
  have ll: "?l < length ?S" using bl(2) by (simp add: used_def)
  define s2 where "s2 = zero_slot\<lparr>s_count := -2, s_hash := ?l, s_link := -1,
      s_data := blit 0 (chunk n ?c v) (s_data zero_slot), s_size := ?c\<rparr>"
  have lc: "length (chunk n ?c v) = ?c" by simp
  have zd: "length (s_data zero_slot) = 146" by (simp add: zero_slot_def)
  define S2 where "S2 = ?S[e := s2, ?l := (?S ! ?l)\<lparr>s_link := int e\<rparr>]"
  let ?r = "store_block t1 e v n"
  have cmod: "?c mod 256 = ?c" by (simp add: min_def)
  have r: "fst ?r = t\<lparr>slots := S2, usedslots := usedslots t + 1\<rparr>" "snd ?r = ?c"
  proof -
    have s1: "slots t1 ! e = zero_slot\<lparr>s_count := -2, s_hash := ?l, s_link := -1, s_size := 0\<rparr>"
      using el ll ex by (simp add: t1 link_block_slots)
    have t1': "t1 = t\<lparr>slots := slots t1\<rparr>" by (simp add: t1 link_block_def upd_slot_def)
    have "(slots t1)[e := s2] = S2"
      using el ll ex by (simp add: t1 link_block_slots list_update_swap S2_def)
    moreover have "(slots t1 ! e)\<lparr>s_data := blit 0 (chunk n ?c v) (s_data (slots t1 ! e)), s_size := ?c mod 256\<rparr> = s2"
      unfolding cmod by (simp add: s1 s2_def)
    ultimately show "fst ?r = t\<lparr>slots := S2, usedslots := usedslots t + 1\<rparr>" "snd ?r = ?c"
      using s1 by (simp_all add: store_block_def Let_def upd_slot_def) (simp add: t1 link_block_def upd_slot_def)
  qed
  have n2: "S2 ! e = s2" "S2 ! ?l = (?S ! ?l)\<lparr>s_link := int e\<rparr>" "\<And>p. p \<noteq> e \<Longrightarrow> p \<noteq> ?l \<Longrightarrow> S2 ! p = ?S ! p"
    using el ll ex by (auto simp: S2_def)
  have len2: "length S2 = length ?S" by (simp add: S2_def)
  have same: "s_size (S2 ! x) = s_size (?S ! x)" "s_data (S2 ! x) = s_data (?S ! x)"
    "s_count (S2 ! x) = s_count (?S ! x)" "s_hash (S2 ! x) = s_hash (?S ! x)" if "x \<noteq> e" for x
    using n2 that by (cases "x = ?l"; simp)+
  have ok: "slot_ok s2" using lc zd by (simp add: slot_ok_def s2_def)
  have shape2: "shape S2"
    unfolding S2_def by (rule shape_new_ext [OF sh el bl(2,3) ok]) (simp_all add: s2_def)
  have ch2: "chain S2 idx (xs @ [e])"
  proof (rule chain_snoc [OF ch bl(5) ex(1)])
    show "s_link (S2 ! x) = s_link (?S ! x)" if "x \<in> set xs" "x \<noteq> ?l" for x
      using n2(3) [of x] that ex(1) by (metis (no_types))
    show "s_link (S2 ! ?l) = int e" unfolding n2(2) by simp
    show "s_link (S2 ! e) = -1" unfolding n2(1) by (simp add: s2_def)
  qed (use el len2 in simp_all)
  have ie: "idx \<noteq> e" using bl(4) ex by auto
  have "blk S2 x = blk ?S x" if "x \<in> set xs" for x
  proof -
    have "x \<noteq> e" using that ex by auto
    then show ?thesis using same(1,2) [of x] by (simp add: blk_def)
  qed
  then have "map (blk S2) xs = map (blk ?S) xs" by simp
  moreover have "blk S2 e = chunk n ?c v"
    using lc zd by (simp add: blk_def n2(1)) (simp add: s2_def blit_def)
  ultimately have val2: "concat (map (blk S2) (xs @ [e])) = take (n + ?c) v"
    using val chunk_take_append [of n v ?c] by (simp only: map_append concat_append list.map concat.simps append_Nil2)
  have "slot_kid (S2 ! idx) = kid k" using slot_kid_data [OF same(2) [OF ie]] hd(3) by simp
  moreover have "\<not> used (slots t0) e" using eq len el ex by (auto simp: used_def)
  moreover have "S2 ! p = slots t0 ! p" if "p < length (slots t0)" "p \<notin> set (xs @ [e])" for p
    using n2(3) [of p] eq that bl(1) by auto
  moreover have "used S2 idx" using same(3) [OF ie] ui len2 by (simp add: used_def)
  ultimately have "building t0 idx c h k v (fst ?r) (xs @ [e]) (n + snd ?r)"
    unfolding building_def r using len len2 shape2 ch2 fr same(3,4) [OF ie] hd val2 cnt by auto
  then show ?thesis using r(2) by simp
qed

lemma building_nused:
  assumes "building t0 idx c h k v t xs n"
  shows "nused (slots t) = nused (slots t0) + length xs"
proof -
  have b: "shape (slots t)" "chain (slots t) idx xs" "used (slots t) idx"
    and fr: "\<forall>x\<in>set xs. \<not> used (slots t0) x"
    and eq: "\<forall>p<length (slots t0). p \<notin> set xs \<longrightarrow> slots t ! p = slots t0 ! p"
    and len: "length (slots t) = length (slots t0)"
    using assms by (auto simp: building_def)
  have "used (slots t) p \<longleftrightarrow> used (slots t0) p \<or> p \<in> set xs" for p
    using chain_used [OF b(2,1,3), of p] eq fr len by (cases "p \<in> set xs") (auto simp: used_def)
  then have "{p. used (slots t) p} = {p. used (slots t0) p} \<union> set xs" by auto
  moreover have "{p. used (slots t0) p} \<inter> set xs = {}" using fr by auto
  ultimately show ?thesis
    using distinct_card [OF building_last(5) [OF assms]] by (simp add: nused_def card_Un_disjoint)
qed

text \<open>What a failed store leaves behind: the initial table, up to the contents of free slots.\<close>

definition restored :: "qhasharr_s \<Rightarrow> qhasharr_s \<Rightarrow> bool" where
  "restored t0 t \<longleftrightarrow> agree (slots t0) (slots t) \<and> usedslots t = usedslots t0 \<and> num t = num t0"

lemma building_undo:
  assumes b: "building t0 idx c h k v t xs n" and "shape (slots t0)" "c = 1 \<or> c = -1"
  shows "restored t0 (snd (remove_data t idx))"
proof -
  have sh: "shape (slots t)" and ch: "chain (slots t) idx xs" and ui: "used (slots t) idx"
    and fr: "\<forall>x\<in>set xs. \<not> used (slots t0) x"
    and eq: "\<forall>p<length (slots t0). p \<notin> set xs \<longrightarrow> slots t ! p = slots t0 ! p"
    and len: "length (slots t) = length (slots t0)" and hd: "s_count (slots t ! idx) = c"
    using b by (auto simp: building_def)
  have "head (slots t) idx" using ui hd assms(3) by (auto simp: head_def used_def)
  then have ok: "\<forall>s\<in>set (cleared (slots t) (set xs)). slot_ok s"
    using shape_cleared [OF sh chain_closed [OF sh _ ch]] by (simp add: shape_def)
  have "agree (slots t0) (cleared (slots t) (set xs))"
    unfolding agree_def
  proof (intro conjI allI impI ok)
    show "length (cleared (slots t) (set xs)) = length (slots t0)" using len by simp
    show "used (cleared (slots t) (set xs)) p \<longleftrightarrow> used (slots t0) p" for p
      using eq fr len by (cases "p \<in> set xs") (auto simp: used_cleared used_def)
    show "cleared (slots t) (set xs) ! p = slots t0 ! p" if "used (slots t0) p" for p
      using that fr eq len by (auto simp: used_def)
  qed
  then show ?thesis
    using b by (simp add: restored_def remove_data_chain [OF sh ui ch] building_def)
qed

lemma put_data_loop_spec:
  assumes "building t0 idx c h k v t xs n" "0 < n" "n \<le> length v" "shape (slots t0)" "c = 1 \<or> c = -1"
  shows "let need = (length v - n + 145) div 146; (r, t') = put_data_loop t idx (last xs) n v in
    if nused (slots t) + need \<le> length (slots t0)
    then r = Inr () \<and> (\<exists>ys. building t0 idx c h k v t' ys (length v) \<and> length ys = length xs + need)
    else r = Inl ENOBUFS \<and> restored t0 t'"
  using assms
proof (induction "length v - n" arbitrary: t xs n rule: less_induct)
  case less
  let ?need = "(length v - n + 145) div 146"
  have len: "length (slots t) = length (slots t0)" using less.prems(1) by (simp add: building_def)
  show ?case
  proof (cases "n < length v")
    case False
    then have n: "n = length v" using less.prems(3) by simp
    then have "put_data_loop t idx (last xs) n v = (Inr (), t)"
      by (subst put_data_loop.simps) simp
    moreover have "?need = 0" using n by simp
    ultimately show ?thesis
      using less.prems(1) n len nused_le [of "slots t"] by auto
  next
    case True
    then have need: "?need = Suc ((length v - n - 1) div 146)"
    proof -
      have "length v - n + 145 = (length v - n - 1) + 146" using True by simp
      then show ?thesis by (simp only: div_add_self2)
    qed
    show ?thesis
    proof (cases "find_empty t (last xs + 1)")
      case None
      then have "nused (slots t) = length (slots t)" by (simp add: find_empty_nused)
      moreover have "put_data_loop t idx (last xs) n v = (Inl ENOBUFS, snd (remove_data t idx))"
        using True less.prems(2) None by (subst put_data_loop.simps) simp
      ultimately show ?thesis
        using building_undo [OF less.prems(1,4,5)] need len by simp
    next
      case (Some e)
      let ?t1 = "link_block t (last xs) e"
      let ?r = "store_block ?t1 e v n"
      have c2: "c \<noteq> -2" using less.prems(5) by auto
      have st: "building t0 idx c h k v (fst ?r) (xs @ [e]) (n + snd ?r)" "snd ?r = min (length v - n) 146"
        using building_step [OF less.prems(1) True Some c2 refl] by auto
      have nu: "nused (slots (fst ?r)) = nused (slots t) + 1"
        using building_nused [OF st(1)] building_nused [OF less.prems(1)] by simp
      have loop: "put_data_loop t idx (last xs) n v = put_data_loop (fst ?r) idx (last (xs @ [e])) (n + snd ?r) v"
        using True less.prems(2) Some by (subst put_data_loop.simps) (simp add: Let_def)
      have nx: "(length v - (n + snd ?r) + 145) div 146 + 1 = ?need"
      proof (cases "length v - n \<le> 146")
        case True
        then show ?thesis using st(2) \<open>n < length v\<close> need by (simp add: div_eq_0_iff)
      next
        case False
        then have "length v - n + 145 = (length v - (n + snd ?r) + 145) + 146" using st(2) by simp
        then show ?thesis by (simp only: div_add_self2)
      qed
      have IH: "let need = (length v - (n + snd ?r) + 145) div 146; (r, t') = put_data_loop (fst ?r) idx (last (xs @ [e])) (n + snd ?r) v in
        if nused (slots (fst ?r)) + need \<le> length (slots t0)
        then r = Inr () \<and> (\<exists>ys. building t0 idx c h k v t' ys (length v) \<and> length ys = length (xs @ [e]) + need)
        else r = Inl ENOBUFS \<and> restored t0 t'"
        by (rule less.hyps [OF _ st(1)]) (use st(2) True less.prems in auto)
      show ?thesis
        using IH unfolding loop Let_def nu by (auto simp: nx [symmetric] split: prod.splits if_splits)
    qed
  qed
qed

lemma put_data_spec:
  assumes "shape (slots t0)" "idx < length (slots t0)" "\<not> used (slots t0) idx" "c = 1 \<or> c = -1"
    and "length k < 65536" "v \<noteq> []"
  shows "let (r, t') = put_data t0 idx h k v c in
    if nused (slots t0) + nblocks v \<le> length (slots t0)
    then r = Inr () \<and> (\<exists>ys. building t0 idx c h k v t' ys (length v) \<and> length ys = nblocks v)
    else r = Inl ENOBUFS \<and> restored t0 t'"
proof -
  let ?r = "store_block (upd_slot idx (store_key h k c) t0) idx v 0"
  have st: "building t0 idx c h k v (fst ?r) [idx] (snd ?r)" "snd ?r = min (length v) 96"
    using building_start [OF assms, of h] by auto
  have put: "put_data t0 idx h k v c = put_data_loop (fst ?r) idx (last [idx]) (snd ?r) v"
    using assms(2,3,6) by (simp add: put_data_def used_def)
      (subst put_data_loop.simps, simp add: Let_def)
  have nu: "nused (slots (fst ?r)) = nused (slots t0) + 1"
    using building_nused [OF st(1)] by simp
  define N where "N = (length v - snd ?r + 145) div 146"
  have N: "nblocks v = Suc N"
    using st(2) by (simp add: nblocks_def N_def min_def)
  have pos: "0 < snd ?r" "snd ?r \<le> length v" using st(2) assms(6) by auto
  obtain r t' where rt: "put_data_loop (fst ?r) idx (last [idx]) (snd ?r) v = (r, t')" by fastforce
  from put_data_loop_spec [OF st(1) pos assms(1,4)] show ?thesis
    unfolding put rt Let_def N nu by (auto simp flip: N_def split: if_splits)
qed

end
