(* ===== verification/QHasharrSpec.thy ===== *)
theory QHasharrSpec
  imports QHasharrLoop
begin

text \<open>
  \<open>qhasharr_put\<close> on the abstract map, and the refinement theorems of the table.
\<close>

section \<open>A stored entry\<close>

lemma built_slot:
  assumes "building t0 idx c h k v t ys (length v)" "used (slots t0) p"
  shows "slots t ! p = slots t0 ! p" "used (slots t) p"
proof -
  have "p \<notin> set ys" "p < length (slots t0)" "length (slots t) = length (slots t0)"
    using assms by (auto simp: building_def used_def)
  then show "slots t ! p = slots t0 ! p" "used (slots t) p"
    using assms by (auto simp: building_def used_def)
qed

lemma built_ext:
  assumes "building t0 idx c h k v t ys (length v)" "p \<in> set ys" "p \<noteq> idx"
  shows "s_count (slots t ! p) = -2"
proof -
  have b: "shape (slots t)" "chain (slots t) idx ys" "used (slots t) idx" using assms(1) by (auto simp: building_def)
  then show ?thesis
    using chain_ext [OF b(2,1,3)] chain_hd [OF b(2)] assms(2,3) by (cases ys) (auto simp: ext_def)
qed

lemma built_old:
  assumes "building t0 idx c h k v t ys (length v)" "p < length (slots t0)" "p \<noteq> idx" "s_count (slots t ! p) \<noteq> -2"
  shows "slots t ! p = slots t0 ! p"
proof -
  have "p \<notin> set ys" using built_ext [OF assms(1) _ assms(3)] assms(4) by auto
  then show ?thesis using assms(1,2) by (auto simp: building_def)
qed

lemma built_count:
  assumes b: "building t0 idx c h k v t ys (length v)" and c: "c = 1 \<or> c = -1"
    and p: "p < length (slots t0)" "p \<noteq> idx"
  shows "s_count (slots t ! p) > 0 \<or> s_count (slots t ! p) = -1 \<longleftrightarrow>
         s_count (slots t0 ! p) > 0 \<or> s_count (slots t0 ! p) = -1"
    and "s_count (slots t0 ! p) > 0 \<or> s_count (slots t0 ! p) = -1 \<Longrightarrow> slots t ! p = slots t0 ! p"
proof -
  show 2: "slots t ! p = slots t0 ! p" if "s_count (slots t0 ! p) > 0 \<or> s_count (slots t0 ! p) = -1"
    using built_slot(1) [OF b, of p] that p(1) by (auto simp: used_def)
  show "s_count (slots t ! p) > 0 \<or> s_count (slots t ! p) = -1 \<longleftrightarrow>
         s_count (slots t0 ! p) > 0 \<or> s_count (slots t0 ! p) = -1"
  proof
    assume "s_count (slots t ! p) > 0 \<or> s_count (slots t ! p) = -1"
    moreover from this have "slots t ! p = slots t0 ! p" by (intro built_old [OF b p]) auto
    ultimately show "s_count (slots t0 ! p) > 0 \<or> s_count (slots t0 ! p) = -1" by simp
  next
    assume a: "s_count (slots t0 ! p) > 0 \<or> s_count (slots t0 ! p) = -1"
    then show "s_count (slots t ! p) > 0 \<or> s_count (slots t ! p) = -1" by (simp add: 2 [OF a])
  qed
qed

lemma built_head:
  assumes b: "building t0 idx c h k v t ys (length v)" and c: "c = 1 \<or> c = -1"
  shows "head (slots t) p \<longleftrightarrow> p = idx \<or> head (slots t0) p" "\<not> head (slots t0) idx"
proof -
  have i: "idx \<in> set ys" using building_last(4) [OF b] .
  have f: "\<not> used (slots t0) idx" "length (slots t) = length (slots t0)" "s_count (slots t ! idx) = c"
    "idx < length (slots t)"
    using b i by (auto simp: building_def used_def)
  show "\<not> head (slots t0) idx" using f(1) head_used by blast
  show "head (slots t) p \<longleftrightarrow> p = idx \<or> head (slots t0) p"
  proof (cases "p = idx")
    case True
    then show ?thesis using f c by (auto simp: head_def)
  next
    case False
    then show ?thesis
      using built_count(1) [OF b c _ False] f(2) by (auto simp: head_def)
  qed
qed

lemma built_value:
  assumes b: "building t0 idx c h k v t ys (length v)" and sh: "shape (slots t0)"
  shows "value_of (slots t) idx = v" "used (slots t0) p \<Longrightarrow> value_of (slots t) p = value_of (slots t0) p"
    "chain_of (slots t) idx = ys" "used (slots t0) p \<Longrightarrow> chain_of (slots t) p = chain_of (slots t0) p"
proof -
  have ch: "chain (slots t) idx ys" and v: "concat (map (blk (slots t)) ys) = v"
    using b by (auto simp: building_def)
  then show "value_of (slots t) idx = v" by (simp add: value_of_def chain_of_eq [OF ch])
  show "chain_of (slots t) idx = ys" by (rule chain_of_eq [OF ch])
next
  assume p: "used (slots t0) p"
  obtain xs where xs: "chain (slots t0) p xs" using chain_exists [OF sh p] by blast
  have same: "slots t ! x = slots t0 ! x" if "x \<in> set xs" for x
    using built_slot(1) [OF b chain_used [OF xs sh p that]] .
  have ch: "chain (slots t) p xs"
    using xs by (rule chain_cong) (use same b in \<open>auto simp: building_def\<close>)
  have "map (blk (slots t)) xs = map (blk (slots t0)) xs" using same by (simp add: blk_def)
  then show "value_of (slots t) p = value_of (slots t0) p"
    by (simp only: value_of_def chain_of_eq [OF xs] chain_of_eq [OF ch])
  show "chain_of (slots t) p = chain_of (slots t0) p" by (simp only: chain_of_eq [OF xs] chain_of_eq [OF ch])
qed

lemma built_packed:
  assumes b: "building t0 idx c h k v t ys (length v)" and c: "c = 1 \<or> c = -1"
    and sh: "shape (slots t0)" and pk: "packed (slots t0)" and l: "length ys = nblocks v"
  shows "packed (slots t)"
  using built_head(1) [OF b c] built_value [OF b sh] head_used pk l by (auto simp: packed_def)

lemma built_entry:
  assumes b: "building t0 idx c h k v t ys (length v)" and c: "c = 1 \<or> c = -1"
  shows "entry (slots t) b' q p \<longleftrightarrow> entry (slots t0) b' q p \<or> p = idx \<and> b' = h \<and> q = kid k"
proof (cases "p = idx")
  case True
  then show ?thesis
    using built_head(1) [OF b c, of idx] built_head(2) [OF b c] b by (auto simp: entry_def building_def)
next
  case False
  have "slots t ! p = slots t0 ! p" if "head (slots t0) p"
    using built_slot(1) [OF b head_used [OF that]] .
  then show ?thesis using False built_head(1) [OF b c, of p] by (auto simp: entry_def)
qed

lemma built_map:
  assumes b: "building t0 idx c h k v t ys (length v)" and c: "c = 1 \<or> c = -1"
    and sh: "shape (slots t0)" and ko: "keys_ok (slots t0)" and new: "\<nexists>p. entry (slots t0) h (kid k) p"
  shows "keys_ok (slots t)" "tbl_map (slots t) = (tbl_map (slots t0))((h, kid k) \<mapsto> v)"
proof -
  note e = built_entry [OF b c]
  show ko': "keys_ok (slots t)"
    unfolding keys_ok_def e using ko new unfolding keys_ok_def by blast
  have val: "value_of (slots t) p = value_of (slots t0) p" if "entry (slots t0) b' q p" for b' q p
    using built_value(2) [OF b sh head_used] that by (simp add: entry_def)
  show "tbl_map (slots t) = (tbl_map (slots t0))((h, kid k) \<mapsto> v)"
  proof (rule map_graph_ext)
    fix x :: "nat \<times> key_id" and w
    obtain b' q where x: "x = (b', q)" by (cases x)
    have "tbl_map (slots t) (b', q) = Some w \<longleftrightarrow> (\<exists>p. entry (slots t) b' q p \<and> value_of (slots t) p = w)"
      by (rule tbl_map_Some [OF ko'])
    also have "\<dots> \<longleftrightarrow> (if (b', q) = (h, kid k) then v = w
        else \<exists>p. entry (slots t0) b' q p \<and> value_of (slots t0) p = w)"
      using new built_value(1) [OF b sh] val [of b' q] unfolding e by (auto; metis)
    finally show "tbl_map (slots t) x = Some w \<longleftrightarrow> ((tbl_map (slots t0))((h, kid k) \<mapsto> v)) x = Some w"
      using tbl_map_Some [OF ko] by (auto simp: x)
  qed
qed

lemma built_collisions:
  assumes b: "building t0 idx c h k v t ys (length v)" and c: "c = 1 \<or> c = -1"
  shows "collisions (slots t) p = (if c = -1 \<and> p = h then insert idx (collisions (slots t0) p) else collisions (slots t0) p)"
    and "idx \<notin> collisions (slots t0) p"
proof -
  have i: "idx \<in> set ys" using building_last(4) [OF b] .
  have f: "\<not> used (slots t0) idx" "length (slots t) = length (slots t0)" "s_count (slots t ! idx) = c"
    "s_hash (slots t ! idx) = h" "idx < length (slots t)"
    using b i by (auto simp: building_def used_def)
  show n: "idx \<notin> collisions (slots t0) p" for p using f(1,2,5) by (auto simp: collisions_def used_def)
  have x: "x \<in> collisions (slots t) p \<longleftrightarrow> x \<in> collisions (slots t0) p" if "x \<noteq> idx" for x
  proof
    assume "x \<in> collisions (slots t) p"
    then have a: "x < length (slots t0)" "s_count (slots t ! x) = -1" "s_hash (slots t ! x) = p"
      using f(2) by (auto simp: collisions_def)
    moreover have "slots t ! x = slots t0 ! x" using built_old [OF b a(1) that] a(2) by simp
    ultimately show "x \<in> collisions (slots t0) p" by (simp add: collisions_def)
  next
    assume "x \<in> collisions (slots t0) p"
    then have a: "x < length (slots t0)" "s_count (slots t0 ! x) = -1" "s_hash (slots t0 ! x) = p"
      by (auto simp: collisions_def)
    moreover have "slots t ! x = slots t0 ! x" using built_count(2) [OF b c a(1) that] a(2) by simp
    ultimately show "x \<in> collisions (slots t) p" using f(2) by (simp add: collisions_def)
  qed
  have "idx \<in> collisions (slots t) p \<longleftrightarrow> c = -1 \<and> p = h"
    using f by (auto simp: collisions_def)
  then show "collisions (slots t) p = (if c = -1 \<and> p = h then insert idx (collisions (slots t0) p) else collisions (slots t0) p)"
    using x n [of p] by (intro set_eqI) (metis insert_iff)
qed

lemma built_buckets_lead:
  assumes b: "building t0 idx 1 idx k v t ys (length v)" and bk: "buckets (slots t0)"
  shows "buckets (slots t)"
proof -
  have i: "idx \<in> set ys" using building_last(4) [OF b] .
  have f: "\<not> used (slots t0) idx" "length (slots t) = length (slots t0)" "s_count (slots t ! idx) = 1"
    "s_hash (slots t ! idx) = idx" "idx < length (slots t)"
    using b i by (auto simp: building_def used_def)
  have col: "collisions (slots t) p = collisions (slots t0) p" for p
    using built_collisions(1) [OF b] by simp
  have z: "s_count (slots t0 ! idx) = 0" using f by (simp add: used_def)
  have "collisions (slots t0) idx = {}"
    using bk z by (auto simp: collisions_def buckets_def)
  then have cidx: "card (collisions (slots t0) idx) = 0" by simp
  have old: "slots t ! p = slots t0 ! p"
    if "p < length (slots t0)" "p \<noteq> idx" "s_count (slots t ! p) > 0 \<or> s_count (slots t ! p) = -1" for p
    using built_old [OF b that(1,2)] that(3) by auto
  show ?thesis
    unfolding buckets_def
  proof (intro conjI allI impI)
    fix p assume p: "p < length (slots t)" "s_count (slots t ! p) > 0"
    have "s_hash (slots t ! p) = p \<and> s_count (slots t ! p) = 1 + int (card (collisions (slots t) p))"
      using p old [of p] bucketsD(1) [OF bk, of p] f cidx col by (cases "p = idx") auto
    then show "s_hash (slots t ! p) = p" "s_count (slots t ! p) = 1 + int (card (collisions (slots t) p))" by auto
  next
    fix j assume j: "j < length (slots t)" "s_count (slots t ! j) = -1"
    then have ji: "j \<noteq> idx" using f by auto
    then have s: "slots t ! j = slots t0 ! j" using old [of j] j f by simp
    note bb = bucketsD(2) [OF bk, of j]
    have l: "s_hash (slots t0 ! j) < length (slots t0)" "s_count (slots t0 ! s_hash (slots t0 ! j)) > 0"
      using bb j s f by auto
    have "s_hash (slots t0 ! j) \<noteq> idx" using l z by auto
    then show "s_hash (slots t ! j) < length (slots t)" "s_count (slots t ! s_hash (slots t ! j)) > 0"
      using l s f built_count(2) [OF b _ l(1)] by auto
  qed
qed

lemma built_buckets_coll:
  assumes b: "building t0 idx (-1) h k v t ys (length v)" and bk: "buckets (slots t0)"
    and h: "h < length (slots t0)" "s_count (slots t0 ! h) > 0"
  shows "buckets (recount (slots t) h (s_count (slots t0 ! h) + 1))" "slots t ! h = slots t0 ! h" "head (slots t) h"
proof -
  let ?S = "recount (slots t) h (s_count (slots t0 ! h) + 1)"
  have c: "(-1::int) = 1 \<or> (-1::int) = -1" by simp
  have i: "idx \<in> set ys" using building_last(4) [OF b] .
  have f: "\<not> used (slots t0) idx" "length (slots t) = length (slots t0)" "s_count (slots t ! idx) = -1"
    "s_hash (slots t ! idx) = h" "idx < length (slots t)"
    using b i by (auto simp: building_def used_def)
  have hi: "h \<noteq> idx" using h f(1) by (auto simp: used_def)
  show hs: "slots t ! h = slots t0 ! h" using built_count(2) [OF b c h(1) hi] h(2) by simp
  show "head (slots t) h" using h f(2) hs by (simp add: head_def)
  have cnt: "s_count (?S ! p) = (if p = h then s_count (slots t0 ! h) + 1 else s_count (slots t ! p))"
    if "p < length (slots t)" for p
    using that by (simp add: nth_recount)
  have col: "collisions ?S p = (if p = h then insert idx (collisions (slots t0) p) else collisions (slots t0) p)" for p
  proof -
    have "collisions ?S p = collisions (slots t) p"
      using h cnt hs f(2) by (auto simp: collisions_def split: if_splits)
    then show ?thesis using built_collisions(1) [OF b c] by simp
  qed
  have old: "slots t ! p = slots t0 ! p"
    if "p < length (slots t0)" "p \<noteq> idx" "s_count (slots t ! p) > 0 \<or> s_count (slots t ! p) = -1" for p
    using built_old [OF b that(1,2)] that(3) by auto
  show "buckets ?S"
    unfolding buckets_def
  proof (intro conjI allI impI)
    fix p assume p: "p < length ?S" "s_count (?S ! p) > 0"
    then have pi: "p \<noteq> idx" using cnt [of idx] f hi by auto
    have s: "slots t ! p = slots t0 ! p"
      using p cnt [of p] pi old [of p] hs f(2) by (cases "p = h") auto
    then have pos: "s_count (slots t0 ! p) > 0" using p cnt [of p] h by (cases "p = h") auto
    note bb = bucketsD(1) [OF bk _ pos]
    show "s_hash (?S ! p) = p" using bb p s f(2) by simp
    show "s_count (?S ! p) = 1 + int (card (collisions ?S p))"
      using bb p s f(2) cnt [of p] col [of p] built_collisions(2) [OF b c, of p] by (cases "p = h") simp_all
  next
    fix j assume j: "j < length ?S" "s_count (?S ! j) = -1"
    then have jh: "j \<noteq> h" using cnt [of h] h f(2) by auto
    have "s_hash (slots t ! j) < length (slots t0) \<and> s_count (slots t0 ! s_hash (slots t ! j)) > 0"
    proof (cases "j = idx")
      case True
      then show ?thesis using f h by simp
    next
      case False
      then show ?thesis
        using old [of j] j jh cnt [of j] f(2) bucketsD(2) [OF bk, of j] by simp
    qed
    moreover have "s_count (?S ! l) > 0" if "l < length (slots t0)" "s_count (slots t0 ! l) > 0" for l
    proof -
      have "l \<noteq> idx" using that f by (auto simp: used_def)
      then show ?thesis using built_count(2) [OF b c that(1)] that cnt [of l] f(2) by auto
    qed
    ultimately show "s_hash (?S ! j) < length ?S" "s_count (?S ! s_hash (?S ! j)) > 0"
      using f(2) by simp_all
  qed
qed

section \<open>Moving a foreign slot out of the way\<close>

lemma moved_counts:
  assumes m: "moved S S' h e" and x: "x < length S"
  shows "s_count (S' ! x) = (if x = e then s_count (S ! h) else if x = h then 0 else s_count (S ! x))"
proof -
  have uh: "used S h" and ue: "\<not> used S e" and eh: "e \<noteq> h" and len: "length S' = length S"
    using m by (auto simp: moved_def)
  have pre: "\<exists>q. used S q \<and> y = reidx h e q" if "used S' y" for y using m that by (simp add: moved_def)
  consider "x = e" | "x = h" | "x \<noteq> e" "x \<noteq> h" "used S x" | "x \<noteq> e" "x \<noteq> h" "\<not> used S x" by blast
  then show ?thesis
  proof cases
    case 1
    then show ?thesis using m uh by (auto simp: moved_def reidx_def)
  next
    case 2
    have "\<not> used S' h" using pre [of h] eh by (auto simp: reidx_def split: if_splits)
    then show ?thesis using 2 eh x len by (simp add: used_def)
  next
    case 3
    then show ?thesis using m by (auto simp: moved_def reidx_def)
  next
    case 4
    then have "\<not> used S' x" using pre [of x] by (auto simp: reidx_def split: if_splits)
    then show ?thesis using 4 x len by (simp add: used_def)
  qed
qed

lemma moved_hash:
  assumes m: "moved S S' h e" and "head S p"
  shows "s_hash (S' ! reidx h e p) = s_hash (S ! p)"
  using m head_used [OF assms(2)] head_not_ext [OF assms(2)] by (simp add: moved_def)

lemma moved_collisions:
  assumes m: "moved S S' h e"
  shows "collisions S' b = reidx h e ` collisions S b" "card (collisions S' b) = card (collisions S b)"
proof -
  have ue: "\<not> used S e" and eh: "e \<noteq> h" and len: "length S' = length S" and el: "e < length S" and uh: "used S h"
    using m by (auto simp: moved_def)
  have hc: "head S p" if "p < length S" "s_count (S ! p) = -1" for p using that by (simp add: head_def)
  show col: "collisions S' b = reidx h e ` collisions S b"
  proof (intro set_eqI iffI)
    fix x assume "x \<in> collisions S' b"
    then have x: "x < length S" "s_count (S' ! x) = -1" "s_hash (S' ! x) = b" using len by (auto simp: collisions_def)
    define p where "p = (if x = e then h else x)"
    have xh: "x \<noteq> h" using moved_counts [OF m x(1)] x(2) eh by auto
    have p: "p < length S" "s_count (S ! p) = -1" "x = reidx h e p"
      using moved_counts [OF m x(1)] x(1,2) xh uh by (auto simp: p_def reidx_def used_def split: if_splits)
    moreover have "s_hash (S ! p) = b" using moved_hash [OF m hc [OF p(1,2)]] p(3) x(3) by simp
    ultimately show "x \<in> reidx h e ` collisions S b" by (auto simp: collisions_def)
  next
    fix x assume "x \<in> reidx h e ` collisions S b"
    then obtain p where p: "x = reidx h e p" "p < length S" "s_count (S ! p) = -1" "s_hash (S ! p) = b"
      by (auto simp: collisions_def)
    have "p \<noteq> e" using ue p by (auto simp: used_def)
    then have "x < length S" "s_count (S' ! x) = -1"
      using p el moved_counts [OF m, of x] by (auto simp: reidx_def split: if_splits)
    then show "x \<in> collisions S' b"
      using moved_hash [OF m hc [OF p(2,3)]] p(1,4) len by (simp add: collisions_def)
  qed
  have "collisions S b \<subseteq> {p. used S p}" by (auto simp: collisions_def used_def)
  then show "card (collisions S' b) = card (collisions S b)"
    unfolding col by (intro card_image inj_on_subset [OF reidx_inj [OF m]])
qed

lemma moved_buckets:
  assumes m: "moved S S' h e" and bk: "buckets S" and h: "\<not> s_count (S ! h) > 0"
  shows "buckets S'"
proof -
  have ue: "\<not> used S e" and eh: "e \<noteq> h" and len: "length S' = length S" and el: "e < length S"
    using m by (auto simp: moved_def)
  have pos: "s_count (S' ! x) > 0 \<longleftrightarrow> s_count (S ! x) > 0" "s_count (S ! x) > 0 \<Longrightarrow> s_count (S' ! x) = s_count (S ! x)"
    if "x < length S" for x
    using moved_counts [OF m that] h ue el by (auto simp: used_def)
  show ?thesis
    unfolding buckets_def
  proof (intro conjI allI impI)
    fix p assume "p < length S'" "s_count (S' ! p) > 0"
    then have p: "p < length S" "s_count (S ! p) > 0" using pos len by auto
    note bb = bucketsD(1) [OF bk p]
    have "p \<noteq> h" using p h by auto
    then show "s_hash (S' ! p) = p"
      using moved_hash [OF m, of p] bb p by (auto simp: head_def reidx_def)
    show "s_count (S' ! p) = 1 + int (card (collisions S' p))"
      using pos(2) [OF p] bb moved_collisions(2) [OF m, of p] by simp
  next
    fix j assume j: "j < length S'" "s_count (S' ! j) = -1"
    then have "j \<in> reidx h e ` collisions S (s_hash (S' ! j))"
      using moved_collisions(1) [OF m, of "s_hash (S' ! j)"] by (auto simp: collisions_def)
    then obtain p where p: "p < length S" "s_count (S ! p) = -1" "s_hash (S ! p) = s_hash (S' ! j)"
      by (auto simp: collisions_def)
    note bb = bucketsD(2) [OF bk p(1,2)]
    then show "s_hash (S' ! j) < length S'" "s_count (S' ! s_hash (S' ! j)) > 0"
      using p(3) pos(1) len by auto
  qed
qed

lemma move_slot_reloc:
  assumes inv: "tbl_inv t" and h: "h < length (slots t)" "s_count (slots t ! h) < 0"
    and e: "e < length (slots t)" "\<not> used (slots t) e"
  shows "move_slot t e h = t\<lparr>slots := reloc (slots t) h e\<rparr>"
proof -
  let ?S = "slots t"
  have sh: "shape ?S" using inv by (simp add: tbl_inv_def)
  have uh: "used ?S h" using h by (simp add: used_def)
  have eh: "e \<noteq> h" using uh e by auto
  have ce: "s_count (?S ! e) = 0" using e by (simp add: used_def)
  have c: "s_count (?S ! h) = -1 \<or> s_count (?S ! h) = -2"
    using h(2) shape_slot_ok [OF sh h(1)] by (auto simp: slot_ok_def)
  let ?S1 = "?S[e := ?S ! h, h := (?S ! h)\<lparr>s_count := 0\<rparr>]"
  have t2: "snd (remove_slot (snd (copy_slot t e h)) h) = t\<lparr>slots := ?S1\<rparr>"
    using h ce eh e(1) by (simp add: copy_slot_def remove_slot_def upd_slot_def)
  have s: "?S1 ! e = ?S ! h" using e(1) eh by simp
  have mom: "s_hash (?S ! h) \<noteq> e" if "s_count (?S ! h) = -2"
    using shape_back [OF sh, of h] that h e(2) by (auto simp: ext_def)
  show ?thesis
    using c mom eh e(1)
    by (auto simp: move_slot_def t2 s Let_def reloc_def upd_slot_def nth_list_update split: if_splits)
qed

lemma tbl_inv_moved:
  assumes inv: "tbl_inv t" and m: "moved (slots t) S' h e" and h: "\<not> s_count (slots t ! h) > 0"
  shows "tbl_inv (t\<lparr>slots := S'\<rparr>)" "tbl_map S' = tbl_map (slots t)" "length S' = length (slots t)"
proof -
  have sh: "shape (slots t)" and bk: "buckets (slots t)" and ko: "keys_ok (slots t)" using inv by (auto simp: tbl_inv_def)
  note sm = moved_heads [OF m sh]
  show len: "length S' = length (slots t)" using m by (simp add: moved_def)
  show "tbl_map S' = tbl_map (slots t)" by (rule same_heads_all [OF sm ko])
  show "tbl_inv (t\<lparr>slots := S'\<rparr>)"
    using inv moved_shape [OF m sh] moved_buckets [OF m bk h] same_heads_keys_ok [OF sm ko] same_heads_card [OF sm]
      same_heads_packed [OF sm] moved_card_used [OF m] len by (simp add: tbl_inv_def maxslots_def used_set_used)
qed

section \<open>Storing under a new key\<close>

text \<open>\<open>stored t bq v r t'\<close>: with room, the value is stored; without, the call fails and the map is as
  before.\<close>

definition stored :: "qhasharr_s \<Rightarrow> nat \<times> key_id \<Rightarrow> string \<Rightarrow> unit qres \<times> qhasharr_s \<Rightarrow> bool" where
  "stored t bq v res \<longleftrightarrow>
     tbl_inv (snd res) \<and> maxslots (snd res) = maxslots t
   \<and> (if usedslots t + int (nblocks v) \<le> int (maxslots t)
      then fst res = Inr () \<and> tbl_map (slots (snd res)) = (tbl_map (slots t))(bq \<mapsto> v)
         \<and> usedslots (snd res) = usedslots t + int (nblocks v)
      else fst res = Inl ENOBUFS \<and> tbl_map (slots (snd res)) = tbl_map (slots t)
         \<and> usedslots (snd res) = usedslots t)"

lemma usedslots_nused: "tbl_inv t \<Longrightarrow> usedslots t = int (nused (slots t))"
  by (simp add: tbl_inv_def used_set_used nused_def)

lemma room_iff:
  "tbl_inv t \<Longrightarrow> nused (slots t) + n \<le> length (slots t) \<longleftrightarrow> usedslots t + int n \<le> int (maxslots t)"
  using usedslots_nused [of t] by (simp add: maxslots_def) linarith

lemma restored_stored:
  assumes "tbl_inv t" "restored t t'" "\<not> usedslots t + int (nblocks v) \<le> int (maxslots t)"
  shows "stored t bq v (Inl ENOBUFS, t')"
  using agree_inv [of t t'] assms by (simp add: restored_def stored_def)

lemma put_data_lead:
  assumes inv: "tbl_inv t" and b: "b < length (slots t)" "\<not> used (slots t) b" and k: "length k < 65536" "v \<noteq> []"
  shows "stored t (b, kid k) v (put_data t b b k v 1)"
proof -
  have sh: "shape (slots t)" and bk: "buckets (slots t)" and ko: "keys_ok (slots t)" using inv by (auto simp: tbl_inv_def)
  obtain r t' where rt: "put_data t b b k v 1 = (r, t')" by fastforce
  have new: "\<nexists>p. entry (slots t) b (kid k) p"
    using bk b by (auto simp: entry_def head_def used_def buckets_def)
  note room = room_iff [OF inv, of "nblocks v"]
  note spec = put_data_spec [OF sh b _ k, of 1 b, unfolded rt Let_def prod.case, simplified]
  show ?thesis
  proof (cases "nused (slots t) + nblocks v \<le> length (slots t)")
    case False
    then show ?thesis using spec restored_stored [OF inv] room rt by simp
  next
    case True
    then obtain ys where r: "r = Inr ()" and bd: "building t b 1 b k v t' ys (length v)" and l: "length ys = nblocks v"
      using spec by auto
    have c: "(1::int) = 1 \<or> (1::int) = -1" by simp
    have "heads (slots t') = insert b (heads (slots t))" "b \<notin> heads (slots t)"
      using built_head [OF bd c] by (auto simp: heads_def)
    then have "card (heads (slots t')) = card (heads (slots t)) + 1" by simp
    then have "tbl_inv t'"
      using inv bd l building_nused [OF bd] built_buckets_lead [OF bd bk] built_map(1) [OF bd c sh ko new]
        built_packed [OF bd c sh _ l]
      by (simp add: tbl_inv_def building_def maxslots_def used_set_used nused_def)
    then show ?thesis
      using True room rt r bd l built_map(2) [OF bd c sh ko new]
      by (simp add: stored_def building_def maxslots_def)
  qed
qed

lemma put_data_coll:
  assumes inv: "tbl_inv t" and e: "e < length (slots t)" "\<not> used (slots t) e"
    and b: "b < length (slots t)" "s_count (slots t ! b) > 0" "s_count (slots t ! b) < 32767"
    and new: "\<nexists>p. entry (slots t) b (kid k) p" and k: "length k < 65536" "v \<noteq> []"
  shows "stored t (b, kid k) v
    (case put_data t e b k v (-1) of
       (Inl err, t') \<Rightarrow> (Inl err, t')
     | (Inr _, t') \<Rightarrow> (Inr (), upd_slot b (\<lambda>s. s\<lparr>s_count := short_of (s_count s + 1)\<rparr>) t'))"
proof -
  have sh: "shape (slots t)" and bk: "buckets (slots t)" and ko: "keys_ok (slots t)" using inv by (auto simp: tbl_inv_def)
  obtain r t' where rt: "put_data t e b k v (-1) = (r, t')" by fastforce
  note room = room_iff [OF inv, of "nblocks v"]
  note spec = put_data_spec [OF sh e _ k, of "-1" b, unfolded rt Let_def prod.case, simplified]
  show ?thesis
  proof (cases "nused (slots t) + nblocks v \<le> length (slots t)")
    case False
    then show ?thesis using spec restored_stored [OF inv] room rt by simp
  next
    case True
    then obtain ys where r: "r = Inr ()" and bd: "building t e (-1) b k v t' ys (length v)" and l: "length ys = nblocks v"
      using spec by auto
    have c: "(-1::int) = 1 \<or> (-1::int) = -1" by simp
    note cb = built_buckets_coll [OF bd bk b(1,2)]
    let ?c = "s_count (slots t ! b) + 1"
    have sh': "short_of ?c = ?c" using b by (simp add: short_of_def)
    have c1: "?c > 0 \<or> ?c = -1" using b by simp
    let ?t = "upd_slot b (\<lambda>s. s\<lparr>s_count := short_of (s_count s + 1)\<rparr>) t'"
    have S: "slots ?t = recount (slots t') b ?c" "usedslots ?t = usedslots t'" "num ?t = num t'"
      by (simp_all add: upd_slot_def recount_def cb(2) sh')
    have shape': "shape (slots t')" using bd by (simp add: building_def)
    note sm = same_heads_recount [OF cb(3) c1]
    have hd: "heads (recount (slots t') b ?c) = insert e (heads (slots t))" "e \<notin> heads (slots t)"
      using built_head [OF bd c] head_recount [OF cb(3) c1] by (auto simp: heads_def)
    have us: "{p. used (recount (slots t') b ?c) p} = {p. used (slots t') p}" using used_recount [OF cb(3) c1] by simp
    note ko' = built_map(1) [OF bd c sh ko new]
    have "tbl_inv ?t"
      using inv bd l building_nused [OF bd] cb(1) shape_recount [OF shape' cb(3) c1] same_heads_keys_ok [OF sm ko'] hd us
        same_heads_packed [OF sm built_packed [OF bd c sh _ l]]
      by (simp add: tbl_inv_def building_def maxslots_def used_set_used nused_def S)
    then show ?thesis
      using True room rt r bd l built_map(2) [OF bd c sh ko new] same_heads_all [OF sm ko']
      by (simp add: stored_def building_def maxslots_def S)
  qed
qed

lemma stored_moved:
  assumes "tbl_map (slots t') = tbl_map (slots t)" "maxslots t' = maxslots t" "usedslots t' = usedslots t" "stored t' bq v res"
  shows "stored t bq v res"
  using assms by (simp add: stored_def)

lemma bucket_count:
  assumes "tbl_inv t" "b < length (slots t)" "s_count (slots t ! b) > 0"
  shows "s_count (slots t ! b) = int (bucket_size (slots t) b)"
proof -
  have "{i. i < length (slots t) \<and> same_bucket (slots t) b i} = {i \<in> heads (slots t). s_hash (slots t ! i) = b}"
    by (auto simp: same_bucket_def heads_def head_def)
  then show ?thesis
    using bucket_members [of "slots t" b] assms by (simp add: tbl_inv_def bucket_size_def)
qed

lemma put_fresh:
  assumes inv: "tbl_inv t" and k: "length k < 65536" "v \<noteq> []"
    and new: "tbl_map (slots t) (key_of t k) = None" and small: "bucket_size (slots t) (bucket t k) < 32767"
  shows "stored t (key_of t k) v (qhasharr_put t k v)"
proof -
  let ?S = "slots t" and ?b = "bucket t k"
  have m: "0 < maxslots t" and sh: "shape ?S" and bk: "buckets ?S" using inv by (auto simp: tbl_inv_def)
  have b: "?b < length ?S" using bucket_less [OF m] by (simp add: maxslots_def)
  have ne: "\<nexists>p. entry ?S ?b (kid k) p" using new by (simp add: key_of_def tbl_map_None)
  have gi: "get_idx t k ?b = None"
    using get_idx_entry [OF inv bucket_less [OF m], of k] ne by (metis not_None_eq)
  show ?thesis
  proof (cases "usedslots t \<ge> int (maxslots t)")
    case True
    then have "qhasharr_put t k v = (Inl ENOBUFS, t)" using m by (subst qhasharr_put.simps) simp
    then show ?thesis using True inv by (simp add: stored_def nblocks_def)
  next
    case False
    then have free: "nused ?S \<noteq> length ?S" using usedslots_nused [OF inv] by (auto simp: maxslots_def)
    consider (zero) "s_count (?S ! ?b) = 0" | (pos) "s_count (?S ! ?b) > 0" | (neg) "s_count (?S ! ?b) < 0" by linarith
    then show ?thesis
    proof cases
      case zero
      then have "qhasharr_put t k v = put_data t ?b ?b k v 1"
        using False m by (subst qhasharr_put.simps) (simp add: Let_def)
      then show ?thesis
        using put_data_lead [OF inv b _ k] zero by (simp add: key_of_def used_def)
    next
      case pos
      obtain e where e: "find_empty t ?b = Some e" using free find_empty_nused [of t ?b] by auto
      have c: "s_count (?S ! ?b) < 32767" using bucket_count [OF inv b pos] small by simp
      have "qhasharr_put t k v = (case put_data t e ?b k v (-1) of (Inl err, t') \<Rightarrow> (Inl err, t')
          | (Inr _, t') \<Rightarrow> (Inr (), upd_slot ?b (\<lambda>s. s\<lparr>s_count := short_of (s_count s + 1)\<rparr>) t'))"
        using False m pos gi e by (subst qhasharr_put.simps) (simp add: Let_def split: sum.splits prod.splits)
      then show ?thesis
        using put_data_coll [OF inv _ _ b pos c ne k] find_empty_Some [OF e] by (simp add: key_of_def)
    next
      case neg
      obtain e where e: "find_empty t (?b + 1) = Some e" using free find_empty_nused [of t "?b + 1"] by auto
      then have el: "e < length ?S" "\<not> used ?S e" using find_empty_Some by auto
      have ub: "used ?S ?b" using neg b by (simp add: used_def)
      let ?t = "t\<lparr>slots := reloc ?S ?b e\<rparr>"
      note mv = moved_reloc [OF sh ub el(2,1)]
      have np: "\<not> s_count (?S ! ?b) > 0" using neg by simp
      note ti = tbl_inv_moved [OF inv mv np]
      have "\<not> used (reloc ?S ?b e) ?b"
        using moved_counts [OF mv b] mv b by (auto simp: used_def moved_def)
      then have "stored ?t (?b, kid k) v (put_data ?t ?b ?b k v 1)"
        using put_data_lead [OF ti(1) _ _ k, of ?b] b by simp
      moreover have "qhasharr_put t k v = put_data ?t ?b ?b k v 1"
        using False m neg e move_slot_reloc [OF inv b neg el] by (subst qhasharr_put.simps) (simp add: Let_def)
      ultimately show ?thesis
        using stored_moved [of ?t t] ti by (simp add: key_of_def maxslots_def)
    qed
  qed
qed

lemma bucket_maxslots: "maxslots t' = maxslots t \<Longrightarrow> bucket t' k = bucket t k"
  by (simp add: bucket_def)

lemma put_existing:
  assumes inv: "tbl_inv t" and k: "length k < 65536" "v \<noteq> []"
    and old: "tbl_map (slots t) (key_of t k) = Some w" and small: "bucket_size (slots t) (bucket t k) < 32767"
    and room: "usedslots t < int (maxslots t)"
  shows "\<exists>t1 n. removed t (key_of t k) n t1 \<and> stored t1 (key_of t k) v (qhasharr_put t k v)"
proof -
  let ?S = "slots t" and ?b = "bucket t k"
  have m: "0 < maxslots t" and bk: "buckets ?S" using inv by (auto simp: tbl_inv_def)
  obtain i t1 where gi: "get_idx t k ?b = Some i" and rm: "qhasharr_remove t k = (Inr (), t1)"
    and rem: "removed t (key_of t k) (length (chain_of ?S i)) t1"
    using qhasharr_remove_spec [OF inv, of k] old by auto
  have pos: "s_count (?S ! ?b) > 0" using gi by (simp add: get_idx_def split: if_splits)
  have "qhasharr_put t k v = qhasharr_put t1 k v"
    using m room pos gi rm by (subst qhasharr_put.simps) (simp add: Let_def)
  moreover have ko: "key_of t1 k = key_of t k" and inv1: "tbl_inv t1" and none: "tbl_map (slots t1) (key_of t1 k) = None"
    and sm: "bucket_size (slots t1) (bucket t1 k) < 32767"
    using rem small bucket_maxslots [of t1 t k] by (auto simp: removed_def key_of_def intro: le_less_trans)
  ultimately have "stored t1 (key_of t k) v (qhasharr_put t k v)"
    using put_fresh [OF inv1 k none sm] by simp
  with rem show ?thesis by blast
qed

section \<open>Load of a bucket\<close>

text \<open>The number of keys of a bucket in the abstract map; the 16-bit counter of the leading slot
  must be able to hold it.\<close>

definition bucket_load :: "(nat \<times> key_id \<Rightarrow> string option) \<Rightarrow> nat \<Rightarrow> nat" where
  "bucket_load m b = card {q. m (b, q) \<noteq> None}"

lemma bucket_entries:
  assumes "keys_ok S"
  shows "bij_betw (\<lambda>i. slot_kid (S ! i)) {i \<in> heads S. s_hash (S ! i) = b} {q. tbl_map S (b, q) \<noteq> None}"
proof -
  have "inj_on (\<lambda>i. slot_kid (S ! i)) {i \<in> heads S. s_hash (S ! i) = b}"
  proof (rule inj_onI)
    fix i j assume a: "i \<in> {i \<in> heads S. s_hash (S ! i) = b}" "j \<in> {i \<in> heads S. s_hash (S ! i) = b}"
      and eq: "slot_kid (S ! i) = slot_kid (S ! j)"
    then have "entry S b (slot_kid (S ! i)) i" "entry S b (slot_kid (S ! i)) j"
      by (simp_all add: entry_def heads_def)
    then show "i = j" by (rule keys_okD [OF assms])
  qed
  moreover have "(\<lambda>i. slot_kid (S ! i)) ` {i \<in> heads S. s_hash (S ! i) = b} = {q. tbl_map S (b, q) \<noteq> None}"
    unfolding tbl_map_None not_not entry_def heads_def
    by (rule set_eqI, unfold image_iff mem_Collect_eq) blast
  ultimately show ?thesis by (simp add: bij_betw_def)
qed

lemma bucket_size_load: "keys_ok S \<Longrightarrow> bucket_size S b = bucket_load (tbl_map S) b"
  using bij_betw_same_card [OF bucket_entries, of S b] by (simp add: bucket_size_def bucket_load_def)

lemma bucket_finite: "keys_ok S \<Longrightarrow> finite {q. tbl_map S (b, q) \<noteq> None}"
  using bij_betw_finite [OF bucket_entries, of S b] by simp

lemma bucket_load_mono:
  assumes "keys_ok S" "\<And>q. m (b, q) \<noteq> None \<Longrightarrow> tbl_map S (b, q) \<noteq> None"
  shows "bucket_load m b \<le> bucket_load (tbl_map S) b"
  unfolding bucket_load_def using bucket_finite [OF assms(1)] assms(2) by (intro card_mono) auto

section \<open>Storing\<close>

definition store_ok :: "qhasharr_s \<Rightarrow> string \<Rightarrow> string \<Rightarrow> bool" where
  "store_ok t k v \<longleftrightarrow> tbl_inv t \<and> length k < 65536 \<and> v \<noteq> []
     \<and> bucket_load (tbl_map (slots t)) (bucket t k) < 32767"

lemma put_spec:
  assumes "store_ok t k v" and put: "qhasharr_put t k v = (r, t')"
  shows "tbl_inv t' \<and> maxslots t' = maxslots t \<and>
    (case r of
       Inr _ \<Rightarrow> tbl_map (slots t') = (tbl_map (slots t))(key_of t k \<mapsto> v)
     | Inl e \<Rightarrow> e = ENOBUFS \<and> usedslots t + int (nblocks v) > int (maxslots t)
         \<and> (tbl_map (slots t') = tbl_map (slots t) \<or> tbl_map (slots t') = (tbl_map (slots t))(key_of t k := None)))"
proof -
  have inv: "tbl_inv t" and k: "length k < 65536" "v \<noteq> []" using assms(1) by (auto simp: store_ok_def)
  have ko: "keys_ok (slots t)" and m: "0 < maxslots t" using inv by (auto simp: tbl_inv_def)
  have small: "bucket_size (slots t) (bucket t k) < 32767"
    using assms(1) bucket_size_load [OF ko] by (simp add: store_ok_def)
  show ?thesis
  proof (cases "tbl_map (slots t) (key_of t k)")
    case None
    from put_fresh [OF inv k None small] show ?thesis
      using put by (auto simp: stored_def split: if_splits)
  next
    case (Some w)
    show ?thesis
    proof (cases "usedslots t < int (maxslots t)")
      case False
      then have "qhasharr_put t k v = (Inl ENOBUFS, t)" using m by (subst qhasharr_put.simps) simp
      then show ?thesis using put inv False by (auto simp: nblocks_def)
    next
      case True
      obtain t1 n where "removed t (key_of t k) n t1" "stored t1 (key_of t k) v (qhasharr_put t k v)"
        using put_existing [OF inv k Some small True] by blast
      then show ?thesis
        using put by (auto simp: stored_def removed_def split: if_splits)
    qed
  qed
qed

section \<open>Initialisation, clearing, enumeration\<close>

lemma empty_table:
  assumes "0 < n"
  shows "tbl_inv \<lparr>usedslots = 0, num = 0, slots = replicate n zero_slot\<rparr>"
    "tbl_map (replicate n zero_slot) = Map.empty"
proof -
  let ?S = "replicate n zero_slot"
  have k: "\<not> used ?S p" "\<not> ext ?S p" "\<not> head ?S p" "\<not> entry ?S b q p" for p b q
    by (auto simp: used_def ext_def head_def entry_def zero_slot_def)
  have "shape ?S"
    using k by (auto simp: shape_def linked_def ranked_def) (simp add: zero_slot_def slot_ok_def)
  moreover have "buckets ?S" by (auto simp: buckets_def zero_slot_def)
  ultimately show "tbl_inv \<lparr>usedslots = 0, num = 0, slots = ?S\<rparr>"
    using assms k by (simp add: tbl_inv_def keys_ok_def packed_def maxslots_def used_set_used heads_def)
  show "tbl_map ?S = Map.empty"
    using k by (auto simp: tbl_map_def)
qed

lemma qhasharr_clear_spec:
  assumes "tbl_inv t"
  shows "tbl_inv (qhasharr_clear t) \<and> tbl_map (slots (qhasharr_clear t)) = Map.empty
    \<and> maxslots (qhasharr_clear t) = maxslots t"
proof (cases "usedslots t = 0")
  case True
  have "card {p. used (slots t) p} = 0" using assms True by (simp add: tbl_inv_def used_set_used)
  then have "\<not> used (slots t) p" for p by simp
  then have "\<not> entry (slots t) b q p" for b q p using head_used by (auto simp: entry_def)
  then show ?thesis using True assms by (auto simp: qhasharr_clear_def tbl_map_def)
next
  case False
  then have eq: "qhasharr_clear t = \<lparr>usedslots = 0, num = 0, slots = replicate (maxslots t) zero_slot\<rparr>"
    by (cases t) (simp add: qhasharr_clear_def maxslots_def)
  have "0 < maxslots t" using assms by (simp add: tbl_inv_def)
  from empty_table [OF this] show ?thesis by (simp add: eq) (simp add: maxslots_def)
qed

lemma getnext_spec:
  assumes "tbl_inv t" and "\<And>n. mem n"
  shows "qhasharr_getnext mem t idx =
    (case find (head (slots t)) [idx..<maxslots t] of
       None \<Rightarrow> (Inl ENOENT, max idx (maxslots t))
     | Some i \<Rightarrow> (Inr (take (min (pair_keylen (slots t ! i)) 32) (pair_key (slots t ! i)), value_of (slots t) i), i + 1))"
proof (induction "maxslots t - idx" arbitrary: idx)
  case 0
  then show ?case by (subst qhasharr_getnext.simps) simp
next
  case (Suc d)
  let ?S = "slots t"
  have sh: "shape ?S" using assms(1) by (simp add: tbl_inv_def)
  have i: "idx < maxslots t" "idx < length ?S" using Suc.hyps(2) by (simp_all add: maxslots_def)
  have up: "[idx..<maxslots t] = idx # [idx + 1..<maxslots t]" using i(1) by (simp add: upt_conv_Cons)
  show ?case
  proof (cases "head ?S idx")
    case True
    then have c: "s_count (?S ! idx) \<noteq> 0" "s_count (?S ! idx) \<noteq> -2" by (auto simp: head_def)
    show ?thesis
      using i c True get_data_chain [OF sh head_used [OF True], of mem] assms(2)
      by (subst qhasharr_getnext.simps) (simp add: up Let_def)
  next
    case False
    then have c: "s_count (?S ! idx) = 0 \<or> s_count (?S ! idx) = -2"
      using shape_slot_ok [OF sh i(2)] i(2) by (auto simp: head_def slot_ok_def)
    have "qhasharr_getnext mem t idx = qhasharr_getnext mem t (idx + 1)"
      using i c by (subst qhasharr_getnext.simps) auto
    moreover have "max (idx + 1) (maxslots t) = max idx (maxslots t)" using i(1) by simp
    ultimately show ?thesis using Suc.hyps(1) [of "idx + 1"] Suc.hyps(2) False up
      by (simp split: option.split)
  qed
qed

section \<open>The store contract\<close>

lemma remove_view:
  assumes "tbl_inv t"
  shows "tbl_inv (snd (qhasharr_remove t k))" "maxslots (snd (qhasharr_remove t k)) = maxslots t"
    "tbl_map (slots (snd (qhasharr_remove t k))) = (tbl_map (slots t))(key_of t k := None)"
  using qhasharr_remove_spec [OF assms, of k] assms
  by (auto simp: removed_def fun_upd_idem split: option.splits)

definition store_get :: "qhasharr_s \<Rightarrow> string \<Rightarrow> string option" where
  "store_get t k = (case qhasharr_get (\<lambda>_. True) t k of Inl _ \<Rightarrow> None | Inr v \<Rightarrow> Some v)"

definition store_put :: "qhasharr_s \<Rightarrow> string \<Rightarrow> string \<Rightarrow> bool \<times> qhasharr_s" where
  "store_put t k v = (case qhasharr_put t k v of (Inl _, t') \<Rightarrow> (False, t') | (Inr _, t') \<Rightarrow> (True, t'))"

definition store_id :: "nat \<Rightarrow> string \<Rightarrow> nat \<times> key_id" where
  "store_id m k = (unat (qhashmurmur3_32 k) mod m, kid k)"

lemma key_of_id: "key_of t k = store_id (maxslots t) k"
  by (simp add: key_of_def store_id_def bucket_def)

interpretation shm_store: kv_store
  "\<lambda>t. tbl_inv t \<and> maxslots t = m" "store_id m" "\<lambda>t. tbl_map (slots t)" store_get
  "\<lambda>t k. snd (qhasharr_remove t k)" store_put store_ok
  for m
proof (unfold_locales, goal_cases)
  case (1 s k)
  then show ?case
    by (auto simp: store_get_def qhasharr_get_map key_of_id split: option.splits)
next
  case (2 s k v b s')
  then show ?case
    using put_spec [of s k v] by (auto simp: store_put_def split: prod.splits sum.splits)
next
  case (3 s k v b s' i)
  then show ?case
    using put_spec [of s k v] by (auto simp: store_put_def key_of_id split: prod.splits sum.splits)
next
  case (4 s k v s')
  then show ?case
    using put_spec [of s k v] by (auto simp: store_put_def key_of_id split: prod.splits sum.splits)
next
  case (5 s k v s')
  then show ?case
    using put_spec [of s k v] by (auto simp: store_put_def key_of_id split: prod.splits sum.splits)
next
  case (6 s k)
  then show ?case by (simp add: remove_view)
next
  case (7 s k)
  then show ?case by (simp add: remove_view key_of_id)
qed

end
