(* ===== verification/QHasharrThms.thy ===== *)
theory QHasharrThms
  imports QHasharrSpec
begin

text \<open>
  Properties of the shared-memory table: sizing and initialisation, refinement of an abstract
  map by get, put and remove, enumeration, and histories of operations.
\<close>

section \<open>Slot accounting\<close>

text \<open>The blocks of the entries partition the used slots, so the slots in use are determined by the
  stored values.\<close>

lemma used_in_chain:
  assumes "shape S" "used S i"
  obtains p where "head S p" "i \<in> set (chain_of S p)"
proof -
  obtain rank where r: "ranked S rank" using assms(1) by (auto simp: shape_def)
  have "\<exists>p. head S p \<and> i \<in> set (chain_of S p)"
    using assms(2)
  proof (induction "rank i" arbitrary: i rule: less_induct)
    case less
    obtain xs where xs: "chain S i xs" using chain_exists [OF assms(1) less.prems] by blast
    show ?case
    proof (cases "ext S i")
      case False
      then have "head S i" using used_cases [OF assms(1)] less.prems by blast
      then show ?thesis using chain_of_eq [OF xs] chain_hd [OF xs] by (metis hd_in_set)
    next
      case True
      note b = shape_back [OF assms(1) True]
      have "rank (s_hash (S ! i)) < rank i" using r True by (simp add: ranked_def)
      from less.hyps [OF this] b obtain p where p: "head S p" "s_hash (S ! i) \<in> set (chain_of S p)" by blast
      obtain ys where ys: "chain S p ys" using chain_exists [OF assms(1) head_used [OF p(1)]] by blast
      then have "i \<in> set ys" using chain_link_closed [OF ys] p(2) b chain_of_eq [OF ys] by blast
      then show ?thesis using p(1) chain_of_eq [OF ys] by blast
    qed
  qed
  then show thesis using that by blast
qed

lemma usedslots_sum:
  assumes "tbl_inv t"
  shows "usedslots t = int (\<Sum>p\<in>heads (slots t). nblocks (value_of (slots t) p))"
proof -
  let ?S = "slots t" and ?C = "\<lambda>p. set (chain_of (slots t) p)"
  have sh: "shape ?S" and pk: "packed ?S" using assms by (auto simp: tbl_inv_def)
  have ch: "chain ?S p (chain_of ?S p)" if "head ?S p" for p
    using chain_exists [OF sh head_used [OF that]] chain_of_eq by metis
  have "{i. used ?S i} = (\<Union>p\<in>heads ?S. ?C p)"
    using used_in_chain [OF sh] chain_used [OF ch sh head_used] by (fastforce simp: heads_def)
  moreover have "\<forall>p\<in>heads ?S. \<forall>q\<in>heads ?S. p \<noteq> q \<longrightarrow> ?C p \<inter> ?C q = {}"
    using chain_disjoint [OF ch ch sh] by (fastforce simp: heads_def)
  ultimately have "card {i. used ?S i} = (\<Sum>p\<in>heads ?S. card (?C p))" by (simp add: card_UN_disjoint)
  also have "\<dots> = (\<Sum>p\<in>heads ?S. nblocks (value_of ?S p))"
    using distinct_card [OF chain_distinct [OF ch sh head_used]] pk
    by (intro sum.cong) (auto simp: heads_def packed_def)
  finally show ?thesis using assms by (simp add: tbl_inv_def used_set_used)
qed

lemma heads_dom:
  assumes "keys_ok S"
  shows "bij_betw (\<lambda>p. (s_hash (S ! p), slot_kid (S ! p))) (heads S) (dom (tbl_map S))"
    "p \<in> heads S \<Longrightarrow> tbl_map S (s_hash (S ! p), slot_kid (S ! p)) = Some (value_of S p)"
proof -
  have e: "entry S (s_hash (S ! p)) (slot_kid (S ! p)) p" if "p \<in> heads S" for p
    using that by (simp add: entry_def heads_def)
  show m: "tbl_map S (s_hash (S ! p), slot_kid (S ! p)) = Some (value_of S p)" if "p \<in> heads S" for p
    using tbl_map_Some [OF assms] e [OF that] by blast
  have "i \<in> (\<lambda>p. (s_hash (S ! p), slot_kid (S ! p))) ` heads S" if i: "tbl_map S i = Some v" for i v
  proof -
    obtain p where "entry S (fst i) (snd i) p" using i tbl_map_Some [OF assms, of "fst i" "snd i" v] by auto
    then have "p \<in> heads S" "i = (s_hash (S ! p), slot_kid (S ! p))" by (auto simp: entry_def heads_def)
    then show ?thesis by blast
  qed
  then have "(\<lambda>p. (s_hash (S ! p), slot_kid (S ! p))) ` heads S = dom (tbl_map S)"
    using m unfolding dom_def by blast
  moreover have "inj_on (\<lambda>p. (s_hash (S ! p), slot_kid (S ! p))) (heads S)"
    using e by (intro inj_onI) (metis keys_okD [OF assms] prod.inject)
  ultimately show "bij_betw (\<lambda>p. (s_hash (S ! p), slot_kid (S ! p))) (heads S) (dom (tbl_map S))"
    by (simp add: bij_betw_def)
qed

definition weight :: "(nat \<times> key_id \<rightharpoonup> string) \<Rightarrow> nat" where
  "weight m = (\<Sum>i\<in>dom m. nblocks (the (m i)))"

lemma usedslots_map:
  assumes "tbl_inv t"
  shows "usedslots t = int (weight (tbl_map (slots t)))"
proof -
  have ko: "keys_ok (slots t)" using assms by (simp add: tbl_inv_def)
  show ?thesis
    unfolding usedslots_sum [OF assms] weight_def sum.reindex_bij_betw [OF heads_dom(1) [OF ko], symmetric]
    using heads_dom(2) [OF ko] by simp
qed

lemma weight_empty [simp]: "weight Map.empty = 0"
  by (simp add: weight_def)

lemma weight_insert: "finite (dom m) \<Longrightarrow> m i = None \<Longrightarrow> weight (m(i \<mapsto> v)) = nblocks v + weight m"
proof -
  assume m: "finite (dom m)" "m i = None"
  have "(\<Sum>x\<in>dom m. nblocks (the ((m(i \<mapsto> v)) x))) = weight m"
    unfolding weight_def using m(2) by (intro sum.cong) auto
  moreover have "i \<notin> dom m" using m(2) by (simp add: domIff)
  ultimately show ?thesis using m(1) by (simp add: weight_def)
qed

lemma usedslots_one:
  assumes "tbl_inv t" "\<And>i. tbl_map (slots t) i \<noteq> None \<Longrightarrow> i = x"
  shows "usedslots t = (case tbl_map (slots t) x of None \<Rightarrow> 0 | Some v \<Rightarrow> int (nblocks v))"
proof -
  define M where "M = tbl_map (slots t)"
  have "dom M \<subseteq> {x}" using assms(2) by (simp add: M_def subset_iff domIff)
  then have "dom M = (if M x = None then {} else {x})" by (auto simp: domIff)
  then have "int (weight M) = (case M x of None \<Rightarrow> 0 | Some v \<Rightarrow> int (nblocks v))"
    unfolding weight_def by (cases "M x") simp_all
  then show ?thesis using usedslots_map [OF assms(1)] by (simp add: M_def)
qed

section \<open>Histories\<close>

datatype tbl_op = OpPut string string | OpDel string | OpClear

fun tbl_run :: "tbl_op list \<Rightarrow> qhasharr_s \<Rightarrow> qhasharr_s" where
  "tbl_run [] t = t"
| "tbl_run (OpPut k v # ops) t = tbl_run ops (snd (qhasharr_put t k v))"
| "tbl_run (OpDel k # ops) t = tbl_run ops (snd (qhasharr_remove t k))"
| "tbl_run (OpClear # ops) t = tbl_run ops (qhasharr_clear t)"

fun op_valid :: "tbl_op \<Rightarrow> bool" where
  "op_valid (OpPut k v) = (length k < 65536 \<and> v \<noteq> [])"
| "op_valid (OpDel k) = True"
| "op_valid OpClear = True"

lemma bucket_load_upd:
  assumes "keys_ok S"
  shows "bucket_load ((tbl_map S)(x \<mapsto> v)) b \<le> Suc (bucket_load (tbl_map S) b)"
proof -
  define A B where "A = {q. ((tbl_map S)(x \<mapsto> v)) (b, q) \<noteq> None}" and "B = {q. tbl_map S (b, q) \<noteq> None}"
  have fin: "finite B" using bucket_finite [OF assms, of b] by (simp add: B_def)
  have "A \<subseteq> insert (snd x) B" by (cases x) (auto simp: A_def B_def)
  then have "card A \<le> card (insert (snd x) B)" using fin by (intro card_mono) auto
  also have "\<dots> \<le> Suc (card B)" using fin by (simp add: card_insert_if)
  finally show ?thesis by (simp add: bucket_load_def A_def B_def)
qed

lemma bucket_load_del:
  assumes "keys_ok S"
  shows "bucket_load ((tbl_map S)(x := None)) b \<le> bucket_load (tbl_map S) b"
  by (rule bucket_load_mono [OF assms]) (auto split: if_splits)

lemma bucket_load_empty: "bucket_load Map.empty b = 0"
  by (simp add: bucket_load_def)

lemma put_step:
  assumes inv: "tbl_inv t" and k: "length k < 65536" "v \<noteq> []"
    and load: "\<And>b. bucket_load (tbl_map (slots t)) b \<le> n" and n: "n < 32767"
  shows "tbl_inv (snd (qhasharr_put t k v)) \<and> maxslots (snd (qhasharr_put t k v)) = maxslots t
    \<and> bucket_load (tbl_map (slots (snd (qhasharr_put t k v)))) b \<le> Suc n
    \<and> (tbl_map (slots (snd (qhasharr_put t k v))) i = Some w \<longrightarrow>
        i = key_of t k \<and> w = v \<or> tbl_map (slots t) i = Some w)"
proof -
  obtain r t' where rt: "qhasharr_put t k v = (r, t')" by fastforce
  have so: "store_ok t k v" using inv k load [of "bucket t k"] n by (simp add: store_ok_def)
  have ko: "keys_ok (slots t)" using inv by (simp add: tbl_inv_def)
  note p = put_spec [OF so rt]
  show ?thesis
    using p load [of b] bucket_load_upd [OF ko, of "key_of t k" v b] bucket_load_del [OF ko, of "key_of t k" b]
    by (auto simp: rt split: sum.splits if_splits)
qed

lemma tbl_run_spec:
  assumes "tbl_inv t" "\<forall>op\<in>set ops. op_valid op" "\<And>b. bucket_load (tbl_map (slots t)) b \<le> n" "n + length ops < 32767"
  shows "tbl_inv (tbl_run ops t) \<and> maxslots (tbl_run ops t) = maxslots t
    \<and> (tbl_map (slots (tbl_run ops t)) i = Some w \<longrightarrow>
        (\<exists>k. OpPut k w \<in> set ops \<and> i = store_id (maxslots t) k) \<or> tbl_map (slots t) i = Some w)"
  using assms
proof (induction ops arbitrary: t n)
  case (Cons op ops)
  have ko: "keys_ok (slots t)" using Cons.prems(1) by (simp add: tbl_inv_def)
  show ?case
  proof (cases op)
    case (OpPut k v)
    note st = put_step [OF Cons.prems(1) _ _ Cons.prems(3), of k v]
    have "tbl_inv (snd (qhasharr_put t k v))" "maxslots (snd (qhasharr_put t k v)) = maxslots t"
      "\<And>b. bucket_load (tbl_map (slots (snd (qhasharr_put t k v)))) b \<le> Suc n"
      and no: "tbl_map (slots (snd (qhasharr_put t k v))) i = Some w \<Longrightarrow>
        i = key_of t k \<and> w = v \<or> tbl_map (slots t) i = Some w"
      using st Cons.prems(2,4) OpPut by auto
    from Cons.IH [OF this(1) _ this(3)] this(2) show ?thesis
      using Cons.prems(2,4) OpPut no by (auto simp: key_of_id)
  next
    case (OpDel k)
    note rv = remove_view [OF Cons.prems(1), of k]
    have "bucket_load (tbl_map (slots (snd (qhasharr_remove t k)))) b \<le> n" for b
      unfolding rv(3) using bucket_load_del [OF ko] Cons.prems(3) [of b] by (rule order_trans)
    from Cons.IH [OF rv(1) _ this] show ?thesis
      using Cons.prems(2,4) OpDel rv(2,3) by (auto split: if_splits)
  next
    case OpClear
    note cs = qhasharr_clear_spec [OF Cons.prems(1)]
    from Cons.IH [of "qhasharr_clear t" n] show ?thesis
      using cs Cons.prems(2,4) OpClear by (auto simp: bucket_load_empty)
  qed
qed simp

section \<open>Properties\<close>

abbreviation empty_tbl :: "nat \<Rightarrow> qhasharr_s" where
  "empty_tbl n \<equiv> \<lparr>usedslots = 0, num = 0, slots = replicate n zero_slot\<rparr>"

lemma empty_tbl_ok:
  assumes "0 < n" "length k < 65536" "v \<noteq> []"
  shows "store_ok (empty_tbl n) k v"
  using empty_table [OF assms(1)] assms(2,3) by (simp add: store_ok_def bucket_load_def)

lemma one_entry:
  obtains t where "tbl_inv t" "maxslots t = 4" "tbl_map (slots t) = [store_id 4 ''k'' \<mapsto> ''value'']"
proof -
  have so: "store_ok (empty_tbl 4) ''k'' ''value''" by (rule empty_tbl_ok) simp_all
  obtain r t where p: "qhasharr_put (empty_tbl 4) ''k'' ''value'' = (r, t)" by fastforce
  have "tbl_inv t \<and> maxslots t = 4 \<and> tbl_map (slots t) = [store_id 4 ''k'' \<mapsto> ''value'']"
    using put_spec [OF so p] empty_table(2) [of 4] by (cases r) (simp_all add: key_of_id maxslots_def nblocks_def)
  then show thesis using that by blast
qed

lemma memsize_slots:
  assumes "1 \<le> n" and "n < 2 ^ 31"
  shows "sint (ucast ((qhasharr_calculate_memsize n - 12) div 164) :: 32 word) = n"
    and "\<not> qhasharr_calculate_memsize n \<le> 12"
proof -
  define N where "N = nat n"
  have n: "n = int N" "1 \<le> N" "N < 2 ^ 31" using assms by (auto simp: N_def)
  have w: "164 * word_of_int n = (word_of_nat (164 * N) :: 64 word)" by (simp add: n)
  have u: "unat (word_of_nat (164 * N) :: 64 word) = 164 * N"
    using n(3) by (simp only: unat_of_nat) simp
  have "unat ((qhasharr_calculate_memsize n - 12) div 164) = N"
    unfolding qhasharr_calculate_memsize_def add_diff_cancel_left' w unat_div u by simp
  then have d: "(qhasharr_calculate_memsize n - 12) div 164 = word_of_nat N"
    using n(3) by (simp only: word_unat_eq_iff unat_of_nat) simp
  have "sint (ucast (word_of_nat N :: 64 word) :: 32 word) = int N"
    using n(3) by (simp add: unsigned_of_nat take_bit_nat_eq_self sint_uint take_bit_int_eq_self signed_take_bit_int_eq_self)
  then show "sint (ucast ((qhasharr_calculate_memsize n - 12) div 164) :: 32 word) = n"
    unfolding d using n(1) by simp
  have "unat (qhasharr_calculate_memsize n) = 12 + 164 * N"
    unfolding qhasharr_calculate_memsize_def w using u n(3) by (simp add: unat_word_ariths)
  then show "\<not> qhasharr_calculate_memsize n \<le> 12"
    using n(2) by (simp add: word_le_nat_alt)
qed

text \<open>
  Initialising memory of the calculated size gives a consistent, empty table with exactly the
  requested number of slots.
\<close>

lemma qhasharr_init_sized:
  assumes "1 \<le> n" and "n < 2 ^ 31"
  shows "\<exists>t. qhasharr (Some ()) (qhasharr_calculate_memsize n) = Inr t \<and> tbl_inv t
      \<and> int (maxslots t) = n \<and> tbl_map (slots t) = Map.empty"
  using memsize_slots [OF assms] empty_table [of "nat n"] assms
  by (simp add: qhasharr_def maxslots_def)

lemma qhasharr_init_sized_example:
  "\<exists>t. qhasharr (Some ()) (qhasharr_calculate_memsize 800000) = Inr t \<and> tbl_inv t
      \<and> int (maxslots t) = 800000 \<and> tbl_map (slots t) = Map.empty"
  by (rule qhasharr_init_sized) simp_all

text \<open>
  C7: Lookup in a consistent table is lookup in the abstract map: the stored value (or ENOMEM when
  the copy cannot be allocated) for a stored key, ENOENT otherwise.
\<close>

theorem qhasharr_get_refines:
  assumes "tbl_inv t"
  shows "qhasharr_get mem t k =
      (case tbl_map (slots t) (key_of t k) of
         None \<Rightarrow> Inl ENOENT
       | Some v \<Rightarrow> if mem (length v) then Inr v else Inl ENOMEM)"
  using assms by (rule qhasharr_get_map)

theorem qhasharr_get_refines_witness:
  "\<exists>t. tbl_inv t \<and> qhasharr_get (\<lambda>_. True) t ''k'' = Inr ''value''"
proof (rule one_entry)
  fix t assume t: "tbl_inv t" "maxslots t = 4" "tbl_map (slots t) = [store_id 4 ''k'' \<mapsto> ''value'']"
  show ?thesis using qhasharr_get_refines [OF t(1), of "\<lambda>_. True" "''k''"] t by (auto simp: key_of_id)
qed

text \<open>
  C6: Storing refines map update.  The table stays consistent and keeps its size; on success
  the map is updated at the key and nowhere else; the only failure is ENOBUFS, it happens only
  when the free slots do not suffice for the value, and it changes no other key (the old value of
  the key itself may be gone).  So with enough free slots storing always succeeds.
\<close>

theorem qhasharr_put_refines:
  assumes "tbl_inv t" and "length k < 65536" and "v \<noteq> []"
    and "bucket_load (tbl_map (slots t)) (bucket t k) < 32767"
  shows "case qhasharr_put t k v of (r, t') \<Rightarrow>
      tbl_inv t' \<and> maxslots t' = maxslots t \<and>
      (case r of
         Inr _ \<Rightarrow> tbl_map (slots t') = (tbl_map (slots t))(key_of t k \<mapsto> v)
       | Inl e \<Rightarrow> e = ENOBUFS \<and> usedslots t + int (nblocks v) > int (maxslots t)
           \<and> (tbl_map (slots t') = tbl_map (slots t)
              \<or> tbl_map (slots t') = (tbl_map (slots t))(key_of t k := None)))"
  using put_spec [of t k v] assms by (auto simp: store_ok_def split: prod.split)

theorem qhasharr_put_refines_witness:
  "case qhasharr_put (empty_tbl 4) ''k'' ''value'' of (r, t') \<Rightarrow>
      tbl_inv t' \<and> r = Inr () \<and> tbl_map (slots t') = [key_of (empty_tbl 4) ''k'' \<mapsto> ''value'']"
proof -
  obtain r t' where rt: "qhasharr_put (empty_tbl 4) ''k'' ''value'' = (r, t')" by fastforce
  show ?thesis
    using qhasharr_put_refines [of "empty_tbl 4" "''k''" "''value''"] empty_table [of 4]
    by (cases r) (simp_all add: rt bucket_load_def maxslots_def nblocks_def)
qed

text \<open>
  C8: Removing refines deletion: a stored key is removed (whether its entry leads its bucket,
  leads one with collisions, or is itself a collision), an absent key gives ENOENT and changes
  nothing.
\<close>

theorem qhasharr_remove_refines:
  assumes "tbl_inv t"
  shows "case qhasharr_remove t k of (r, t') \<Rightarrow>
      tbl_inv t' \<and> maxslots t' = maxslots t
      \<and> tbl_map (slots t') = (tbl_map (slots t))(key_of t k := None)
      \<and> (r = Inr () \<longleftrightarrow> tbl_map (slots t) (key_of t k) \<noteq> None)
      \<and> (r \<noteq> Inr () \<longrightarrow> r = Inl ENOENT \<and> t' = t)"
  using qhasharr_remove_spec [OF assms, of k] assms
  by (auto simp: removed_def fun_upd_idem split: option.splits prod.splits)

theorem qhasharr_remove_refines_witness:
  "\<exists>t t'. tbl_map (slots t) = [store_id 4 ''k'' \<mapsto> ''value''] \<and> qhasharr_remove t ''k'' = (Inr (), t')
    \<and> tbl_inv t' \<and> tbl_map (slots t') = Map.empty"
proof (rule one_entry)
  fix t assume t: "tbl_inv t" "maxslots t = 4" "tbl_map (slots t) = [store_id 4 ''k'' \<mapsto> ''value'']"
  obtain r t' where r: "qhasharr_remove t ''k'' = (r, t')" by fastforce
  show ?thesis using qhasharr_remove_refines [OF t(1), of "''k''"] t r
    by (intro exI [of _ t] exI [of _ t']) (simp add: key_of_id)
qed

text \<open>
  C31: Enumeration visits the entries in slot order: from index \<open>idx\<close> the next entry is the first
  slot at or after \<open>idx\<close> that holds a key, returned with its value and the index after it; behind
  the last entry the result is ENOENT.  No entry is skipped and none is returned twice.
\<close>

theorem qhasharr_getnext_enumerates:
  assumes "tbl_inv t" and "\<And>n. mem n"
  shows "qhasharr_getnext mem t idx =
    (case find (head (slots t)) [idx..<maxslots t] of
       None \<Rightarrow> (Inl ENOENT, max idx (maxslots t))
     | Some i \<Rightarrow> (Inr (take (min (pair_keylen (slots t ! i)) 32) (pair_key (slots t ! i)), value_of (slots t) i), i + 1))"
  using assms by (rule getnext_spec)

theorem qhasharr_getnext_enumerates_witness:
  "\<exists>t i. tbl_inv t \<and> qhasharr_getnext (\<lambda>_. True) t 0 = (Inr (''k'', ''value''), i + 1)"
proof (rule one_entry)
  fix t assume t: "tbl_inv t" "maxslots t = 4" "tbl_map (slots t) = [store_id 4 ''k'' \<mapsto> ''value'']"
  have ko: "keys_ok (slots t)" using t(1) by (simp add: tbl_inv_def)
  have "heads (slots t) \<noteq> {}" using heads_dom(1) [OF ko] t(3) by (auto simp: bij_betw_def)
  then have "find (head (slots t)) [0..<maxslots t] \<noteq> None"
    by (auto simp: find_None_iff heads_def head_def maxslots_def)
  then obtain i where i: "find (head (slots t)) [0..<maxslots t] = Some i" by blast
  then have "i \<in> heads (slots t)" by (auto simp: find_Some_iff heads_def)
  from heads_dom(2) [OF ko this] have m: "(s_hash (slots t ! i), slot_kid (slots t ! i)) = store_id 4 ''k''" "value_of (slots t) i = ''value''"
    using t(3) by (auto split: if_splits)
  have "slot_kid (slots t ! i) = kid ''k''" using m(1) by (simp add: store_id_def)
  then have "pair_keylen (slots t ! i) = 1" "take 1 (pair_key (slots t ! i)) = ''k''" by (auto simp: slot_kid_def kid_def)
  then show ?thesis
    using qhasharr_getnext_enumerates [OF t(1), of "\<lambda>_. True" 0] i m(2) t(1) by (intro exI [of _ t] exI [of _ i]) simp
qed

text \<open>
  C9: After any history of fewer than 32767 stores of non-empty values, removals and clearings that
  starts with an empty table, the table is consistent and keeps its size, its counter of used slots
  is the sum of the blocks that its values need, and it holds only values that the history stored
  under a key with that identity.  (The bound keeps the 16-bit collision counters of the slots from
  overflowing; \<open>hash_tbl_set\<close> never stores an empty value.)
\<close>

theorem tbl_history_safe:
  assumes "0 < m" and "\<forall>op\<in>set ops. op_valid op" and "length ops < 32767"
  shows "let t = tbl_run ops (empty_tbl m) in
      tbl_inv t \<and> maxslots t = m
      \<and> usedslots t = int (weight (tbl_map (slots t)))
      \<and> (\<forall>i w. tbl_map (slots t) i = Some w \<longrightarrow> (\<exists>k. OpPut k w \<in> set ops \<and> store_id m k = i))"
proof -
  let ?t = "tbl_run ops (empty_tbl m)"
  have r: "tbl_inv ?t \<and> maxslots ?t = m \<and> (tbl_map (slots ?t) i = Some w \<longrightarrow>
      (\<exists>k. OpPut k w \<in> set ops \<and> i = store_id m k))" for i w
    using tbl_run_spec [of "empty_tbl m" ops 0 i w] empty_table [OF assms(1)] assms
    by (auto simp: bucket_load_empty maxslots_def)
  then show ?thesis using usedslots_map [of ?t] unfolding Let_def by blast
qed

theorem tbl_history_safe_witness:
  "let t = tbl_run [OpPut ''k'' ''v'', OpPut ''l'' ''w'', OpDel ''k''] (empty_tbl 4) in
      tbl_inv t \<and> maxslots t = 4
      \<and> (\<forall>i w. tbl_map (slots t) i = Some w \<longrightarrow> i = store_id 4 ''k'' \<and> w = ''v'' \<or> i = store_id 4 ''l'' \<and> w = ''w'')"
  using tbl_history_safe [of 4 "[OpPut ''k'' ''v'', OpPut ''l'' ''w'', OpDel ''k'']"]
  unfolding Let_def by (simp del: tbl_run.simps split_paired_All) blast

text \<open>
  A store of a zero-length value (which \<open>hash_tbl_set\<close> never issues) makes the key present but
  leaves the counters of stored keys and used slots as they were.
\<close>

lemma qhasharr_put_empty_uncounted:
  assumes "tbl_inv t" and "length k < 65536" and "usedslots t < int (maxslots t)"
    and "s_count (slots t ! bucket t k) = 0"
  shows "case qhasharr_put t k [] of (r, t') \<Rightarrow>
      r = Inr () \<and> qhasharr_exist t' k \<and> num t' = num t \<and> usedslots t' = usedslots t"
proof -
  let ?b = "bucket t k" and ?t = "upd_slot (bucket t k) (store_key (bucket t k) k 1) t"
  have m: "0 < maxslots t" and sh: "shape (slots t)" using assms(1) by (auto simp: tbl_inv_def)
  have b: "?b < length (slots t)" using bucket_less [OF m] by (simp add: maxslots_def)
  have put: "qhasharr_put t k [] = (Inr (), ?t)"
    using m assms(3,4) by (subst qhasharr_put.simps) (simp add: Let_def put_data_def put_data_loop.simps)
  have S: "slots ?t = (slots t)[?b := store_key ?b k 1 (slots t ! ?b)]" by (simp add: upd_slot_def)
  have d: "length (s_data (slots t ! ?b)) = 146" using shape_slot_ok [OF sh b] by (simp add: slot_ok_def)
  note kk = store_key_kid [OF d assms(2), of ?b 1]
  have "key_match k (store_key ?b k 1 (slots t ! ?b))"
    using kk by (auto simp: key_match_def slot_kid_def kid_def pair_key_def take_chunk)
  then have "get_idx ?t k ?b = Some ?b"
    unfolding get_idx_def S using b by (subst get_idx_loop.simps) (simp add: store_key_def)
  then have "qhasharr_exist ?t k"
    using m bucket_maxslots [of ?t t k] by (simp add: qhasharr_exist_def)
  then show ?thesis by (simp add: put) (simp add: upd_slot_def)
qed

lemma qhasharr_put_empty_uncounted_example:
  "case qhasharr_put (empty_tbl 2) ''k'' [] of (r, t') \<Rightarrow>
      r = Inr () \<and> qhasharr_exist t' ''k'' \<and> num t' = 0 \<and> usedslots t' = 0"
proof -
  have "bucket (empty_tbl 2) ''k'' < 2" using bucket_less [of "empty_tbl 2"] by (simp add: maxslots_def)
  then show ?thesis
    using qhasharr_put_empty_uncounted [of "empty_tbl 2" "''k''"] empty_table(1) [of 2]
    by (simp add: maxslots_def zero_slot_def)
qed

end
