(* ===== verification/QShm.thy ===== *)
theory QShm
  imports QFormat QHasharrThms
begin

text \<open>
  The agent's and the driver's view of the shared-memory table: \<open>src/base/qconf_shm.cc\<close>.

  A stored value is framed by its length and followed by a verification code (a second copy, or
  the MD5 of a long value); readers run without a lock against the writing agent and reject frames
  that do not verify.  The agent evicts the least recently set key when a store finds the table
  full.  A table pointer is \<open>None\<close> for NULL; mutexes, which serialise the writers of one process,
  have no counterpart in the sequential model.
\<close>

section \<open>The LRU list\<close>

text \<open>
  \<open>lruMem\<close> is a doubly linked list: an element is a node (its identity) with its key, and
  \<open>keyToIterator\<close> maps a key to its node.
\<close>

record LRU =
  lruMem :: "(nat \<times> string) list"
  keyToIterator :: "string \<rightharpoonup> nat"
  fresh_node :: nat

definition new_LRU :: LRU where
  "new_LRU = \<lparr>lruMem = [], keyToIterator = Map.empty, fresh_node = 0\<rparr>"

definition getRemoveKey :: "LRU \<Rightarrow> string" where
  "getRemoveKey l = (if lruMem l = [] then [] else snd (last (lruMem l)))"

definition removeKey :: "LRU \<Rightarrow> string \<times> LRU" where
  "removeKey l =
     (let key = snd (last (lruMem l));
          l1 = l\<lparr>lruMem := butlast (lruMem l)\<rparr>
      in (key, if keyToIterator l1 key \<noteq> None
               then l1\<lparr>keyToIterator := (keyToIterator l1)(key := None)\<rparr> else l1))"

definition push_front :: "string \<Rightarrow> LRU \<Rightarrow> LRU" where
  "push_front key l =
     l\<lparr>lruMem := (fresh_node l, key) # lruMem l,
       keyToIterator := (keyToIterator l)(key \<mapsto> fresh_node l),
       fresh_node := fresh_node l + 1\<rparr>"

definition visitKey :: "string \<Rightarrow> LRU \<Rightarrow> LRU" where
  "visitKey key l =
     (if key = QCONF_KEY_TYPE_LOCAL_IDC then l
      else (case keyToIterator l key of
              None \<Rightarrow> push_front key l
            | Some it \<Rightarrow> push_front key (l\<lparr>lruMem := filter (\<lambda>p. fst p \<noteq> it) (lruMem l)\<rparr>)))"

section \<open>Framed values\<close>

abbreviation (input) NEED_MD5_TBLLEN :: nat where "NEED_MD5_TBLLEN \<equiv> 1024"

text \<open>The frame that \<open>hash_tbl_set\<close> builds in \<open>val_tmp\<close>.\<close>

definition frame :: "string \<Rightarrow> string" where
  "frame val =
     (let val_size = to_width QCONF_VALUE_SIZE_LEN (length val);
          val_tmp = qconf_encode_num QCONF_VALUE_SIZE_LEN val_size @ val
      in if val_size > NEED_MD5_TBLLEN then val_tmp @ qhashmd5 (take val_size val) else val_tmp @ val)"

text \<open>
  \<open>qconf_verify\<close> of \<open>USE_MIXED_VERIFY\<close>.  On a string of fewer than four bytes the source decodes
  bytes behind its end; whatever they are, the size checks then reject it.
\<close>

definition qconf_verify :: "string \<Rightarrow> int \<times> string" where
  "qconf_verify tblval =
     (let tblval_size = length tblval;
          val_size = qconf_decode_num QCONF_VALUE_SIZE_LEN tblval;
          valstr = chunk QCONF_VALUE_SIZE_LEN val_size tblval;
          veripos = QCONF_VALUE_SIZE_LEN + val_size
      in if val_size > NEED_MD5_TBLLEN then
           (if tblval_size < QCONF_VALUE_SIZE_LEN + val_size + QCONF_MD5_INT_LEN
            then (QCONF_ERR_TBL_DATA_MESS, tblval)
            else if qhashmd5 valstr = chunk veripos QCONF_MD5_INT_LEN tblval then (QCONF_OK, valstr)
            else (QCONF_ERR_TBL_DATA_MESS, tblval))
         else
           (if tblval_size < QCONF_VALUE_SIZE_LEN + val_size * 2 then (QCONF_ERR_TBL_DATA_MESS, tblval)
            else if valstr = chunk veripos val_size tblval then (QCONF_OK, valstr)
            else (QCONF_ERR_TBL_DATA_MESS, tblval)))"

section \<open>Reading, storing and removing\<close>

definition hash_tbl_get_count :: "qhasharr_s option \<Rightarrow> int \<times> (nat \<times> int) option" where
  "hash_tbl_get_count tbl = (if tbl = None then (-1, None) else qhasharr_size tbl)"

definition hash_tbl_get_raw :: "(nat \<Rightarrow> bool) \<Rightarrow> qhasharr_s \<Rightarrow> string \<Rightarrow> string \<Rightarrow> int \<times> string" where
  "hash_tbl_get_raw mem t key val =
     (if key = [] then (QCONF_ERR_PARAM, val)
      else (case qhasharr_get mem t key of
              Inl _ \<Rightarrow> (QCONF_ERR_NOT_FOUND, val)
            | Inr val_tmp \<Rightarrow> (QCONF_OK, val_tmp)))"

definition hash_tbl_get :: "(nat \<Rightarrow> bool) \<Rightarrow> qhasharr_s option \<Rightarrow> string \<Rightarrow> string \<Rightarrow> int \<times> string" where
  "hash_tbl_get mem tbl key val =
     (case tbl of
        None \<Rightarrow> (QCONF_ERR_PARAM, val)
      | Some t \<Rightarrow>
          if key = [] then (QCONF_ERR_PARAM, val)
          else (case hash_tbl_get_raw mem t key val of (ret, val') \<Rightarrow>
                  if ret \<noteq> QCONF_OK then (ret, val') else qconf_verify val'))"

text \<open>The body of \<open>hash_tbl_remove\<close> on a table that exists, and the function itself.\<close>

definition tbl_remove :: "qhasharr_s \<Rightarrow> string \<Rightarrow> int \<times> qhasharr_s" where
  "tbl_remove t key =
     (if key = [] then (QCONF_ERR_PARAM, t)
      else (case qhasharr_remove t key of
              (Inl e, t') \<Rightarrow> (if e = ENOENT then QCONF_OK else QCONF_ERR_OTHER, t')
            | (Inr _, t') \<Rightarrow> (QCONF_OK, t')))"

definition hash_tbl_remove :: "qhasharr_s option \<Rightarrow> string \<Rightarrow> int \<times> qhasharr_s option" where
  "hash_tbl_remove tbl key =
     (case tbl of
        None \<Rightarrow> (QCONF_ERR_PARAM, None)
      | Some t \<Rightarrow> (case tbl_remove t key of (ret, t') \<Rightarrow> (ret, Some t')))"

text \<open>The \<open>while\<close> loop of \<open>hash_tbl_set_\<close> (\<open>hash_tbl_set_raw\<close>): \<open>r\<close> is the outcome of the last \<open>qhasharr_put\<close>.\<close>

function evict_loop ::
  "string \<Rightarrow> string \<Rightarrow> unit qres \<Rightarrow> qhasharr_s \<Rightarrow> LRU \<Rightarrow> unit qres \<times> qhasharr_s \<times> LRU" where
  "evict_loop key val r t l =
     (if r = Inl ENOBUFS then
        (case tbl_remove t (getRemoveKey l) of (removeRet, t1) \<Rightarrow>
           if removeRet = QCONF_OK then
             (case qhasharr_put t1 key val of (r', t2) \<Rightarrow> evict_loop key val r' t2 (snd (removeKey l)))
           else (r, t1, l))
      else (r, t, l))"
  by pat_completeness auto
termination
proof (relation "measure (\<lambda>(key, val, r, t, l). length (lruMem l))", goal_cases)
  case (2 key val r t l removeRet t1 r' t2)
  then have "lruMem l \<noteq> []" by (auto simp: tbl_remove_def getRemoveKey_def split: if_splits)
  then show ?case by (simp add: removeKey_def Let_def)
qed simp

declare evict_loop.simps [simp del]

definition hash_tbl_set_raw ::
  "qhasharr_s \<Rightarrow> LRU \<Rightarrow> string \<Rightarrow> string \<Rightarrow> int \<times> qhasharr_s \<times> LRU" where
  "hash_tbl_set_raw t l key val =
     (if key = [] then (QCONF_ERR_PARAM, t, l)
      else (case qhasharr_put t key val of (r, t1) \<Rightarrow>
              case evict_loop key val r t1 l of (r', t2, l2) \<Rightarrow>
                (case r' of
                   Inl _ \<Rightarrow> (QCONF_ERR_TBL_SET, t2, l2)
                 | Inr _ \<Rightarrow> (QCONF_OK, t2, visitKey key l2))))"

definition hash_tbl_set ::
  "(nat \<Rightarrow> bool) \<Rightarrow> qhasharr_s option \<Rightarrow> LRU \<Rightarrow> string \<Rightarrow> string \<Rightarrow> int \<times> qhasharr_s option \<times> LRU" where
  "hash_tbl_set mem tbl l key val =
     (case tbl of
        None \<Rightarrow> (QCONF_ERR_PARAM, None, l)
      | Some t \<Rightarrow>
          if key = [] then (QCONF_ERR_PARAM, tbl, l)
          else if hash_tbl_get mem tbl key [] = (QCONF_OK, val) then (QCONF_ERR_SAME_VALUE, tbl, l)
          else (case hash_tbl_set_raw t l key (frame val) of (ret, t', l') \<Rightarrow> (ret, Some t', l')))"

definition hash_tbl_exist :: "qhasharr_s option \<Rightarrow> string \<Rightarrow> bool" where
  "hash_tbl_exist tbl key =
     (case tbl of None \<Rightarrow> False | Some t \<Rightarrow> if key = [] then False else qhasharr_exist t key)"

definition hash_tbl_clear :: "qhasharr_s option \<Rightarrow> int \<times> qhasharr_s option" where
  "hash_tbl_clear tbl =
     (case tbl of None \<Rightarrow> (QCONF_ERR_PARAM, None) | Some t \<Rightarrow> (QCONF_OK, Some (qhasharr_clear t)))"

section \<open>The local IDC\<close>

definition qconf_get_localidc :: "(nat \<Rightarrow> bool) \<Rightarrow> qhasharr_s option \<Rightarrow> string \<Rightarrow> int \<times> string" where
  "qconf_get_localidc mem tbl local_idc =
     (if tbl = None then (QCONF_ERR_PARAM, local_idc)
      else
        (let tblkey = snd (serialize_to_tblkey QCONF_DATA_TYPE_LOCAL_IDC [] []) in
         case hash_tbl_get mem tbl tblkey [] of (ret, tblval) \<Rightarrow>
           if ret = QCONF_OK then tblval_to_localidc tblval local_idc else (ret, local_idc)))"

definition qconf_update_localidc ::
  "(nat \<Rightarrow> bool) \<Rightarrow> qhasharr_s option \<Rightarrow> LRU \<Rightarrow> string \<Rightarrow> int \<times> qhasharr_s option \<times> LRU" where
  "qconf_update_localidc mem tbl l local_idc =
     (if tbl = None \<or> local_idc = [] then (QCONF_ERR_PARAM, tbl, l)
      else
        (let tblkey = snd (serialize_to_tblkey QCONF_DATA_TYPE_LOCAL_IDC [] []) in
         case localidc_to_tblval tblkey local_idc of (ret, tblval) \<Rightarrow>
           (case (if ret = QCONF_OK then hash_tbl_set mem tbl l tblkey tblval else (ret, tbl, l)) of
              (ret', tbl', l') \<Rightarrow>
                (if ret' = QCONF_ERR_SAME_VALUE then QCONF_OK else ret', tbl', l'))))"

text \<open>The code, and the status argument, which only a found or a missing key sets.\<close>

definition qconf_exist_tblkey :: "(nat \<Rightarrow> bool) \<Rightarrow> qhasharr_s option \<Rightarrow> string \<Rightarrow> bool \<Rightarrow> int \<times> bool" where
  "qconf_exist_tblkey mem tbl key status =
     (if tbl = None \<or> key = [] then (QCONF_ERR_PARAM, status)
      else
        (let ret = fst (hash_tbl_get mem tbl key []) in
         if ret = QCONF_OK then (QCONF_OK, True)
         else if ret = QCONF_ERR_NOT_FOUND then (QCONF_OK, False)
         else (ret, status)))"

section \<open>Attaching the shared memory\<close>

text \<open>
  \<open>shmget key size create\<close> is \<open>Inl errno\<close> or a segment (\<open>create\<close> for \<open>IPC_CREAT | IPC_EXCL\<close>),
  \<open>shmat shmid flags\<close> the table in the segment as it is.
\<close>

abbreviation (input) EEXIST :: int where "EEXIST \<equiv> 17"

definition init_hash_tbl ::
  "(int \<Rightarrow> 64 word \<Rightarrow> bool \<Rightarrow> int + int) \<Rightarrow> (int \<Rightarrow> int \<Rightarrow> qhasharr_s option) \<Rightarrow> int \<Rightarrow> int \<Rightarrow>
   int \<times> qhasharr_s option" where
  "init_hash_tbl shmget shmat shmkey flags =
     (case shmget shmkey 0 False of
        Inl _ \<Rightarrow> (QCONF_ERR_SHMGET, None)
      | Inr shmid \<Rightarrow> (case shmat shmid flags of
                       None \<Rightarrow> (QCONF_ERR_SHMAT, None)
                     | Some t \<Rightarrow> (QCONF_OK, Some t)))"

definition create_hash_tbl ::
  "(int \<Rightarrow> 64 word \<Rightarrow> bool \<Rightarrow> int + int) \<Rightarrow> (int \<Rightarrow> int \<Rightarrow> qhasharr_s option) \<Rightarrow> int \<Rightarrow> int \<Rightarrow>
   int \<times> qhasharr_s option" where
  "create_hash_tbl shmget shmat maxSlotsNum shmkey =
     (let memsize = qhasharr_calculate_memsize maxSlotsNum in
      case shmget shmkey memsize True of
        Inl e \<Rightarrow> if e = EEXIST then init_hash_tbl shmget shmat shmkey 0 else (QCONF_ERR_SHMGET, None)
      | Inr shmid \<Rightarrow> (case shmat shmid 0 of
                       None \<Rightarrow> (QCONF_ERR_SHMAT, None)
                     | Some _ \<Rightarrow> (case qhasharr (Some ()) memsize of
                                   Inl _ \<Rightarrow> (QCONF_ERR_SHMINIT, None)
                                 | Inr t \<Rightarrow> (QCONF_OK, Some t))))"

section \<open>Enumeration\<close>

text \<open>
  \<open>hash_tbl_getnext\<close> rebuilds the key from the value, since the table keeps at most 32 bytes of it:
  the code and the IDC and path that the value carries.
\<close>

definition key_info :: "(nat \<Rightarrow> bool) \<Rightarrow> char \<Rightarrow> string \<Rightarrow> int \<times> string \<times> string" where
  "key_info mem data_type tblval =
     (if data_type = QCONF_DATA_TYPE_NODE then
        (case tblval_to_nodeval_path tblval ([], [], []) of (ret, nodeval, idc, path) \<Rightarrow> (ret, idc, path))
      else if data_type = QCONF_DATA_TYPE_SERVICE then
        (case tblval_to_chdnodeval_path mem tblval ([], [], []) of (ret, nodes, idc, path) \<Rightarrow> (ret, idc, path))
      else if data_type = QCONF_DATA_TYPE_BATCH_NODE then
        (case tblval_to_batchnodeval_path mem tblval ([], [], []) of (ret, nodes, idc, path) \<Rightarrow> (ret, idc, path))
      else if data_type = QCONF_DATA_TYPE_ZK_HOST then
        (case tblval_to_idcval_idc tblval ([], []) of (ret, host, idc) \<Rightarrow> (ret, idc, []))
      else if data_type = QCONF_DATA_TYPE_LOCAL_IDC then (QCONF_OK, [], [])
      else (QCONF_ERR_DATA_TYPE, [], []))"

definition hash_tbl_getnext ::
  "(nat \<Rightarrow> bool) \<Rightarrow> qhasharr_s option \<Rightarrow> string \<Rightarrow> string \<Rightarrow> nat \<Rightarrow> int \<times> string \<times> string \<times> nat" where
  "hash_tbl_getnext mem tbl tblkey tblval idx =
     (case tbl of
        None \<Rightarrow> (QCONF_ERR_PARAM, tblkey, tblval, idx)
      | Some t \<Rightarrow>
          (case qhasharr_getnext mem t idx of
             (Inl e, idx1) \<Rightarrow>
               (if e = ENOENT \<and> idx1 + 1 = maxslots t + 1 then QCONF_ERR_TBL_END else QCONF_ERR_NOT_FOUND,
                tblkey, tblval, idx1 + 1)
           | (Inr (name, data), idx1) \<Rightarrow>
               (case qconf_verify data of (ret, val) \<Rightarrow>
                  if ret \<noteq> QCONF_OK then (ret, tblkey, val, idx1)
                  else
                    (let data_type = get_data_type name in
                     case key_info mem data_type val of (ret', idc, path) \<Rightarrow>
                       (ret', if ret' = QCONF_OK then snd (serialize_to_tblkey data_type idc path) else name,
                        val, idx1)))))"

lemma qhasharr_getnext_mono: "idx \<le> snd (qhasharr_getnext mem t idx)"
  "qhasharr_getnext mem t idx = (Inr r, idx1) \<Longrightarrow> idx < idx1"
proof -
  show "idx \<le> snd (qhasharr_getnext mem t idx)"
  proof (induction mem t idx rule: qhasharr_getnext.induct)
    case (1 mem t idx)
    then show ?case
      by (subst qhasharr_getnext.simps) (auto simp: Let_def split: sum.splits)
  qed
  show "qhasharr_getnext mem t idx = (Inr r, idx1) \<Longrightarrow> idx < idx1"
  proof (induction mem t idx rule: qhasharr_getnext.induct)
    case (1 mem t idx)
    then show ?case
      by (subst (asm) (2) qhasharr_getnext.simps) (auto simp: Let_def split: sum.splits if_splits)
  qed
qed

lemma hash_tbl_getnext_mono:
  "hash_tbl_getnext mem (Some t) tblkey tblval idx = (ret, k, v, idx1) \<Longrightarrow> idx < idx1"
  using qhasharr_getnext_mono [where idx = idx and mem = mem and t = t]
  by (auto simp: hash_tbl_getnext_def Let_def less_Suc_eq_le split: prod.splits sum.splits if_splits)

text \<open>The loop of \<open>initLruMem\<close>; the out-arguments of the calls carry over between rounds.\<close>

function initLruMem_loop ::
  "(nat \<Rightarrow> bool) \<Rightarrow> qhasharr_s \<Rightarrow> nat \<Rightarrow> nat \<Rightarrow> string \<Rightarrow> string \<Rightarrow> LRU \<Rightarrow> bool \<times> LRU" where
  "initLruMem_loop mem t max_slots idx tblkey tblval l =
     (if idx < max_slots then
        (case hash_tbl_getnext mem (Some t) tblkey tblval idx of (ret, tblkey', tblval', idx') \<Rightarrow>
           if ret = QCONF_OK then
             (case deserialize_from_tblkey tblkey' (NUL, [], []) of (_, data_type, idc, path) \<Rightarrow>
                initLruMem_loop mem t max_slots idx' tblkey' tblval' (if path \<noteq> [] then visitKey tblkey' l else l))
           else if ret = QCONF_ERR_TBL_END then initLruMem_loop mem t max_slots idx' tblkey' tblval' l
           else (False, l))
      else (True, l))"
  by pat_completeness auto
termination
  by (relation "measure (\<lambda>(mem, t, max_slots, idx, tblkey, tblval, l). max_slots - idx)")
     (auto dest!: hash_tbl_getnext_mono [OF sym])

declare initLruMem_loop.simps [simp del]

text \<open>A NULL table leaves \<open>max_slots\<close> 0, so that the loop body never runs.\<close>

definition initLruMem :: "(nat \<Rightarrow> bool) \<Rightarrow> qhasharr_s option \<Rightarrow> LRU \<Rightarrow> bool \<times> LRU" where
  "initLruMem mem tbl l =
     (case tbl of
        None \<Rightarrow> (True, l)
      | Some t \<Rightarrow> (case hash_tbl_get_count tbl of
                      (_, Some (max_slots, used_slots)) \<Rightarrow> initLruMem_loop mem t max_slots 0 [] [] l
                    | (_, None) \<Rightarrow> (True, l)))"

end
