(* ===== verification/QDriver.thy ===== *)
theory QDriver
  imports QMsg QShm
begin

text \<open>
  The C++ driver library: \<open>src/driver/c++/src/driver_api.cc\<close>, \<open>driver_common.cc\<close> and \<open>qconf.cc\<close>.

  A driver maps the agent's table read-only and reads it without a lock while the agent writes.
  The environment record holds what the process does not control: \<open>en_live n\<close> is the table at its \<open>n\<close>-th
  read, so that any change by the agent between two reads is covered; the System V calls, \<open>malloc\<close>
  and \<open>rand\<close> are its other fields, and \<open>en_internal\<close> is the build option \<open>QCONF_INTERNAL\<close>.
\<close>

record drv_env =
  en_shmget :: "int \<Rightarrow> 64 word \<Rightarrow> bool \<Rightarrow> int + int"
  en_shmat :: "int \<Rightarrow> int \<Rightarrow> qhasharr_s option"
  en_msgget :: "int \<Rightarrow> bool \<Rightarrow> int option"
  en_msgsnd :: "nat \<Rightarrow> string \<Rightarrow> int"
  en_live :: "nat \<Rightarrow> qhasharr_s"
  en_mem :: "nat \<Rightarrow> bool"
  en_rand :: nat
  en_internal :: bool

text \<open>
  The static variables of the driver (\<open>d_tbl\<close>: the table is attached), with the reads and sends
  made so far and the messages that were accepted by the queue.
\<close>

record drv =
  d_tbl :: bool
  d_msqid :: int
  d_reads :: nat
  d_sends :: nat
  d_sent :: "string list"

abbreviation (input) QCONF_INVALID_SEM_ID :: int where "QCONF_INVALID_SEM_ID \<equiv> -1"
abbreviation (input) QCONF_DEFAULT_SHM_KEY :: int where "QCONF_DEFAULT_SHM_KEY \<equiv> 0x10cf21d3"
abbreviation (input) QCONF_DEFAULT_MSG_QUEUE_KEY :: int where "QCONF_DEFAULT_MSG_QUEUE_KEY \<equiv> 0x10cf56fe"
abbreviation (input) SHM_RDONLY :: int where "SHM_RDONLY \<equiv> 4096"
abbreviation (input) QCONF_WAIT :: int where "QCONF_WAIT \<equiv> 0"
abbreviation (input) QCONF_NOWAIT :: int where "QCONF_NOWAIT \<equiv> 1"
abbreviation (input) QCONF_MAX_GET_TIMES :: nat where "QCONF_MAX_GET_TIMES \<equiv> 100"

definition drv_start :: drv where
  "drv_start = \<lparr>d_tbl = False, d_msqid = QCONF_INVALID_SEM_ID, d_reads = 0, d_sends = 0, d_sent = []\<rparr>"

section \<open>driver\_api.cc\<close>

definition init_shm :: "drv_env \<Rightarrow> drv \<Rightarrow> int \<times> drv" where
  "init_shm en st =
     (if d_tbl st then (QCONF_OK, st)
      else (case init_hash_tbl (en_shmget en) (en_shmat en) QCONF_DEFAULT_SHM_KEY SHM_RDONLY of (ret, tbl) \<Rightarrow>
              if ret \<noteq> QCONF_OK then (ret, st) else (ret, st\<lparr>d_tbl := True\<rparr>)))"

text \<open>A failed \<open>init_msg_queue\<close> stores the invalid identifier, so that the next call tries again.\<close>

definition init_msg :: "drv_env \<Rightarrow> drv \<Rightarrow> int \<times> drv" where
  "init_msg en st =
     (if d_msqid st \<noteq> QCONF_INVALID_SEM_ID then (QCONF_OK, st)
      else (case init_msg_queue (en_msgget en) QCONF_DEFAULT_MSG_QUEUE_KEY of (ret, msqid) \<Rightarrow>
              (ret, st\<lparr>d_msqid := msqid\<rparr>)))"

definition init_qconf_env :: "drv_env \<Rightarrow> drv \<Rightarrow> int \<times> drv" where
  "init_qconf_env en st =
     (case init_shm en st of (ret, st1) \<Rightarrow> if ret \<noteq> QCONF_OK then (ret, st1) else init_msg en st1)"

text \<open>One read of the attached table.\<close>

definition tbl_now :: "drv_env \<Rightarrow> drv \<Rightarrow> qhasharr_s option" where
  "tbl_now en st = (if d_tbl st then Some (en_live en (d_reads st)) else None)"

definition read_tbl :: "drv_env \<Rightarrow> drv \<Rightarrow> string \<Rightarrow> string \<Rightarrow> int \<times> string \<times> drv" where
  "read_tbl en st tblkey tblval =
     (case hash_tbl_get (en_mem en) (tbl_now en st) tblkey tblval of (ret, val) \<Rightarrow>
        (ret, val, st\<lparr>d_reads := d_reads st + 1\<rparr>))"

definition send_msg_to_agent :: "drv_env \<Rightarrow> drv \<Rightarrow> string \<Rightarrow> string \<Rightarrow> char \<Rightarrow> int \<times> drv" where
  "send_msg_to_agent en st idc path data_type =
     (let tblkey = snd (serialize_to_tblkey data_type idc path) in
      case send_msg (en_msgsnd en) (d_sends st) tblkey of (ret, n) \<Rightarrow>
        (ret, st\<lparr>d_sends := n, d_sent := (if ret = QCONF_OK then d_sent st @ [tblkey] else d_sent st)\<rparr>))"

text \<open>The \<open>while\<close> loop of \<open>qconf_get_\<close>, 5 ms between the reads.\<close>

function wait_loop :: "drv_env \<Rightarrow> drv \<Rightarrow> string \<Rightarrow> int \<Rightarrow> string \<Rightarrow> nat \<Rightarrow> int \<times> string \<times> drv" where
  "wait_loop en st tblkey ret tblval count =
     (if count < QCONF_MAX_GET_TIMES then
        (case read_tbl en st tblkey tblval of (ret', tblval', st') \<Rightarrow>
           if ret' = QCONF_OK then (ret', tblval', st')
           else wait_loop en st' tblkey ret' tblval' (count + 1))
      else (ret, tblval, st))"
  by pat_completeness auto
termination
  by (relation "measure (\<lambda>(en, st, tblkey, ret, tblval, count). QCONF_MAX_GET_TIMES - count)") auto

declare wait_loop.simps [simp del]

text \<open>\<open>qconf_get_\<close>: the code, \<open>tblval\<close> and the driver's state.\<close>

definition qconf_get_raw ::
  "drv_env \<Rightarrow> drv \<Rightarrow> string \<Rightarrow> string \<Rightarrow> char \<Rightarrow> string \<Rightarrow> int \<Rightarrow> int \<times> string \<times> drv" where
  "qconf_get_raw en st path tblval dtype idc flags =
     (case init_qconf_env en st of (ret, st1) \<Rightarrow>
        if ret \<noteq> QCONF_OK then (ret, tblval, st1)
        else
          (case (if idc = [] then
                   (case qconf_get_localidc (en_mem en) (tbl_now en st1) idc of (r, tmp_idc) \<Rightarrow>
                      (r, tmp_idc, st1\<lparr>d_reads := d_reads st1 + 1\<rparr>))
                 else (QCONF_OK, idc, st1)) of
             (ret, tmp_idc, st2) \<Rightarrow>
               if ret \<noteq> QCONF_OK then (ret, tblval, st2)
               else
                 (case serialize_to_tblkey dtype tmp_idc path of (ret, tblkey) \<Rightarrow>
                    if ret \<noteq> QCONF_OK then (ret, tblval, st2)
                    else
                      (case read_tbl en st2 tblkey tblval of (ret, tblval1, st3) \<Rightarrow>
                         if ret = QCONF_OK then (ret, tblval1, st3)
                         else
                           (case send_msg_to_agent en st3 tmp_idc path dtype of (ret_snd, st4) \<Rightarrow>
                              if ret_snd \<noteq> QCONF_OK then (ret_snd, tblval1, st4)
                              else if flags = QCONF_NOWAIT then (ret, tblval1, st4)
                              else wait_loop en st4 tblkey ret tblval1 0)))))"

definition qconf_get :: "drv_env \<Rightarrow> drv \<Rightarrow> string \<Rightarrow> string \<Rightarrow> string \<Rightarrow> int \<Rightarrow> int \<times> string \<times> drv" where
  "qconf_get en st path buf idc flags =
     (if path = [] then (QCONF_ERR_PARAM, buf, st)
      else (case qconf_get_raw en st path [] QCONF_DATA_TYPE_NODE idc flags of (ret, tblval, st') \<Rightarrow>
              if ret \<noteq> QCONF_OK then (ret, buf, st')
              else (case tblval_to_nodeval tblval buf of (ret', buf') \<Rightarrow> (ret', buf', st'))))"

definition qconf_get_children ::
  "drv_env \<Rightarrow> drv \<Rightarrow> string \<Rightarrow> string_vector_t \<Rightarrow> string \<Rightarrow> int \<Rightarrow> int \<times> string_vector_t \<times> drv" where
  "qconf_get_children en st path nodes idc flags =
     (if path = [] then (QCONF_ERR_PARAM, nodes, st)
      else (case qconf_get_raw en st path [] QCONF_DATA_TYPE_SERVICE idc flags of (ret, tblval, st') \<Rightarrow>
              if ret \<noteq> QCONF_OK then (ret, nodes, st')
              else (case tblval_to_chdnodeval (en_mem en) tblval nodes of (ret', nodes') \<Rightarrow> (ret', nodes', st'))))"

definition qconf_get_batchnode_keys ::
  "drv_env \<Rightarrow> drv \<Rightarrow> string \<Rightarrow> string_vector_t \<Rightarrow> string \<Rightarrow> int \<Rightarrow> int \<times> string_vector_t \<times> drv" where
  "qconf_get_batchnode_keys en st path nodes idc flags =
     (if path = [] then (QCONF_ERR_PARAM, nodes, st)
      else (case qconf_get_raw en st path [] QCONF_DATA_TYPE_BATCH_NODE idc flags of (ret, tblval, st') \<Rightarrow>
              if ret \<noteq> QCONF_OK then (ret, nodes, st')
              else (case tblval_to_batchnodeval (en_mem en) tblval nodes of (ret', nodes') \<Rightarrow> (ret', nodes', st'))))"

text \<open>\<open>qconf_batch_nodes\<close>: the keys and values, NULL as \<open>None\<close>.\<close>

type_synonym qconf_batch_nodes = "(string option \<times> string option) list"

definition init_qconf_batch_nodes :: "qconf_batch_nodes option \<Rightarrow> int \<times> qconf_batch_nodes option" where
  "init_qconf_batch_nodes bnodes =
     (case bnodes of None \<Rightarrow> (QCONF_ERR_PARAM, None) | Some _ \<Rightarrow> (QCONF_OK, Some []))"

definition free_qconf_batch_nodes :: "qconf_batch_nodes option \<Rightarrow> qconf_batch_nodes option" where
  "free_qconf_batch_nodes bnodes = (case bnodes of None \<Rightarrow> None | Some _ \<Rightarrow> Some [])"

definition destroy_qconf_batch_nodes :: "qconf_batch_nodes option \<Rightarrow> int \<times> qconf_batch_nodes option" where
  "destroy_qconf_batch_nodes bnodes =
     (case bnodes of None \<Rightarrow> (QCONF_ERR_PARAM, None) | Some b \<Rightarrow> (QCONF_OK, free_qconf_batch_nodes (Some b)))"

text \<open>The loop of \<open>qconf_get_batchnode\<close> over the child names; a failure frees what was collected.\<close>

fun batch_loop ::
  "drv_env \<Rightarrow> drv \<Rightarrow> string \<Rightarrow> string \<Rightarrow> int \<Rightarrow> string_vector_t \<Rightarrow> string \<Rightarrow> qconf_batch_nodes \<Rightarrow>
   int \<times> qconf_batch_nodes \<times> drv" where
  "batch_loop en st path idc flags [] buf acc = (QCONF_OK, acc, st)"
| "batch_loop en st path idc flags (node # nodes) buf acc =
     (let child_path = path @ ''/'' @ sv_str node in
      case qconf_get en st child_path buf idc flags of (ret, buf', st') \<Rightarrow>
        if ret = QCONF_OK then
          (if en_mem en (length (cstr buf') + 1)
           then batch_loop en st' path idc flags nodes buf' (acc @ [(node, Some (cstr buf'))])
           else (QCONF_ERR_MEM, [], st'))
        else (ret, [], st'))"

definition qconf_get_batchnode ::
  "drv_env \<Rightarrow> drv \<Rightarrow> string \<Rightarrow> qconf_batch_nodes \<Rightarrow> string \<Rightarrow> int \<Rightarrow> int \<times> qconf_batch_nodes \<times> drv" where
  "qconf_get_batchnode en st path bnodes idc flags =
     (if path = [] then (QCONF_ERR_PARAM, bnodes, st)
      else (case qconf_get_batchnode_keys en st path [] idc flags of (ret, nodes, st') \<Rightarrow>
              if ret = QCONF_OK then
                (if length nodes = 0 then (ret, [], st')
                 else if \<not> en_mem en (length nodes * 16) then (QCONF_ERR_MEM, [], st')
                 else batch_loop en st' path idc flags nodes [] [])
              else (ret, bnodes, st')))"

section \<open>qconf.cc\<close>

definition delim :: char where "delim = CHR ''/''"

text \<open>\<open>get_node_path\<close>: the two pointer loops drop the leading and trailing delimiters.\<close>

definition get_node_path :: "bool \<Rightarrow> string \<Rightarrow> string \<Rightarrow> int \<times> string" where
  "get_node_path internal path real_path =
     (if length path = 0 then (QCONF_ERR_PARAM, real_path)
      else
        (let from_start = dropWhile (\<lambda>c. c = delim) path;
             body = rev (dropWhile (\<lambda>c. c = delim) (rev from_start))
         in if from_start = [] then (QCONF_ERR_PARAM, real_path)
            else (QCONF_OK, (if internal then ''/qconf/'' else [delim]) @ body)))"

definition init_string_vector :: "string_vector_t option \<Rightarrow> int \<times> string_vector_t option" where
  "init_string_vector nodes =
     (case nodes of None \<Rightarrow> (QCONF_ERR_PARAM, None) | Some _ \<Rightarrow> (QCONF_OK, Some []))"

definition destroy_string_vector :: "string_vector_t option \<Rightarrow> int \<times> string_vector_t option" where
  "destroy_string_vector nodes =
     (case nodes of None \<Rightarrow> (QCONF_ERR_PARAM, None) | Some _ \<Rightarrow> (QCONF_OK, Some []))"

text \<open>The check of the C-string arguments, and \<open>tmp_idc.assign(idc)\<close> for a given IDC.\<close>

definition path_given :: "string option \<Rightarrow> bool" where
  "path_given path = (case path of None \<Rightarrow> False | Some p \<Rightarrow> cstr p \<noteq> [])"

definition idc_arg :: "string option \<Rightarrow> string" where
  "idc_arg idc = (case idc of None \<Rightarrow> [] | Some s \<Rightarrow> cstr s)"

text \<open>
  The functions behind the public interface; \<open>buf\<close> is the caller's buffer of at least \<open>buf_len\<close> bytes.
\<close>

definition qconf_get_conf_raw ::
  "drv_env \<Rightarrow> drv \<Rightarrow> string option \<Rightarrow> string option \<Rightarrow> nat \<Rightarrow> string option \<Rightarrow> int \<Rightarrow>
   int \<times> string option \<times> drv" where
  "qconf_get_conf_raw en st path buf buf_len idc flags =
     (if \<not> path_given path \<or> buf = None then (QCONF_ERR_PARAM, buf, st)
      else (case get_node_path (en_internal en) (cstr (the path)) [] of (ret, real_path) \<Rightarrow>
        if ret \<noteq> QCONF_OK then (ret, buf, st)
        else (case qconf_get en st real_path [] (idc_arg idc) flags of (ret, tmp_buf, st') \<Rightarrow>
                if ret \<noteq> QCONF_OK then (ret, buf, st')
                else if length tmp_buf \<ge> buf_len then (QCONF_ERR_BUF_NOT_ENOUGH, buf, st')
                else (ret, Some (blit 0 (tmp_buf @ [NUL]) (the buf)), st'))))"

definition qconf_get_allhost_raw ::
  "drv_env \<Rightarrow> drv \<Rightarrow> string option \<Rightarrow> string_vector_t option \<Rightarrow> string option \<Rightarrow> int \<Rightarrow>
   int \<times> string_vector_t option \<times> drv" where
  "qconf_get_allhost_raw en st path nodes idc flags =
     (if \<not> path_given path \<or> nodes = None then (QCONF_ERR_PARAM, nodes, st)
      else (case get_node_path (en_internal en) (cstr (the path)) [] of (ret, real_path) \<Rightarrow>
        if ret \<noteq> QCONF_OK then (ret, nodes, st)
        else
          (let nodes1 = (if length (the nodes) \<noteq> 0 then snd (destroy_string_vector nodes) else nodes) in
           case qconf_get_children en st real_path (the nodes1) (idc_arg idc) flags of (ret, nodes', st') \<Rightarrow>
             (ret, Some nodes', st'))))"

definition qconf_get_host_raw ::
  "drv_env \<Rightarrow> drv \<Rightarrow> string option \<Rightarrow> string option \<Rightarrow> nat \<Rightarrow> string option \<Rightarrow> int \<Rightarrow>
   int \<times> string option \<times> drv" where
  "qconf_get_host_raw en st path buf buf_len idc flags =
     (if \<not> path_given path \<or> buf = None then (QCONF_ERR_PARAM, buf, st)
      else (case qconf_get_allhost_raw en st path (Some []) idc flags of (ret, nodes, st') \<Rightarrow>
        if ret \<noteq> QCONF_OK then (ret, buf, st')
        else if length (the nodes) = 0 then (ret, Some (blit 0 [NUL] (the buf)), st')
        else
          (let r = en_rand en mod length (the nodes);
               node = sv_str (the nodes ! r)
           in if length node \<ge> buf_len then (QCONF_ERR_BUF_NOT_ENOUGH, buf, st')
              else (ret, Some (blit 0 (node @ [NUL]) (the buf)), st'))))"

definition qconf_get_batch_conf_raw ::
  "drv_env \<Rightarrow> drv \<Rightarrow> string option \<Rightarrow> qconf_batch_nodes option \<Rightarrow> string option \<Rightarrow> int \<Rightarrow>
   int \<times> qconf_batch_nodes option \<times> drv" where
  "qconf_get_batch_conf_raw en st path bnodes idc flags =
     (if \<not> path_given path \<or> bnodes = None then (QCONF_ERR_PARAM, bnodes, st)
      else (case get_node_path (en_internal en) (cstr (the path)) [] of (ret, real_path) \<Rightarrow>
        if ret \<noteq> QCONF_OK then (ret, bnodes, st)
        else
          (let bnodes1 = (if length (the bnodes) \<noteq> 0 then snd (destroy_qconf_batch_nodes bnodes) else bnodes) in
           case qconf_get_batchnode en st real_path (the bnodes1) (idc_arg idc) flags of (ret, bnodes', st') \<Rightarrow>
             (ret, Some bnodes', st'))))"

definition qconf_get_batch_keys_raw ::
  "drv_env \<Rightarrow> drv \<Rightarrow> string option \<Rightarrow> string_vector_t option \<Rightarrow> string option \<Rightarrow> int \<Rightarrow>
   int \<times> string_vector_t option \<times> drv" where
  "qconf_get_batch_keys_raw en st path nodes idc flags =
     (if \<not> path_given path \<or> nodes = None then (QCONF_ERR_PARAM, nodes, st)
      else (case get_node_path (en_internal en) (cstr (the path)) [] of (ret, real_path) \<Rightarrow>
        if ret \<noteq> QCONF_OK then (ret, nodes, st)
        else
          (let nodes1 = (if length (the nodes) \<noteq> 0 then snd (destroy_string_vector nodes) else nodes) in
           case qconf_get_batchnode_keys en st real_path (the nodes1) (idc_arg idc) flags of (ret, nodes', st') \<Rightarrow>
             (ret, Some nodes', st'))))"

definition qconf_get_batch_keys_native_raw ::
  "drv_env \<Rightarrow> drv \<Rightarrow> string option \<Rightarrow> string_vector_t option \<Rightarrow> string option \<Rightarrow> int \<Rightarrow>
   int \<times> string_vector_t option \<times> drv" where
  "qconf_get_batch_keys_native_raw en st path nodes idc flags =
     (if \<not> path_given path \<or> nodes = None then (QCONF_ERR_PARAM, nodes, st)
      else
        (let nodes1 = (if length (the nodes) \<noteq> 0 then snd (destroy_string_vector nodes) else nodes) in
         case qconf_get_batchnode_keys en st (cstr (the path)) (the nodes1) (idc_arg idc) flags of
           (ret, nodes', st') \<Rightarrow> (ret, Some nodes', st')))"

text \<open>The public functions: the \<open>get\<close> variants wait for the agent, the \<open>aget\<close> variants do not.\<close>

definition qconf_init :: "drv_env \<Rightarrow> drv \<Rightarrow> int \<times> drv" where
  "qconf_init en st = init_qconf_env en st"

definition qconf_get_conf where
  "qconf_get_conf en st path buf buf_len idc = qconf_get_conf_raw en st path buf buf_len idc QCONF_WAIT"

definition qconf_aget_conf where
  "qconf_aget_conf en st path buf buf_len idc = qconf_get_conf_raw en st path buf buf_len idc QCONF_NOWAIT"

definition qconf_get_batch_conf where
  "qconf_get_batch_conf en st path bnodes idc = qconf_get_batch_conf_raw en st path bnodes idc QCONF_WAIT"

definition qconf_aget_batch_conf where
  "qconf_aget_batch_conf en st path bnodes idc = qconf_get_batch_conf_raw en st path bnodes idc QCONF_NOWAIT"

definition qconf_get_batch_keys where
  "qconf_get_batch_keys en st path nodes idc = qconf_get_batch_keys_raw en st path nodes idc QCONF_WAIT"

definition qconf_aget_batch_keys where
  "qconf_aget_batch_keys en st path nodes idc = qconf_get_batch_keys_raw en st path nodes idc QCONF_NOWAIT"

definition qconf_get_batch_keys_native where
  "qconf_get_batch_keys_native en st path nodes idc = qconf_get_batch_keys_native_raw en st path nodes idc QCONF_WAIT"

definition qconf_aget_batch_keys_native where
  "qconf_aget_batch_keys_native en st path nodes idc = qconf_get_batch_keys_native_raw en st path nodes idc QCONF_NOWAIT"

definition qconf_get_allhost where
  "qconf_get_allhost en st path nodes idc = qconf_get_allhost_raw en st path nodes idc QCONF_WAIT"

definition qconf_aget_allhost where
  "qconf_aget_allhost en st path nodes idc = qconf_get_allhost_raw en st path nodes idc QCONF_NOWAIT"

definition qconf_get_host where
  "qconf_get_host en st path buf buf_len idc = qconf_get_host_raw en st path buf buf_len idc QCONF_WAIT"

definition qconf_aget_host where
  "qconf_aget_host en st path buf buf_len idc = qconf_get_host_raw en st path buf buf_len idc QCONF_NOWAIT"

section \<open>Paths\<close>

definition strip_delims :: "string \<Rightarrow> string" where
  "strip_delims s = rev (dropWhile (\<lambda>c. c = delim) (rev (dropWhile (\<lambda>c. c = delim) s)))"

lemma in_dropWhile: "x \<in> set s \<Longrightarrow> \<not> P x \<Longrightarrow> x \<in> set (dropWhile P s)"
  by (induction s) auto

lemma strip_Nil: "strip_delims s = [] \<longleftrightarrow> (\<forall>c\<in>set s. c = delim)"
  using in_dropWhile [of _ s "\<lambda>c. c = delim"] by (auto simp: strip_delims_def dest: set_dropWhileD)

lemma get_node_path_strip:
  "get_node_path internal path old =
     (if strip_delims path = [] then (QCONF_ERR_PARAM, old)
      else (QCONF_OK, (if internal then ''/qconf/'' else [delim]) @ strip_delims path))"
  by (auto simp: get_node_path_def Let_def strip_Nil) (simp_all add: strip_delims_def)

lemma dropWhile_pad: "dropWhile (\<lambda>c. c = delim) (replicate m delim @ s) = dropWhile (\<lambda>c. c = delim) s"
  by (induction m) auto

lemma strip_delims_pad: "strip_delims (replicate m delim @ s @ replicate n delim) = strip_delims s"
proof (cases "\<forall>c\<in>set s. c = delim")
  case True
  then show ?thesis using strip_Nil [of s] strip_Nil [of "replicate m delim @ s @ replicate n delim"] by auto
next
  case False
  then obtain x where "x \<in> set s" "x \<noteq> delim" by blast
  then show ?thesis by (simp add: strip_delims_def dropWhile_pad dropWhile_append1)
qed

lemma strip_delims_ends:
  assumes "strip_delims s \<noteq> []"
  shows "hd (strip_delims s) \<noteq> delim \<and> last (strip_delims s) \<noteq> delim"
proof -
  let ?P = "\<lambda>c. c = delim"
  define t where "t = dropWhile ?P s"
  have st: "strip_delims s = rev (dropWhile ?P (rev t))" by (simp add: strip_delims_def t_def)
  have "rev t = takeWhile ?P (rev t) @ dropWhile ?P (rev t)" by simp
  then have t: "t = strip_delims s @ rev (takeWhile ?P (rev t))" unfolding st by (metis rev_append rev_rev_ident)
  then have "hd (strip_delims s) = hd t" using assms by (metis hd_append2)
  moreover have "hd t \<noteq> delim" using t assms hd_dropWhile [of ?P s] by (metis append_is_Nil_conv t_def)
  moreover have "hd (dropWhile ?P (rev t)) \<noteq> delim" using assms hd_dropWhile [of ?P "rev t"] by (simp add: st)
  ultimately show ?thesis using assms by (simp add: st last_rev)
qed

end
