(* ===== verification/QShmThms.thy ===== *)
theory QShmThms
  imports QShm QHasharrThms
begin

text \<open>
  Properties of the shared-memory interface: exactness of the frame verification, the LRU list as
  a recency list, the eviction loop, set-then-get, and the recovery of keys by enumeration.
\<close>

section \<open>Frames\<close>

lemma decode_prefix: "length s = w \<Longrightarrow> qconf_decode_num w (s @ r) = le_num s"
  by (simp add: qconf_decode_num_def)

lemma frame_short: "length v \<le> 1024 \<Longrightarrow> frame v = qconf_encode_num 4 (length v) @ v @ v"
  by (simp add: frame_def to_width_def Let_def)

lemma frame_long: "1024 < length v \<Longrightarrow> length v < 2 ^ 32 \<Longrightarrow> frame v = qconf_encode_num 4 (length v) @ v @ qhashmd5 v"
  by (simp add: frame_def to_width_def Let_def)

lemma verify_frame:
  assumes "length v < 2 ^ 32"
  shows "qconf_verify (frame v @ rest) = (QCONF_OK, v)"
proof (cases "length v \<le> 1024")
  case True
  then show ?thesis
    by (simp add: qconf_verify_def frame_short Let_def chunk_def)
next
  case False
  then show ?thesis
    using assms by (simp add: qconf_verify_def frame_long Let_def chunk_def)
qed

lemma split_at_chunks:
  "s = take a s @ chunk a b s @ chunk (a + b) c s @ drop (a + b + c) s"
proof -
  have "drop a s = take b (drop a s) @ drop (a + b) s" "drop (a + b) s = take c (drop (a + b) s) @ drop (a + b + c) s"
    by (metis append_take_drop_id drop_drop add.commute)+
  then have "take a s @ drop a s = take a s @ chunk a b s @ chunk (a + b) c s @ drop (a + b + c) s"
    by (simp add: chunk_def)
  then show ?thesis by simp
qed

lemma encode_decode:
  assumes "4 \<le> length s"
  shows "qconf_encode_num 4 (qconf_decode_num 4 s) = take 4 s"
proof -
  have "length (take 4 s) = 4" using assms by simp
  then show ?thesis using le_bytes_le_num [of "take 4 s"] by (simp add: qconf_encode_num_def qconf_decode_num_def)
qed

lemma decode_less: "qconf_decode_num 4 s < 2 ^ 32"
proof -
  have "le_num (take 4 s) < 256 ^ length (take 4 s)" by (rule le_num_bound)
  also have "\<dots> \<le> 256 ^ 4" by (rule power_increasing) simp_all
  finally show ?thesis by (simp add: qconf_decode_num_def)
qed

lemma verify_sound:
  assumes "qconf_verify s = (QCONF_OK, v)"
  shows "length v < 2 ^ 32 \<and> (\<exists>rest. s = frame v @ rest)"
proof -
  define n where "n = qconf_decode_num 4 s"
  define c where "c = (if n > 1024 then 16 else n)"
  have sz: "4 + n + c \<le> length s" and v: "v = chunk 4 n s"
    and code: "chunk (4 + n) c s = (if n > 1024 then qhashmd5 v else v)"
    using assms by (auto simp: qconf_verify_def Let_def n_def c_def mult_2_right split: if_splits)
  have len: "length v = n" using v sz by simp
  have n32: "n < 2 ^ 32" unfolding n_def by (rule decode_less)
  have pre: "take 4 s = qconf_encode_num 4 n" using encode_decode [of s] sz by (simp add: n_def)
  have "s = qconf_encode_num 4 n @ v @ (if n > 1024 then qhashmd5 v else v) @ drop (4 + n + c) s"
    using split_at_chunks [of s 4 n c] unfolding pre v [symmetric] code .
  moreover have "frame v = qconf_encode_num 4 n @ v @ (if n > 1024 then qhashmd5 v else v)"
    using len n32 frame_short [of v] frame_long [of v] by auto
  ultimately show ?thesis using len n32 by auto
qed

text \<open>
  C23: Verification accepts exactly the frames: a byte string is accepted with value \<open>v\<close> if and only
  if it starts with the frame that a store of \<open>v\<close> writes.
\<close>

theorem qconf_verify_exact:
  "qconf_verify s = (QCONF_OK, v) \<longleftrightarrow> length v < 2 ^ 32 \<and> (\<exists>rest. s = frame v @ rest)"
  using verify_frame [of v] verify_sound [of s v] by blast

text \<open>
  C20: A torn read of two frames of equally long short values, the first bytes of one and the other
  bytes of the second, is rejected or gives one of the two values: never a mixture.
\<close>

theorem qconf_verify_torn:
  assumes "length a = length b" and "length a \<le> 1024"
    and "qconf_verify (take n (frame a) @ drop n (frame b)) = (QCONF_OK, w)"
  shows "w = a \<or> w = b"
proof -
  let ?e = "qconf_encode_num 4 (length a)" and ?s = "take n (frame a) @ drop n (frame b)"
  have fa: "frame a = ?e @ a @ a" and fb: "frame b = ?e @ b @ b"
    using assms frame_short [of a] frame_short [of b] by auto
  have len: "length ?s = 4 + length a + length a"
    using assms(1) by (cases "n \<le> 4 + length a + length a") (simp_all add: fa fb)
  obtain rest where rest: "?s = frame w @ rest" and w32: "length w < 2 ^ 32"
    using verify_sound [OF assms(3)] by blast
  have e: "take 4 ?s = ?e" by (cases "n \<le> 4") (simp_all add: fa fb)
  obtain c where fw: "frame w = qconf_encode_num 4 (length w) @ w @ c"
    using w32 frame_short [of w] frame_long [of w] by (metis not_le)
  have "qconf_encode_num 4 (length w) = ?e" using e unfolding rest fw by simp
  then have lw: "length w = length a"
    using le_bytes_inj [of 4 "length w" "length a"] w32 assms(2) by (simp add: qconf_encode_num_def)
  then have s: "?s = ?e @ w @ w" using rest len frame_short [of w] assms(2) by auto
  show ?thesis
  proof (cases "n \<le> 4 + length a")
    case True
    then have "?s = (take n (?e @ a) @ drop n (?e @ b)) @ b" by (simp add: fa fb assms(1))
    then have "(take n (?e @ a) @ drop n (?e @ b)) @ b = (?e @ w) @ w" using s by simp
    then show ?thesis by (metis append_eq_append_conv lw assms(1))
  next
    case False
    then have "?s = ?e @ a @ take (n - (4 + length a)) a @ drop n (frame b)" by (simp add: fa)
    then have "a @ take (n - (4 + length a)) a @ drop n (frame b) = w @ w" using s by simp
    then show ?thesis using lw by (metis append_eq_append_conv)
  qed
qed

theorem qconf_verify_torn_witness:
  "\<exists>w. qconf_verify (take 4 (frame ''ab'') @ drop 4 (frame ''cd'')) = (QCONF_OK, w) \<and> (w = ''ab'' \<or> w = ''cd'')"
proof -
  have "take 4 (frame ''ab'') @ drop 4 (frame ''cd'') = frame ''cd'' @ []" by (simp add: frame_short)
  then have v: "qconf_verify (take 4 (frame ''ab'') @ drop 4 (frame ''cd'')) = (QCONF_OK, ''cd'')"
    using verify_frame [of "''cd''" "[]"] by simp
  show ?thesis using qconf_verify_torn [of "''ab''" "''cd''", OF _ _ v] v by simp
qed

section \<open>The LRU list as a recency list\<close>

definition lru_keys :: "LRU \<Rightarrow> string list" where
  "lru_keys l = map snd (lruMem l)"

definition lru_inv :: "LRU \<Rightarrow> bool" where
  "lru_inv l \<longleftrightarrow> distinct (map fst (lruMem l)) \<and> (\<forall>p\<in>set (lruMem l). fst p < fresh_node l)
     \<and> (\<forall>k n. keyToIterator l k = Some n \<longleftrightarrow> (n, k) \<in> set (lruMem l))"

lemma lru_inv_new [simp]: "lru_inv new_LRU" "lru_keys new_LRU = []"
  by (simp_all add: lru_inv_def new_LRU_def lru_keys_def)

lemma lru_nodes:
  assumes "lru_inv l" "(n, k) \<in> set (lruMem l)" "(n', k') \<in> set (lruMem l)"
  shows "n = n' \<longleftrightarrow> k = k'"
  using assms by (auto simp: lru_inv_def) (metis eq_key_imp_eq_value option.inject)+

lemma lru_keys_distinct: "lru_inv l \<Longrightarrow> distinct (lru_keys l)"
  unfolding lru_keys_def distinct_map
  by (auto simp: inj_on_def lru_nodes [symmetric]) (auto simp: lru_inv_def distinct_map)

lemma push_front_ok:
  assumes "distinct (map fst (lruMem l))" "\<forall>p\<in>set (lruMem l). fst p < fresh_node l"
    and "\<And>k n. k \<noteq> key \<Longrightarrow> keyToIterator l k = Some n \<longleftrightarrow> (n, k) \<in> set (lruMem l)"
    and "key \<notin> snd ` set (lruMem l)"
  shows "lru_inv (push_front key l)" "lru_keys (push_front key l) = key # lru_keys l"
  using assms by (auto simp: lru_inv_def push_front_def lru_keys_def image_iff)

lemma visitKey_ok:
  assumes "lru_inv l"
  shows "lru_inv (visitKey key l) \<and>
    lru_keys (visitKey key l) = (if key = QCONF_KEY_TYPE_LOCAL_IDC then lru_keys l else key # removeAll key (lru_keys l))"
proof (cases "keyToIterator l key")
  case None
  then have "key \<notin> snd ` set (lruMem l)" using assms by (force simp: lru_inv_def)
  moreover from this have "removeAll key (lru_keys l) = lru_keys l" by (auto simp: lru_keys_def intro: removeAll_id)
  ultimately show ?thesis
    using None assms push_front_ok [of l key] by (auto simp: visitKey_def lru_inv_def)
next
  case (Some it)
  then have it: "(it, key) \<in> set (lruMem l)" using assms by (simp add: lru_inv_def)
  let ?l = "l\<lparr>lruMem := filter (\<lambda>p. fst p \<noteq> it) (lruMem l)\<rparr>"
  have f: "fst p \<noteq> it \<longleftrightarrow> snd p \<noteq> key" if "p \<in> set (lruMem l)" for p
    using lru_nodes [OF assms _ it, of "fst p" "snd p"] that by simp
  have "map snd (filter (\<lambda>p. fst p \<noteq> it) (lruMem l)) = removeAll key (map snd (lruMem l))"
    unfolding removeAll_filter_not_eq filter_map comp_def using f by (auto intro!: arg_cong [where f = "map snd"] filter_cong)
  then have k: "lru_keys ?l = removeAll key (lru_keys l)" by (simp add: lru_keys_def)
  have g: "k = key" if "(it, k) \<in> set (lruMem l)" for k using f [OF that] by simp
  have p: "lru_inv (push_front key ?l)"
    using assms f g by (intro push_front_ok(1)) (auto simp: lru_inv_def distinct_map_filter)
  have "lru_keys (push_front key ?l) = key # lru_keys ?l" by (simp add: push_front_def lru_keys_def)
  then show ?thesis using Some p k assms by (simp add: visitKey_def)
qed

lemma removeKey_ok:
  assumes "lru_inv l" "lru_keys l \<noteq> []"
  shows "lru_inv (snd (removeKey l)) \<and> lru_keys (snd (removeKey l)) = butlast (lru_keys l)
    \<and> fst (removeKey l) = last (lru_keys l)"
proof -
  obtain ps n k where l: "lruMem l = ps @ [(n, k)]"
    using assms(2) by (metis list.map_disc_iff lru_keys_def prod.exhaust rev_exhaust)
  have kk: "keyToIterator l k = Some n" using assms(1) by (auto simp: lru_inv_def l)
  have "n \<notin> fst ` set ps" using assms(1) by (simp add: lru_inv_def l)
  then have "(n', k) \<notin> set ps" for n'
    using lru_nodes [OF assms(1), of n' k n k] by (force simp: l)
  then show ?thesis
    using assms(1) kk by (auto simp: removeKey_def Let_def l lru_inv_def lru_keys_def map_butlast image_iff)
qed

interpretation lru: recency lru_inv lru_keys getRemoveKey "\<lambda>l. snd (removeKey l)" visitKey
  "\<lambda>k. k = QCONF_KEY_TYPE_LOCAL_IDC"
proof (unfold_locales, goal_cases)
  case (2 s)
  then show ?case by (auto simp: getRemoveKey_def lru_keys_def last_map)
qed (simp_all add: lru_keys_distinct removeKey_ok visitKey_ok)

section \<open>Eviction\<close>

lemma tbl_remove_ok:
  assumes "tbl_inv t" "key \<noteq> []"
  shows "tbl_remove t key = (QCONF_OK, snd (qhasharr_remove t key))"
  using qhasharr_remove_spec [OF assms(1), of key] assms(2)
  by (cases "tbl_map (slots t) (key_of t key)") (auto simp: tbl_remove_def)

lemma store_ok_less:
  assumes "store_ok t k v" "tbl_inv t'" "maxslots t' = maxslots t"
    and "\<And>i. tbl_map (slots t') i \<noteq> None \<Longrightarrow> tbl_map (slots t) i \<noteq> None"
  shows "store_ok t' k v"
proof -
  have "keys_ok (slots t)" using assms(1) by (simp add: store_ok_def tbl_inv_def)
  then have "bucket_load (tbl_map (slots t')) (bucket t k) \<le> bucket_load (tbl_map (slots t)) (bucket t k)"
    using assms(4) by (rule bucket_load_mono)
  then show ?thesis using assms bucket_maxslots [OF assms(3), of k] by (simp add: store_ok_def)
qed

lemma store_ok_remove:
  assumes "store_ok t k v"
  shows "store_ok (snd (qhasharr_remove t x)) k v"
proof -
  have "tbl_inv t" using assms by (simp add: store_ok_def)
  from remove_view [OF this, of x] show ?thesis
    by (intro store_ok_less [OF assms]) (auto split: if_splits)
qed

text \<open>The state between two rounds: \<open>r\<close> is the outcome of a store of \<open>v\<close> under \<open>k\<close> that led to \<open>t\<close>.\<close>

definition after_put :: "string \<Rightarrow> string \<Rightarrow> unit qres \<Rightarrow> qhasharr_s \<Rightarrow> bool" where
  "after_put k v r t \<longleftrightarrow> tbl_inv t \<and>
     (case r of Inl e \<Rightarrow> e = ENOBUFS \<and> store_ok t k v | Inr _ \<Rightarrow> tbl_map (slots t) (key_of t k) = Some v)"

lemma put_after:
  assumes "store_ok t k v" "qhasharr_put t k v = (r, t')"
  shows "after_put k v r t' \<and> maxslots t' = maxslots t
    \<and> (\<forall>i. i \<noteq> key_of t k \<longrightarrow> tbl_map (slots t') i = tbl_map (slots t) i)
    \<and> (\<forall>e. r = Inl e \<longrightarrow> (\<forall>i. tbl_map (slots t') i \<noteq> None \<longrightarrow> tbl_map (slots t) i \<noteq> None)
        \<and> usedslots t + int (nblocks v) > int (maxslots t))"
proof -
  note p = put_spec [OF assms]
  have k: "key_of t' k = key_of t k" using p by (simp add: key_of_id)
  show ?thesis
  proof (cases r)
    case (Inl e)
    then have sub: "\<forall>i. tbl_map (slots t') i \<noteq> None \<longrightarrow> tbl_map (slots t) i \<noteq> None"
      and oth: "\<forall>i. i \<noteq> key_of t k \<longrightarrow> tbl_map (slots t') i = tbl_map (slots t) i"
      using p by (auto split: if_splits)
    then have "store_ok t' k v" using p by (intro store_ok_less [OF assms(1)]) auto
    then show ?thesis using p Inl sub oth by (simp add: after_put_def)
  next
    case (Inr u)
    then show ?thesis using p k by (simp add: after_put_def)
  qed
qed

lemma evict_spec:
  assumes "after_put k v r t" "lru_inv l" "evict_loop k v r t l = (r', t', l')"
  shows "after_put k v r' t' \<and> lru_inv l' \<and> maxslots t' = maxslots t
    \<and> (\<exists>es. lru_keys l = lru_keys l' @ es
        \<and> (\<forall>i. i \<noteq> key_of t k \<longrightarrow> tbl_map (slots t') i =
              (if i \<in> store_id (maxslots t) ` set es then None else tbl_map (slots t) i)))
    \<and> (\<forall>e. r' = Inl e \<longrightarrow> getRemoveKey l' = [])"
  using assms
proof (induction k v r t l rule: evict_loop.induct)
  case (1 k v r t l)
  show ?case
  proof (cases "r = Inl ENOBUFS \<and> getRemoveKey l \<noteq> []")
    case False
    have rm: "tbl_remove t [] = (QCONF_ERR_PARAM, t)" by (simp add: tbl_remove_def)
    have "evict_loop k v r t l = (r, t, l)"
      using False rm by (subst evict_loop.simps) auto
    moreover have "r = Inl e \<Longrightarrow> getRemoveKey l = []" for e
      using False 1(2) by (auto simp: after_put_def)
    ultimately show ?thesis using 1(2,3,4) by auto
  next
    case True
    let ?x = "getRemoveKey l" and ?l = "snd (removeKey l)"
    have so: "store_ok t k v" and inv: "tbl_inv t" using 1(2) True by (auto simp: after_put_def)
    have ne: "lru_keys l \<noteq> []" using True by (auto simp: getRemoveKey_def lru_keys_def)
    have rm: "tbl_remove t ?x = (QCONF_OK, snd (qhasharr_remove t ?x))" using inv True by (simp add: tbl_remove_ok)
    obtain r2 t2 where p: "qhasharr_put (snd (qhasharr_remove t ?x)) k v = (r2, t2)" by fastforce
    note pa = put_after [OF store_ok_remove [OF so] p] and rv = remove_view [OF inv, of ?x]
    have ev: "evict_loop k v r2 t2 ?l = (r', t', l')" using 1(4) True rm p by (subst (asm) evict_loop.simps) simp
    have k2: "key_of t2 k = key_of t k" and k1: "key_of (snd (qhasharr_remove t ?x)) k = key_of t k"
      and m2: "maxslots t2 = maxslots t" using pa rv by (simp_all add: key_of_id)
    have "lru_inv ?l" using lru.cut_ok [OF 1(3) ne] .
    from 1(1) [OF _ rm [symmetric] _ p [symmetric] _ this ev] pa True
    obtain es where es: "lru_keys ?l = lru_keys l' @ es"
      and ih: "after_put k v r' t'" "lru_inv l'" "maxslots t' = maxslots t2" "\<forall>e. r' = Inl e \<longrightarrow> getRemoveKey l' = []"
      and mp: "\<forall>i. i \<noteq> key_of t k \<longrightarrow> tbl_map (slots t') i =
              (if i \<in> store_id (maxslots t) ` set es then None else tbl_map (slots t2) i)"
      by (auto simp: k2 m2)
    have "lru_keys l = lru_keys l' @ (es @ [?x])" using lru.split_victim [OF 1(3) ne] es by simp
    moreover have "\<forall>i. i \<noteq> key_of t k \<longrightarrow> tbl_map (slots t') i =
        (if i \<in> store_id (maxslots t) ` set (es @ [?x]) then None else tbl_map (slots t) i)"
    proof (intro allI impI)
      fix i assume i: "i \<noteq> key_of t k"
      have "tbl_map (slots t2) i = (if i = store_id (maxslots t) ?x then None else tbl_map (slots t) i)"
        using pa i k1 rv(3) by (simp add: key_of_id del: split_paired_All)
      then show "tbl_map (slots t') i = (if i \<in> store_id (maxslots t) ` set (es @ [?x]) then None else tbl_map (slots t) i)"
        using mp [rule_format, OF i] by auto
    qed
    ultimately show ?thesis using ih(1,2,4) ih(3) [unfolded m2] by blast
  qed
qed

text \<open>\<open>pruned k t xs w\<close>: table \<open>w\<close> has the entries of \<open>t\<close> without those of the keys \<open>xs\<close>; the
  entry of \<open>k\<close> itself may be missing too, for a failed store can lose it.\<close>

definition pruned :: "string \<Rightarrow> qhasharr_s \<Rightarrow> string list \<Rightarrow> qhasharr_s \<Rightarrow> bool" where
  "pruned k t xs w \<longleftrightarrow> tbl_inv w \<and> maxslots w = maxslots t
     \<and> (\<forall>i. tbl_map (slots w) i = (if i \<in> store_id (maxslots t) ` set xs then None else tbl_map (slots t) i)
          \<or> i = store_id (maxslots t) k \<and> tbl_map (slots w) i = None)"

lemma pruned_put_remove:
  assumes "store_ok u k v" "qhasharr_put u k v = (Inl e, t)" "pruned k (snd (qhasharr_remove t x)) xs w"
  shows "pruned k u (xs @ [x]) w"
proof -
  note pa = put_after [OF assms(1,2)] and ps = put_spec [OF assms(1,2)]
  have "tbl_inv t" using pa by (simp add: after_put_def)
  note rv = remove_view [OF this, of x]
  have m: "maxslots (snd (qhasharr_remove t x)) = maxslots u" "maxslots t = maxslots u" using rv pa by simp_all
  have t: "tbl_map (slots t) i = tbl_map (slots u) i \<or> i = store_id (maxslots u) k \<and> tbl_map (slots t) i = None" for i
    using ps by (auto simp: key_of_id split: if_splits)
  show ?thesis
    unfolding pruned_def
  proof (intro conjI allI)
    show "tbl_inv w" "maxslots w = maxslots u" using assms(3) m by (simp_all add: pruned_def)
    fix i
    have w: "tbl_map (slots w) i = (if i \<in> store_id (maxslots u) ` set xs then None else tbl_map (slots (snd (qhasharr_remove t x))) i)
        \<or> i = store_id (maxslots u) k \<and> tbl_map (slots w) i = None"
      using assms(3) unfolding pruned_def m by blast
    have r: "tbl_map (slots (snd (qhasharr_remove t x))) i = (if i = store_id (maxslots u) x then None else tbl_map (slots t) i)"
      unfolding rv(3) key_of_id m by simp
    show "tbl_map (slots w) i = (if i \<in> store_id (maxslots u) ` set (xs @ [x]) then None else tbl_map (slots u) i)
        \<or> i = store_id (maxslots u) k \<and> tbl_map (slots w) i = None"
      using w t [of i] unfolding r by (auto split: if_splits)
  qed
qed

text \<open>No key is evicted without need: before the last one went, the value did not fit.\<close>

lemma evict_minimal:
  assumes "store_ok u k v" "qhasharr_put u k v = (r, t)" "lru_inv l" "evict_loop k v r t l = (r', t', l')"
    and "lru_keys l = lru_keys l' @ es" "es \<noteq> []"
  shows "\<exists>w. pruned k u (tl es) w \<and> fst (qhasharr_put w k v) = Inl ENOBUFS"
  using assms
proof (induction k v r t l arbitrary: u es rule: evict_loop.induct)
  case (1 k v r t l)
  show ?case
  proof (cases "r = Inl ENOBUFS \<and> getRemoveKey l \<noteq> []")
    case False
    have rm: "tbl_remove t [] = (QCONF_ERR_PARAM, t)" by (simp add: tbl_remove_def)
    have "evict_loop k v r t l = (r, t, l)" using False rm by (subst evict_loop.simps) auto
    then show ?thesis using 1(5,6,7) by simp
  next
    case True
    let ?x = "getRemoveKey l" and ?l = "snd (removeKey l)"
    note pa = put_after [OF 1(2,3)]
    have so: "store_ok t k v" and inv: "tbl_inv t" using pa True by (auto simp: after_put_def)
    have ne: "lru_keys l \<noteq> []" using True by (auto simp: getRemoveKey_def lru_keys_def)
    have rm: "tbl_remove t ?x = (QCONF_OK, snd (qhasharr_remove t ?x))" using inv True by (simp add: tbl_remove_ok)
    obtain r2 t2 where p: "qhasharr_put (snd (qhasharr_remove t ?x)) k v = (r2, t2)" by fastforce
    have ev: "evict_loop k v r2 t2 ?l = (r', t', l')" using 1(5) True rm p by (subst (asm) evict_loop.simps) simp
    have "lru_keys ?l @ [?x] = lru_keys l' @ es" using lru.split_victim [OF 1(4) ne] 1(6) by simp
    then have ks: "lru_keys ?l = lru_keys l' @ butlast es" "es = butlast es @ [?x]"
      using 1(7) by (metis butlast_append butlast_snoc) (metis 1(7) \<open>lru_keys ?l @ [?x] = lru_keys l' @ es\<close> append_butlast_last_id last_appendR last_snoc)
    have put: "qhasharr_put u k v = (Inl ENOBUFS, t)" using 1(3) True by simp
    show ?thesis
    proof (cases "butlast es = []")
      case True
      then have "es = [?x]" using ks(2) by simp
      moreover have "pruned k u [] u" using 1(2) by (simp add: pruned_def store_ok_def)
      ultimately show ?thesis using put by (intro exI [of _ u]) simp
    next
      case False
      from 1(1) [OF _ rm [symmetric] _ p [symmetric] store_ok_remove [OF so] p lru.cut_ok [OF 1(4) ne] ev ks(1) this] True
      obtain w where w: "pruned k (snd (qhasharr_remove t ?x)) (tl (butlast es)) w" "fst (qhasharr_put w k v) = Inl ENOBUFS"
        by auto
      have "tl es = tl (butlast es) @ [?x]" using ks(2) False by (metis tl_append2)
      then show ?thesis using pruned_put_remove [OF 1(2) put w(1)] w(2) by auto
    qed
  qed
qed

text \<open>Every key of the table can be evicted, but for the local IDC, which the agent stores at
  start-up and \<open>visitKey\<close> never tracks; \<open>pinned\<close> is the number of slots that its entry takes.\<close>

definition covered :: "qhasharr_s \<Rightarrow> LRU \<Rightarrow> bool" where
  "covered t l \<longleftrightarrow> [] \<notin> set (lru_keys l)
     \<and> (\<forall>i. tbl_map (slots t) i \<noteq> None \<longrightarrow> i = store_id (maxslots t) QCONF_KEY_TYPE_LOCAL_IDC
          \<or> i \<in> store_id (maxslots t) ` set (lru_keys l))"

definition pinned :: "qhasharr_s \<Rightarrow> nat" where
  "pinned t = (case tbl_map (slots t) (store_id (maxslots t) QCONF_KEY_TYPE_LOCAL_IDC) of
     None \<Rightarrow> 0 | Some v \<Rightarrow> nblocks v)"

lemma pinned_less:
  assumes "maxslots t' = maxslots t" "\<And>i. tbl_map (slots t') i = tbl_map (slots t) i \<or> tbl_map (slots t') i = None"
  shows "pinned t' \<le> pinned t"
  using assms(2) [of "store_id (maxslots t) QCONF_KEY_TYPE_LOCAL_IDC"] assms(1) by (auto simp: pinned_def)

lemma put_covered:
  assumes "store_ok t k v" "covered t l" "pinned t + nblocks v \<le> maxslots t" "qhasharr_put t k v = (Inl e, t')"
  shows "covered t' l \<and> lru_keys l \<noteq> [] \<and> pinned t' + nblocks v \<le> maxslots t'"
proof -
  note pa = put_after [OF assms(1,4)] and ps = put_spec [OF assms(1,4)]
  have inv: "tbl_inv t" using assms(1) by (simp add: store_ok_def)
  have "lru_keys l \<noteq> []"
  proof
    assume "lru_keys l = []"
    then have "usedslots t = int (pinned t)"
      using usedslots_one [OF inv, of "store_id (maxslots t) QCONF_KEY_TYPE_LOCAL_IDC"] assms(2)
      by (auto simp: covered_def pinned_def split: option.splits)
    then show False using assms(3) pa by simp
  qed
  moreover have "pinned t' \<le> pinned t" by (rule pinned_less) (use ps in \<open>auto split: if_splits\<close>)
  moreover have "covered t' l" using pa assms(2) unfolding covered_def by (simp del: split_paired_All)
  ultimately show ?thesis using pa assms(3) by auto
qed

lemma evict_live:
  assumes "after_put k v r t" "lru_inv l"
    and "r = Inl ENOBUFS \<Longrightarrow> covered t l \<and> lru_keys l \<noteq> [] \<and> pinned t + nblocks v \<le> maxslots t"
  shows "fst (evict_loop k v r t l) = Inr ()"
  using assms
proof (induction k v r t l rule: evict_loop.induct)
  case (1 k v r t l)
  show ?case
  proof (cases "r = Inl ENOBUFS")
    case False
    then have "r = Inr ()" using 1(2) by (cases r) (auto simp: after_put_def)
    then show ?thesis by (subst evict_loop.simps) simp
  next
    case True
    let ?x = "getRemoveKey l" and ?l = "snd (removeKey l)" and ?t = "snd (qhasharr_remove t (getRemoveKey l))"
    have so: "store_ok t k v" and inv: "tbl_inv t" using 1(2) True by (auto simp: after_put_def)
    have ne: "lru_keys l \<noteq> []" and cov: "covered t l" and pin: "pinned t + nblocks v \<le> maxslots t" using 1(4) True by auto
    have x: "?x \<noteq> []" using lru.victim_last [OF 1(3) ne] last_in_set [OF ne] cov by (auto simp: covered_def)
    have rm: "tbl_remove t ?x = (QCONF_OK, ?t)" using inv x by (simp add: tbl_remove_ok)
    obtain r2 t2 where p: "qhasharr_put ?t k v = (r2, t2)" by fastforce
    note so1 = store_ok_remove [OF so, of ?x] and rv = remove_view [OF inv, of ?x]
    have "lru_keys l = lru_keys ?l @ [?x]" by (rule lru.split_victim [OF 1(3) ne])
    with cov have cov1: "covered ?t ?l"
      unfolding covered_def rv(2,3) key_of_id by (simp del: split_paired_All) blast
    have "pinned ?t \<le> pinned t" by (rule pinned_less) (use rv in \<open>auto split: if_splits\<close>)
    then have pin1: "pinned ?t + nblocks v \<le> maxslots ?t" using pin rv(2) by simp
    have "r2 = Inl ENOBUFS \<Longrightarrow> covered t2 ?l \<and> lru_keys ?l \<noteq> [] \<and> pinned t2 + nblocks v \<le> maxslots t2"
      using put_covered [OF so1 cov1 pin1] p by auto
    then have "fst (evict_loop k v r2 t2 ?l) = Inr ()"
      using 1(1) [OF True rm [symmetric] _ p [symmetric]] put_after [OF so1 p] lru.cut_ok [OF 1(3) ne] by simp
    then show ?thesis using True rm p by (subst evict_loop.simps) simp
  qed
qed

section \<open>Storing through the interface\<close>

lemma frame_not_Nil [simp]: "frame v \<noteq> []"
proof -
  have "4 \<le> length (frame v)" by (simp add: frame_def Let_def)
  then show ?thesis by auto
qed

text \<open>A request that the table can represent: the counters of its 16-bit and 32-bit fields suffice.\<close>

definition set_ok :: "qhasharr_s \<Rightarrow> LRU \<Rightarrow> string \<Rightarrow> string \<Rightarrow> bool" where
  "set_ok t l key val \<longleftrightarrow> tbl_inv t \<and> lru_inv l \<and> key \<noteq> [] \<and> length key < 65536 \<and> length val < 2 ^ 32
     \<and> bucket_load (tbl_map (slots t)) (bucket t key) < 32767"

lemma set_ok_store: "set_ok t l key val \<Longrightarrow> store_ok t key (frame val)"
  by (simp add: set_ok_def store_ok_def)

lemma hash_tbl_get_map:
  assumes "tbl_inv t" "\<forall>n. mem n" "key \<noteq> []"
  shows "hash_tbl_get mem (Some t) key old =
    (case tbl_map (slots t) (store_id (maxslots t) key) of None \<Rightarrow> (QCONF_ERR_NOT_FOUND, old) | Some s \<Rightarrow> qconf_verify s)"
  using assms qhasharr_get_map [OF assms(1), of mem key]
  by (simp add: hash_tbl_get_def hash_tbl_get_raw_def key_of_id split: option.split)

lemma hash_tbl_get_cong:
  assumes "tbl_inv t" "tbl_inv t'" "\<forall>n. mem n" "maxslots t' = maxslots t" "key \<noteq> []"
    and "tbl_map (slots t') (store_id (maxslots t) key) = tbl_map (slots t) (store_id (maxslots t) key)"
  shows "hash_tbl_get mem (Some t') key old = hash_tbl_get mem (Some t) key old"
  using assms by (simp add: hash_tbl_get_map)

lemma hash_tbl_set_spec:
  assumes ok: "set_ok t l key val" and set: "hash_tbl_set mem (Some t) l key val = (ret, tbl', l')"
  shows "ret = QCONF_ERR_SAME_VALUE \<and> tbl' = Some t \<and> l' = l \<and> hash_tbl_get mem (Some t) key [] = (QCONF_OK, val)
    \<or> (\<exists>t' ks es. tbl' = Some t' \<and> tbl_inv t' \<and> lru_inv l' \<and> maxslots t' = maxslots t \<and> lru_keys l = ks @ es
        \<and> (usedslots t + int (nblocks (frame val)) \<le> int (maxslots t) \<longrightarrow> es = [] \<and> ret = QCONF_OK)
        \<and> (es \<noteq> [] \<longrightarrow> (\<exists>w. pruned key t (tl es) w \<and> fst (qhasharr_put w key (frame val)) = Inl ENOBUFS))
        \<and> (\<forall>i. i \<noteq> store_id (maxslots t) key \<longrightarrow> tbl_map (slots t') i =
              (if i \<in> store_id (maxslots t) ` set es then None else tbl_map (slots t) i))
        \<and> (ret = QCONF_OK \<and> tbl_map (slots t') (store_id (maxslots t) key) = Some (frame val)
             \<and> lru_keys l' = (if key = QCONF_KEY_TYPE_LOCAL_IDC then ks else key # removeAll key ks)
           \<or> ret = QCONF_ERR_TBL_SET \<and> lru_keys l' = ks \<and> getRemoveKey l' = []))"
proof (cases "hash_tbl_get mem (Some t) key [] = (QCONF_OK, val)")
  case True
  then show ?thesis using ok set by (simp add: hash_tbl_set_def set_ok_def)
next
  case False
  obtain r t1 where p: "qhasharr_put t key (frame val) = (r, t1)" by fastforce
  obtain r' t2 l2 where ev: "evict_loop key (frame val) r t1 l = (r', t2, l2)" by (metis prod_cases3)
  note pa = put_after [OF set_ok_store [OF ok] p]
  have linv: "lru_inv l" and ne: "key \<noteq> []" using ok by (auto simp: set_ok_def)
  note sp = evict_spec [OF _ linv ev]
  have k1: "key_of t1 key = store_id (maxslots t) key" "key_of t key = store_id (maxslots t) key"
    "maxslots t1 = maxslots t" using pa by (simp_all add: key_of_id)
  obtain es where es: "lru_keys l = lru_keys l2 @ es"
    and mp1: "\<forall>i. i \<noteq> store_id (maxslots t) key \<longrightarrow> tbl_map (slots t2) i =
        (if i \<in> store_id (maxslots t) ` set es then None else tbl_map (slots t1) i)"
    and ap: "after_put key (frame val) r' t2" "lru_inv l2" "maxslots t2 = maxslots t"
    and ex: "\<forall>e. r' = Inl e \<longrightarrow> getRemoveKey l2 = []"
    using sp pa unfolding k1 by blast
  have mp: "\<forall>i. i \<noteq> store_id (maxslots t) key \<longrightarrow> tbl_map (slots t2) i =
      (if i \<in> store_id (maxslots t) ` set es then None else tbl_map (slots t) i)"
    using mp1 pa unfolding k1 by presburger
  have room: "usedslots t + int (nblocks (frame val)) \<le> int (maxslots t) \<longrightarrow> es = [] \<and> (\<exists>u. r' = Inr u)"
  proof
    assume "usedslots t + int (nblocks (frame val)) \<le> int (maxslots t)"
    then obtain u where "r = Inr u" using pa by (cases r) auto
    then show "es = [] \<and> (\<exists>u. r' = Inr u)" using ev es by (subst (asm) evict_loop.simps) auto
  qed
  have mn: "es \<noteq> [] \<longrightarrow> (\<exists>w. pruned key t (tl es) w \<and> fst (qhasharr_put w key (frame val)) = Inl ENOBUFS)"
    using evict_minimal [OF set_ok_store [OF ok] p linv ev es] by blast
  have tbl: "tbl_inv t2" using ap(1) by (simp add: after_put_def)
  have st: "(ret, tbl', l') = (case r' of Inl _ \<Rightarrow> (QCONF_ERR_TBL_SET, Some t2, l2) | Inr _ \<Rightarrow> (QCONF_OK, Some t2, visitKey key l2))"
    using set False ne p ev by (auto simp: hash_tbl_set_def hash_tbl_set_raw_def split: sum.splits)
  have k2: "key_of t2 key = store_id (maxslots t) key" using ap(3) by (simp add: key_of_id)
  show ?thesis
  proof (cases r')
    case (Inl e)
    then show ?thesis using st tbl ap(2,3) es mp mn room ex by auto
  next
    case (Inr u)
    have "tbl_map (slots t2) (store_id (maxslots t) key) = Some (frame val)"
      using ap(1) Inr k2 by (simp add: after_put_def)
    then show ?thesis using st tbl ap(2,3) es mp mn room Inr lru.touch_ok lru.touch_keys by auto
  qed
qed

lemma set_ok_empty:
  assumes "0 < n" "key \<noteq> []" "length key < 65536" "length val < 2 ^ 32"
  shows "set_ok (empty_tbl n) new_LRU key val"
  using assms empty_table [OF assms(1)] by (simp add: set_ok_def bucket_load_def)

lemma set_empty:
  assumes "0 < n" "key \<noteq> []" "length key < 65536" "length val < 2 ^ 32" "nblocks (frame val) \<le> n"
  shows "\<exists>t' l'. hash_tbl_set mem (Some (empty_tbl n)) new_LRU key val = (QCONF_OK, Some t', l')"
proof -
  obtain ret tbl' l' where s: "hash_tbl_set mem (Some (empty_tbl n)) new_LRU key val = (ret, tbl', l')"
    by (metis prod_cases3)
  have m: "maxslots (empty_tbl n) = n" by (simp add: maxslots_def)
  have "hash_tbl_get mem (Some (empty_tbl n)) key [] = (QCONF_ERR_NOT_FOUND, [])"
    using qhasharr_get_map [OF empty_table(1) [OF assms(1)], of mem key] empty_table(2) [OF assms(1)] assms(2)
    by (simp add: hash_tbl_get_def hash_tbl_get_raw_def)
  then show ?thesis
    using hash_tbl_set_spec [OF set_ok_empty [OF assms(1-4)] s] assms(5) s m by (auto simp del: split_paired_All)
qed

lemma nblocks_small: "length v \<le> 40 \<Longrightarrow> nblocks (frame v) = 1"
  by (simp add: frame_short nblocks_def)

lemma set_get_rt:
  assumes "set_ok t l key val" and "\<forall>n. mem n"
    and "hash_tbl_set mem (Some t) l key val = (ret, Some t', l')" and "ret = QCONF_OK \<or> ret = QCONF_ERR_SAME_VALUE"
  shows "hash_tbl_get mem (Some t') key old = (QCONF_OK, val) \<and> tbl_inv t' \<and> lru_inv l'"
proof -
  have inv: "tbl_inv t" "lru_inv l" "key \<noteq> []" "length val < 2 ^ 32" using assms(1) by (auto simp: set_ok_def)
  show ?thesis
    using hash_tbl_set_spec [OF assms(1,3)]
  proof (elim disjE exE conjE)
    assume "Some t' = Some t" "l' = l" "hash_tbl_get mem (Some t) key [] = (QCONF_OK, val)"
    then show ?thesis
      using inv hash_tbl_get_map [OF inv(1) assms(2) inv(3)] by (auto split: option.splits)
  next
    fix t2 assume "Some t' = Some t2" "tbl_inv t2" "lru_inv l'" "maxslots t2 = maxslots t"
      "tbl_map (slots t2) (store_id (maxslots t) key) = Some (frame val)"
    then show ?thesis
      using hash_tbl_get_map [of t' mem key old] assms(2) inv verify_frame [of val "[]"] by simp
  qed (use assms(4) in simp)
qed

text \<open>
  C10: After a successful (or unnecessary) \<open>hash_tbl_set\<close> a reader gets exactly the value that was
  set, and the table and the LRU list are consistent.
\<close>

theorem hash_tbl_set_get:
  assumes "set_ok t l key val" and "\<forall>n. mem n"
    and "hash_tbl_set mem (Some t) l key val = (ret, Some t', l')" and "ret = QCONF_OK \<or> ret = QCONF_ERR_SAME_VALUE"
  shows "hash_tbl_get mem (Some t') key old = (QCONF_OK, val) \<and> tbl_inv t' \<and> lru_inv l'"
  using assms by (rule set_get_rt)

theorem hash_tbl_set_get_witness:
  "\<exists>t' l'. hash_tbl_set (\<lambda>_. True) (Some (empty_tbl 4)) new_LRU ''2k'' ''value'' = (QCONF_OK, Some t', l')
    \<and> hash_tbl_get (\<lambda>_. True) (Some t') ''2k'' [] = (QCONF_OK, ''value'')"
proof -
  obtain t' l' where s: "hash_tbl_set (\<lambda>_. True) (Some (empty_tbl 4)) new_LRU ''2k'' ''value'' = (QCONF_OK, Some t', l')"
    using set_empty [of 4 "''2k''" "''value''" "\<lambda>_. True"] nblocks_small [of "''value''"] by auto
  then show ?thesis
    using hash_tbl_set_get [OF set_ok_empty _ s] by simp
qed

text \<open>
  C12: A store evicts from the cold end and no more than it needs.  The LRU list is split into the keys
  \<open>ks\<close> that stay and the least recently set keys \<open>es\<close>, which are evicted: a reader no longer finds an
  evicted key, and every other entry keeps its value.  The list is \<open>ks\<close> afterwards, with the stored
  key moved to the front (the local IDC is never listed).  Nothing is evicted when the value fits;
  otherwise the value did not fit before the last of the evicted keys went.  The store gives up
  (\<open>QCONF_ERR_TBL_SET\<close>) only when no key is left to evict.
\<close>

theorem hash_tbl_set_evicts_coldest:
  assumes "set_ok t l key val" and "\<forall>n. mem n"
    and "hash_tbl_set mem (Some t) l key val = (ret, Some t', l')"
  shows "\<exists>ks es. lru_keys l = ks @ es
    \<and> lru_keys l' = (if ret = QCONF_OK \<and> key \<noteq> QCONF_KEY_TYPE_LOCAL_IDC then key # removeAll key ks else ks)
    \<and> (usedslots t + int (nblocks (frame val)) \<le> int (maxslots t) \<longrightarrow> es = [])
    \<and> (es \<noteq> [] \<longrightarrow> (\<exists>w. pruned key t (tl es) w \<and> fst (qhasharr_put w key (frame val)) = Inl ENOBUFS))
    \<and> (\<forall>k. k \<noteq> [] \<and> store_id (maxslots t) k \<noteq> store_id (maxslots t) key \<longrightarrow>
          hash_tbl_get mem (Some t') k old =
            (if store_id (maxslots t) k \<in> store_id (maxslots t) ` set es then (QCONF_ERR_NOT_FOUND, old)
             else hash_tbl_get mem (Some t) k old))
    \<and> (ret = QCONF_ERR_TBL_SET \<longrightarrow> lru_keys l' = ks \<and> getRemoveKey l' = [])"
proof -
  have inv: "tbl_inv t" using assms(1) by (simp add: set_ok_def)
  have get: "hash_tbl_get mem (Some t') k old = (if store_id (maxslots t) k \<in> X then (QCONF_ERR_NOT_FOUND, old)
        else hash_tbl_get mem (Some t) k old)"
    if "tbl_inv t'" "maxslots t' = maxslots t" "k \<noteq> []" "store_id (maxslots t) k \<noteq> store_id (maxslots t) key"
      "\<forall>i. i \<noteq> store_id (maxslots t) key \<longrightarrow> tbl_map (slots t') i = (if i \<in> X then None else tbl_map (slots t) i)" for k X
    using that hash_tbl_get_map [OF that(1) assms(2) that(3)] hash_tbl_get_map [OF inv assms(2) that(3)]
    by (simp del: split_paired_All)
  show ?thesis
    using hash_tbl_set_spec [OF assms(1,3)]
  proof (elim disjE exE conjE, goal_cases)
    case 1
    then show ?case by (intro exI [of _ "lru_keys l"] exI [of _ "[]"]) simp
  next
    case (2 t2 ks es)
    then show ?case using get [of _ "store_id (maxslots t) ` set es"]
      by (intro exI [of _ ks] exI [of _ es]) (simp del: split_paired_All)
  next
    case (3 t2 ks es)
    then show ?case using get [of _ "store_id (maxslots t) ` set es"]
      by (intro exI [of _ ks] exI [of _ es]) (simp del: split_paired_All)
  qed
qed

text \<open>A store that fits changes its own entry only.\<close>

lemma set_room:
  assumes ok: "set_ok t l key val" and room: "usedslots t + int (nblocks (frame val)) \<le> int (maxslots t)"
    and new: "tbl_map (slots t) (store_id (maxslots t) key) = None" and mem: "\<forall>n. mem n"
  obtains t' l' where "hash_tbl_set mem (Some t) l key val = (QCONF_OK, Some t', l')" "tbl_inv t'" "lru_inv l'"
    "maxslots t' = maxslots t" "tbl_map (slots t') = (tbl_map (slots t))(store_id (maxslots t) key \<mapsto> frame val)"
    "lru_keys l' = (if key = QCONF_KEY_TYPE_LOCAL_IDC then lru_keys l else key # removeAll key (lru_keys l))"
proof -
  obtain ret tbl' l' where s: "hash_tbl_set mem (Some t) l key val = (ret, tbl', l')" by (metis prod_cases3)
  have "tbl_inv t" "key \<noteq> []" using ok by (auto simp: set_ok_def)
  then have g: "hash_tbl_get mem (Some t) key [] \<noteq> (QCONF_OK, val)" using new mem by (simp add: hash_tbl_get_map)
  have "ret = QCONF_OK \<and> (\<exists>t'. tbl' = Some t' \<and> tbl_inv t' \<and> lru_inv l' \<and> maxslots t' = maxslots t
      \<and> tbl_map (slots t') = (tbl_map (slots t))(store_id (maxslots t) key \<mapsto> frame val)
      \<and> lru_keys l' = (if key = QCONF_KEY_TYPE_LOCAL_IDC then lru_keys l else key # removeAll key (lru_keys l)))"
    using hash_tbl_set_spec [OF ok s]
  proof (elim disjE exE conjE, goal_cases)
    case (2 t2 ks es)
    then have es: "es = []" using room by blast
    have "tbl_map (slots t2) = (tbl_map (slots t))(store_id (maxslots t) key \<mapsto> frame val)"
      by (rule ext) (use 2 es in \<open>simp del: split_paired_All\<close>)
    then show ?case using 2 es by simp
  qed (use g room in simp_all)
  then show thesis using that s by blast
qed

text \<open>Storing a new key in a full table evicts something.\<close>

lemma set_full:
  assumes ok: "set_ok t l key val" and set: "hash_tbl_set mem (Some t) l key val = (QCONF_OK, Some t', l')"
    and new: "tbl_map (slots t) (store_id (maxslots t) key) = None"
    and full: "usedslots t + int (nblocks (frame val)) > int (maxslots t)"
  shows "length (lru_keys l') \<le> length (lru_keys l)"
  using hash_tbl_set_spec [OF ok set]
proof (elim disjE exE conjE, goal_cases)
  case (2 t2 ks es)
  have inv: "tbl_inv t" "keys_ok (slots t)" using ok by (auto simp: set_ok_def tbl_inv_def)
  have "es \<noteq> []"
  proof
    assume "es = []"
    then have "tbl_map (slots t2) = (tbl_map (slots t))(store_id (maxslots t) key \<mapsto> frame val)"
      by (intro ext) (use 2 in \<open>simp del: split_paired_All\<close>)
    then have "usedslots t2 = usedslots t + int (nblocks (frame val))"
      using usedslots_map [OF inv(1)] usedslots_map [OF 2(2)] new bij_betw_finite [OF heads_dom(1) [OF inv(2)]]
      by (simp add: weight_insert)
    moreover have "usedslots t2 \<le> int (maxslots t2)"
      using usedslots_nused [OF 2(2)] nused_le [of "slots t2"] by (simp add: maxslots_def)
    ultimately show False using full 2(4) by simp
  qed
  then have "0 < length es" by simp
  then have "Suc (length (removeAll key ks)) \<le> length ks + length es" using length_removeAll_less_eq [of key ks] by linarith
  then show ?case using 2 by (simp split: if_splits)
qed simp_all

text \<open>A store keeps every key of the table tracked.\<close>

lemma covered_set:
  assumes ok: "set_ok t l key val" and set: "hash_tbl_set mem (Some t) l key val = (QCONF_OK, Some t', l')"
    and cov: "covered t l"
  shows "covered t' l' \<and> maxslots t' = maxslots t"
  using hash_tbl_set_spec [OF ok set]
proof (elim disjE exE conjE)
  fix t2 ks es
  assume t2: "Some t' = Some t2" "maxslots t2 = maxslots t" "lru_keys l = ks @ es"
    "\<forall>i. i \<noteq> store_id (maxslots t) key \<longrightarrow>
       tbl_map (slots t2) i = (if i \<in> store_id (maxslots t) ` set es then None else tbl_map (slots t) i)"
    and l': "lru_keys l' = (if key = QCONF_KEY_TYPE_LOCAL_IDC then ks else key # removeAll key ks)"
  let ?a = "store_id (maxslots t) QCONF_KEY_TYPE_LOCAL_IDC"
  have ne: "key \<noteq> []" using ok by (simp add: set_ok_def)
  have "i = ?a \<or> i \<in> store_id (maxslots t) ` set (lru_keys l')" if i: "tbl_map (slots t2) i \<noteq> None" for i
  proof (cases "i = store_id (maxslots t) key")
    case True
    then show ?thesis using l' by auto
  next
    case False
    have m: "tbl_map (slots t2) i = (if i \<in> store_id (maxslots t) ` set es then None else tbl_map (slots t) i)"
      using spec [OF t2(4), of i] False by (rule mp)
    then have n: "i \<notin> store_id (maxslots t) ` set es" "tbl_map (slots t) i \<noteq> None" using i by (auto split: if_splits)
    then have "i = ?a \<or> i \<in> store_id (maxslots t) ` set (ks @ es)" using cov unfolding covered_def t2(3) by blast
    then consider "i = ?a" | k where "i = store_id (maxslots t) k" "k \<in> set ks" using n(1) by auto
    then show ?thesis using False l' by cases auto
  qed
  moreover have "[] \<notin> set (lru_keys l')" using cov l' ne unfolding covered_def t2(3) by (auto split: if_splits)
  ultimately show ?thesis using t2(1,2) unfolding covered_def by auto
qed auto

lemma covered_empty: "0 < n \<Longrightarrow> covered (empty_tbl n) l \<longleftrightarrow> [] \<notin> set (lru_keys l)"
  using empty_table(2) [of n] by (auto simp: covered_def)

lemma set_always:
  assumes "set_ok t l key val" and "covered t l" and "pinned t + nblocks (frame val) \<le> maxslots t"
  shows "fst (hash_tbl_set mem (Some t) l key val) \<in> {QCONF_OK, QCONF_ERR_SAME_VALUE}"
proof (cases "hash_tbl_get mem (Some t) key [] = (QCONF_OK, val)")
  case True
  then show ?thesis using assms(1) by (simp add: hash_tbl_set_def set_ok_def)
next
  case False
  obtain r t1 where p: "qhasharr_put t key (frame val) = (r, t1)" by fastforce
  note so = set_ok_store [OF assms(1)]
  have "fst (evict_loop key (frame val) r t1 l) = Inr ()"
    using put_after [OF so p] assms p put_covered [OF so assms(2,3)]
    by (intro evict_live) (auto simp: set_ok_def)
  then show ?thesis
    using False p assms(1)
    by (auto simp: hash_tbl_set_def hash_tbl_set_raw_def set_ok_def split: prod.splits sum.splits)
qed

text \<open>A full table of two slots: the local IDC, stored at start-up, and one tracked key.\<close>

lemma bucket_load_dom:
  assumes "finite (dom m)"
  shows "bucket_load m b \<le> card (dom m)"
proof -
  have "Pair b ` {q. m (b, q) \<noteq> None} \<subseteq> dom m" by auto
  from card_mono [OF assms this] show ?thesis
    unfolding bucket_load_def by (simp add: card_image inj_on_def)
qed

lemma full_table:
  obtains t l where "tbl_inv t" "lru_inv l" "maxslots t = 2" "usedslots t = 2" "lru_keys l = [''2k'']"
    "tbl_map (slots t) = [store_id 2 QCONF_KEY_TYPE_LOCAL_IDC \<mapsto> frame ''corp'', store_id 2 ''2k'' \<mapsto> frame ''value'']"
proof -
  let ?e = "empty_tbl 2" and ?a = "store_id 2 QCONF_KEY_TYPE_LOCAL_IDC" and ?k = "store_id 2 ''2k''"
  have e: "tbl_inv ?e" "tbl_map (slots ?e) = Map.empty" "maxslots ?e = 2" using empty_table [of 2] by (simp_all add: maxslots_def)
  have nb: "nblocks (frame ''corp'') = 1" "nblocks (frame ''value'') = 1" by (simp_all add: nblocks_small)
  have ok: "set_ok ?e new_LRU QCONF_KEY_TYPE_LOCAL_IDC ''corp''" by (rule set_ok_empty) simp_all
  obtain t1 l1 where t1: "tbl_inv t1" "lru_inv l1" "maxslots t1 = 2" "tbl_map (slots t1) = [?a \<mapsto> frame ''corp'']"
    "lru_keys l1 = []"
    by (rule set_room [OF ok, of "\<lambda>_. True"]) (use e nb in \<open>simp_all add: new_LRU_def lru_keys_def\<close>)
  have u1: "usedslots t1 = 1" using usedslots_map [OF t1(1)] t1(4) nb by (simp add: weight_insert)
  have d: "?k \<noteq> ?a" by (simp add: store_id_def kid_def)
  have "bucket_load (tbl_map (slots t1)) (bucket t1 ''2k'') < 32767"
    using bucket_load_dom [of "tbl_map (slots t1)" "bucket t1 ''2k''"] t1(4) by simp
  then have ok1: "set_ok t1 l1 ''2k'' ''value''" using t1 by (simp add: set_ok_def)
  obtain t2 l2 where t2: "tbl_inv t2" "lru_inv l2" "maxslots t2 = 2"
    "tbl_map (slots t2) = [?a \<mapsto> frame ''corp'', ?k \<mapsto> frame ''value'']" "lru_keys l2 = [''2k'']"
    by (rule set_room [OF ok1, of "\<lambda>_. True"]) (use t1 u1 nb d in simp_all)
  have "usedslots t2 = 2" using usedslots_map [OF t2(1)] t2(4) nb d by (simp add: weight_insert)
  then show thesis using that t2 by blast
qed

text \<open>
  C19: When the LRU list tracks every key of the table but the local IDC (which the agent stores at
  start-up and never lists), and the slots beside the entry of the local IDC suffice for the framed
  value, a store always succeeds, evicting as many keys as it needs.
\<close>

theorem hash_tbl_set_succeeds:
  assumes "set_ok t l key val" and "covered t l" and "pinned t + nblocks (frame val) \<le> maxslots t"
  shows "fst (hash_tbl_set mem (Some t) l key val) \<in> {QCONF_OK, QCONF_ERR_SAME_VALUE}"
  using assms by (rule set_always)

lemma full_table_ok:
  assumes "tbl_inv t" "lru_inv l" "maxslots t = 2" "lru_keys l = [''2k'']"
    "tbl_map (slots t) = [store_id 2 QCONF_KEY_TYPE_LOCAL_IDC \<mapsto> frame ''corp'', store_id 2 ''2k'' \<mapsto> frame ''value'']"
  shows "set_ok t l ''2m'' ''other''" "covered t l" "pinned t = 1" "hash_tbl_get (\<lambda>_. True) (Some t) ''2m'' [] \<noteq> (QCONF_OK, ''other'')"
proof -
  have d: "store_id 2 ''2k'' \<noteq> store_id 2 QCONF_KEY_TYPE_LOCAL_IDC" "store_id 2 ''2m'' \<noteq> store_id 2 QCONF_KEY_TYPE_LOCAL_IDC"
    "store_id 2 ''2m'' \<noteq> store_id 2 ''2k''" by (simp_all add: store_id_def kid_def)
  have "card (dom (tbl_map (slots t))) < 32767" unfolding assms(5) using d by simp
  then have "bucket_load (tbl_map (slots t)) (bucket t ''2m'') < 32767"
    using bucket_load_dom [of "tbl_map (slots t)" "bucket t ''2m''"] assms(5) by simp
  then show "set_ok t l ''2m'' ''other''" using assms by (simp add: set_ok_def)
  show "covered t l" using assms by (auto simp: covered_def split: if_splits)
  show "pinned t = 1" using assms(3,5) d(1) by (simp add: pinned_def nblocks_small)
  show "hash_tbl_get (\<lambda>_. True) (Some t) ''2m'' [] \<noteq> (QCONF_OK, ''other'')"
    using hash_tbl_get_map [OF assms(1), of "\<lambda>_. True" "''2m''"] assms(3,5) d by simp
qed

theorem hash_tbl_set_succeeds_witness:
  "\<exists>t l. usedslots t = int (maxslots t) \<and> qhasharr_exist t QCONF_KEY_TYPE_LOCAL_IDC
    \<and> fst (hash_tbl_set (\<lambda>_. True) (Some t) l ''2m'' ''other'') \<in> {QCONF_OK, QCONF_ERR_SAME_VALUE}"
proof (rule full_table)
  fix t l
  assume t: "tbl_inv t" "lru_inv l" "maxslots t = 2" "usedslots t = 2" "lru_keys l = [''2k'']"
    "tbl_map (slots t) = [store_id 2 QCONF_KEY_TYPE_LOCAL_IDC \<mapsto> frame ''corp'', store_id 2 ''2k'' \<mapsto> frame ''value'']"
  note ok = full_table_ok [OF t(1,2,3,5,6)]
  have "store_id 2 QCONF_KEY_TYPE_LOCAL_IDC \<noteq> store_id 2 ''2k''" by (simp add: store_id_def kid_def)
  then have "qhasharr_exist t QCONF_KEY_TYPE_LOCAL_IDC"
    using t(3,6) by (simp add: qhasharr_exist_map [OF t(1)] key_of_id)
  moreover have "fst (hash_tbl_set (\<lambda>_. True) (Some t) l ''2m'' ''other'') \<in> {QCONF_OK, QCONF_ERR_SAME_VALUE}"
    by (rule hash_tbl_set_succeeds [OF ok(1,2)]) (simp add: ok(3) t(3) nblocks_small)
  ultimately show ?thesis using t(3,4) by (intro exI [of _ t] exI [of _ l]) simp
qed

theorem hash_tbl_set_evicts_coldest_witness:
  "\<exists>t l t' l'. usedslots t = int (maxslots t) \<and> lru_keys l = [''2k'']
    \<and> hash_tbl_set (\<lambda>_. True) (Some t) l ''2m'' ''other'' = (QCONF_OK, Some t', l') \<and> lru_keys l' = [''2m'']
    \<and> hash_tbl_get (\<lambda>_. True) (Some t') ''2k'' [] = (QCONF_ERR_NOT_FOUND, [])
    \<and> hash_tbl_get (\<lambda>_. True) (Some t') QCONF_KEY_TYPE_LOCAL_IDC [] = (QCONF_OK, ''corp'')"
proof (rule full_table)
  fix t l
  assume t: "tbl_inv t" "lru_inv l" "maxslots t = 2" "usedslots t = 2" "lru_keys l = [''2k'']"
    "tbl_map (slots t) = [store_id 2 QCONF_KEY_TYPE_LOCAL_IDC \<mapsto> frame ''corp'', store_id 2 ''2k'' \<mapsto> frame ''value'']"
  note ok = full_table_ok [OF t(1,2,3,5,6)]
  have r: "fst (hash_tbl_set (\<lambda>_. True) (Some t) l ''2m'' ''other'') \<in> {QCONF_OK, QCONF_ERR_SAME_VALUE}"
    by (rule set_always [OF ok(1,2)]) (simp add: ok(3) t(3) nblocks_small)
  then obtain t' l' where s: "hash_tbl_set (\<lambda>_. True) (Some t) l ''2m'' ''other'' = (QCONF_OK, Some t', l')"
    using ok(1,4) by (auto simp: hash_tbl_set_def hash_tbl_set_raw_def set_ok_def split: prod.splits sum.splits if_splits)
  have d: "store_id 2 ''2k'' \<noteq> store_id 2 QCONF_KEY_TYPE_LOCAL_IDC" "store_id 2 ''2m'' \<noteq> store_id 2 QCONF_KEY_TYPE_LOCAL_IDC"
    "store_id 2 ''2m'' \<noteq> store_id 2 ''2k''" by (simp_all add: store_id_def kid_def)
  have len: "length (lru_keys l') \<le> 1" using set_full [OF ok(1) s] t d by (simp add: nblocks_small)
  obtain ks es where e: "[''2k''] = ks @ es" "lru_keys l' = ''2m'' # removeAll ''2m'' ks"
    "\<forall>k. k \<noteq> [] \<and> store_id 2 k \<noteq> store_id 2 ''2m'' \<longrightarrow> hash_tbl_get (\<lambda>_. True) (Some t') k [] =
      (if store_id 2 k \<in> store_id 2 ` set es then (QCONF_ERR_NOT_FOUND, []) else hash_tbl_get (\<lambda>_. True) (Some t) k [])"
    using hash_tbl_set_evicts_coldest [OF ok(1) _ s, of "[]"] t(3,5) by auto
  have ke: "ks = [] \<and> es = [''2k'']" using e(1,2) len by (cases ks) auto
  have "hash_tbl_get (\<lambda>_. True) (Some t) QCONF_KEY_TYPE_LOCAL_IDC [] = (QCONF_OK, ''corp'')"
    using hash_tbl_get_map [OF t(1), of "\<lambda>_. True" QCONF_KEY_TYPE_LOCAL_IDC "[]"] t(3,6) d(1) verify_frame [of "''corp''" "[]"] by simp
  then show ?thesis
    using t s ke e(2) e(3) [rule_format, of "''2k''"] e(3) [rule_format, of QCONF_KEY_TYPE_LOCAL_IDC] d
    by (intro exI [of _ t] exI [of _ l] exI [of _ t'] exI [of _ l']) simp
qed

section \<open>Start-up\<close>

text \<open>
  A value of the table carries its key: it was stored under a key with identity \<open>x\<close>, and the IDC
  and path of that key can be read back from it.
\<close>

definition carries :: "(nat \<Rightarrow> bool) \<Rightarrow> nat \<Rightarrow> nat \<times> key_id \<Rightarrow> string \<Rightarrow> string \<Rightarrow> string \<Rightarrow> bool" where
  "carries mem m x v key path \<longleftrightarrow> x = store_id m key \<and>
     (\<exists>dt idc val. serialize_to_tblkey dt idc path = (QCONF_OK, key) \<and> length idc < 256 \<and> length path < 65536
        \<and> v = frame val \<and> length val < 2 ^ 32 \<and> key_info mem dt val = (QCONF_OK, idc, path))"

abbreviation self_described :: "(nat \<Rightarrow> bool) \<Rightarrow> qhasharr_s \<Rightarrow> nat \<Rightarrow> string \<Rightarrow> string \<Rightarrow> bool" where
  "self_described mem t i \<equiv>
     carries mem (maxslots t) (s_hash (slots t ! i), slot_kid (slots t ! i)) (value_of (slots t) i)"

lemma serialize_type: "serialize_to_tblkey dt idc path = (QCONF_OK, key) \<Longrightarrow> key \<noteq> [] \<and> key ! 0 = dt"
  by (auto simp: serialize_to_tblkey_def Let_def qconf_append_path_def qconf_append_idc_def qconf_string_append_def
      split: if_splits)

lemma deserialize_path:
  assumes "serialize_to_tblkey dt idc path = (QCONF_OK, key)" "length idc < 256" "length path < 65536"
    and "key_info mem dt val = (QCONF_OK, idc, path)"
  shows "snd (snd (snd (deserialize_from_tblkey key (c, [], [])))) = path"
proof (cases "dt = QCONF_DATA_TYPE_NODE \<or> dt = QCONF_DATA_TYPE_SERVICE \<or> dt = QCONF_DATA_TYPE_BATCH_NODE")
  case True
  then show ?thesis using tblkey_rt [OF True assms(2,3), of "(c, [], [])"] assms(1) by simp
next
  case False
  then have "path = []" using assms(4) by (auto simp: key_info_def split: if_splits prod.splits)
  then show ?thesis
    using False serialize_type [OF assms(1)] by (auto simp: deserialize_from_tblkey_def Let_def split: prod.splits)
qed

lemma getnext_found:
  assumes "tbl_inv t" "\<forall>n. mem n" "find (head (slots t)) [idx..<maxslots t] = Some i"
    and sd: "self_described mem t i key path"
  shows "\<exists>val. hash_tbl_getnext mem (Some t) k0 v0 idx = (QCONF_OK, key, val, i + 1) \<and> value_of (slots t) i = frame val \<and> length val < 2 ^ 32"
    "snd (snd (snd (deserialize_from_tblkey key (c, [], [])))) = path"
proof -
  let ?s = "slots t ! i"
  obtain dt idc val where k: "serialize_to_tblkey dt idc path = (QCONF_OK, key)" "length idc < 256" "length path < 65536"
    and v: "value_of (slots t) i = frame val" "length val < 2 ^ 32"
    and ki: "key_info mem dt val = (QCONF_OK, idc, path)" and id: "slot_kid ?s = kid key"
    using sd by (auto simp: carries_def store_id_def)
  show "snd (snd (snd (deserialize_from_tblkey key (c, [], [])))) = path" by (rule deserialize_path [OF k ki])
  note kt = serialize_type [OF k(1)]
  have len: "pair_keylen ?s = length key" and pre: "take (pair_keylen ?s) (pair_key ?s) = take 32 key"
    using id by (auto simp: slot_kid_def kid_def)
  have "take (min (pair_keylen ?s) 32) (pair_key ?s) = take 32 (take 32 key)"
    using pre by (metis min.commute take_take)
  then have "get_data_type (take (min (pair_keylen ?s) 32) (pair_key ?s)) = dt"
    using kt by (simp add: get_data_type_def)
  then show "\<exists>val. hash_tbl_getnext mem (Some t) k0 v0 idx = (QCONF_OK, key, val, i + 1) \<and> value_of (slots t) i = frame val \<and> length val < 2 ^ 32"
    using getnext_spec [OF assms(1), of mem idx] assms(2,3) v verify_frame [OF v(2), of "[]"] ki k(1)
    by (simp add: hash_tbl_getnext_def Let_def)
qed

lemma filter_upt_found:
  assumes "find Q [a..<b] = Some i" "\<And>j. P j \<Longrightarrow> Q j"
  shows "filter P [a..<b] = (if P i then [i] else []) @ filter P [i + 1..<b] \<and> a \<le> i \<and> i < b"
proof -
  have i: "a \<le> i" "i < b" using find_SomeD [OF assms(1)] by auto
  have "\<not> Q j" if "j \<in> set [a..<i]" for j
  proof -
    obtain n where "n < length [a..<b]" "i = [a..<b] ! n" "\<forall>m<n. \<not> Q ([a..<b] ! m)"
      using assms(1) by (auto simp: find_Some_iff)
    then show ?thesis using that by (auto dest: spec [of _ "j - a"])
  qed
  then have "filter P [a..<i] = []" using assms(2) unfolding filter_empty_conv by blast
  moreover have "[a..<b] = [a..<i] @ i # [i + 1..<b]"
    using i by (metis Suc_eq_plus1 le_add_diff_inverse less_or_eq_imp_le upt_add_eq_append upt_conv_Cons)
  ultimately show ?thesis using i by simp
qed

lemma initLruMem_loop_fold:
  assumes inv: "tbl_inv t" and mem: "\<forall>n. mem n" and K: "\<And>i. head (slots t) i \<Longrightarrow> self_described mem t i (K i) (P i)"
  shows "initLruMem_loop mem t (maxslots t) idx k0 v0 l =
    (True, fold visitKey (map K (filter (\<lambda>i. head (slots t) i \<and> P i \<noteq> []) [idx..<maxslots t])) l)"
proof (induction "maxslots t - idx" arbitrary: idx k0 v0 l rule: less_induct)
  case less
  show ?case
  proof (cases "find (head (slots t)) [idx..<maxslots t]")
    case None
    then have f: "filter (\<lambda>i. head (slots t) i \<and> P i \<noteq> []) [idx..<maxslots t] = []"
      by (auto simp: find_None_iff filter_empty_conv)
    show ?thesis
    proof (cases "idx < maxslots t")
      case True
      then have "hash_tbl_getnext mem (Some t) k0 v0 idx = (QCONF_ERR_TBL_END, k0, v0, maxslots t + 1)"
        using getnext_spec [OF inv, of mem idx] mem None by (simp add: hash_tbl_getnext_def)
      then show ?thesis using True f
        by (subst initLruMem_loop.simps) (simp, subst initLruMem_loop.simps, simp)
    next
      case False
      then show ?thesis by (subst initLruMem_loop.simps) simp
    qed
  next
    case (Some i)
    note fu = filter_upt_found [OF Some, of "\<lambda>i. head (slots t) i \<and> P i \<noteq> []"]
    have i: "idx \<le> i" "i < maxslots t" "head (slots t) i" using fu find_SomeD [OF Some] by auto
    obtain val where g: "hash_tbl_getnext mem (Some t) k0 v0 idx = (QCONF_OK, K i, val, i + 1)"
      using getnext_found(1) [OF inv mem Some K [OF i(3)]] by blast
    obtain r dt idc where d: "deserialize_from_tblkey (K i) (NUL, [], []) = (r, dt, idc, P i)"
      using getnext_found(2) [OF inv mem Some K [OF i(3)]] by (metis prod.collapse)
    have "initLruMem_loop mem t (maxslots t) idx k0 v0 l =
        initLruMem_loop mem t (maxslots t) (i + 1) (K i) val (if P i \<noteq> [] then visitKey (K i) l else l)"
      using i g d by (subst initLruMem_loop.simps) simp
    also have "\<dots> = (True, fold visitKey (map K (filter (\<lambda>i. head (slots t) i \<and> P i \<noteq> []) [i + 1..<maxslots t]))
        (if P i \<noteq> [] then visitKey (K i) l else l))"
      using i by (intro less) simp
    finally show ?thesis using fu i by simp
  qed
qed

lemma carries_not_exempt: "carries mem m x v key path \<Longrightarrow> path \<noteq> [] \<Longrightarrow> key \<noteq> QCONF_KEY_TYPE_LOCAL_IDC"
  by (auto simp: carries_def key_info_def dest!: serialize_type)

lemma head_view:
  assumes "tbl_inv t" "head (slots t) i"
  shows "tbl_map (slots t) (s_hash (slots t ! i), slot_kid (slots t ! i)) = Some (value_of (slots t) i)"
  using assms tbl_map_entry [of "slots t" _ _ i] by (simp add: tbl_inv_def entry_def)

lemma view_head:
  assumes "tbl_inv t" "tbl_map (slots t) x = Some v"
  obtains i where "head (slots t) i" "x = (s_hash (slots t ! i), slot_kid (slots t ! i))" "v = value_of (slots t) i"
  using assms tbl_map_Some [of "slots t" "fst x" "snd x" v] by (cases x) (auto simp: tbl_inv_def entry_def)

lemma initLru_tracks:
  assumes "tbl_inv t" and "\<forall>n. mem n"
    and "\<forall>x v. tbl_map (slots t) x = Some v \<longrightarrow> (\<exists>key path. carries mem (maxslots t) x v key path)"
  shows "\<exists>l. initLruMem mem (Some t) new_LRU = (True, l) \<and> lru_inv l
    \<and> (\<forall>x v. tbl_map (slots t) x = Some v \<longrightarrow>
          (\<exists>key path. carries mem (maxslots t) x v key path \<and> (path \<noteq> [] \<longrightarrow> key \<in> set (lru_keys l))))
    \<and> (\<forall>k\<in>set (lru_keys l). tbl_map (slots t) (store_id (maxslots t) k) \<noteq> None)"
proof -
  have "\<forall>i. \<exists>kp. head (slots t) i \<longrightarrow> self_described mem t i (fst kp) (snd kp)"
    using assms(3) head_view [OF assms(1)] by (metis fst_conv snd_conv)
  from choice [OF this] obtain KP where KP: "\<forall>i. head (slots t) i \<longrightarrow> self_described mem t i (fst (KP i)) (snd (KP i))" ..
  define K P where "K i = fst (KP i)" and "P i = snd (KP i)" for i
  have K: "head (slots t) i \<Longrightarrow> self_described mem t i (K i) (P i)" for i using KP by (simp add: K_def P_def)
  define js where "js = filter (\<lambda>i. head (slots t) i \<and> P i \<noteq> []) [0..<maxslots t]"
  define l where "l = fold visitKey (map K js) new_LRU"
  have run: "initLruMem mem (Some t) new_LRU = (True, l)"
    using initLruMem_loop_fold [OF assms(1,2) K, of 0 "[]" "[]" new_LRU]
    by (simp add: initLruMem_def hash_tbl_get_count_def qhasharr_size_def l_def js_def)
  have js: "set js = {i. head (slots t) i \<and> P i \<noteq> []}" by (auto simp: js_def head_def maxslots_def)
  have "K i \<noteq> QCONF_KEY_TYPE_LOCAL_IDC" if "i \<in> set js" for i
    using that carries_not_exempt [OF K, of i] unfolding js by blast
  then have ks: "set (lru_keys l) = K ` set js"
    using lru.touches_set [OF lru_inv_new(1), of "map K js"] by (auto simp: l_def)
  have "lru_inv l" unfolding l_def by (rule lru.touches_ok) simp
  moreover have "\<exists>key path. carries mem (maxslots t) x v key path \<and> (path \<noteq> [] \<longrightarrow> key \<in> set (lru_keys l))"
    if v: "tbl_map (slots t) x = Some v" for x v
  proof -
    obtain i where i: "head (slots t) i" "x = (s_hash (slots t ! i), slot_kid (slots t ! i))" "v = value_of (slots t) i"
      using view_head [OF assms(1) v] by blast
    have "P i \<noteq> [] \<longrightarrow> K i \<in> set (lru_keys l)" using i(1) by (simp add: ks js)
    then show ?thesis using K [OF i(1)] unfolding i(2,3) by blast
  qed
  moreover have "tbl_map (slots t) (store_id (maxslots t) k) \<noteq> None" if k: "k \<in> set (lru_keys l)" for k
  proof -
    obtain i where i: "head (slots t) i" "k = K i" using k unfolding ks js by blast
    have "(s_hash (slots t ! i), slot_kid (slots t ! i)) = store_id (maxslots t) k"
      using K [OF i(1)] unfolding carries_def i(2) by blast
    then show ?thesis using head_view [OF assms(1) i(1)] by simp
  qed
  ultimately show ?thesis using run by blast
qed

text \<open>
  C21: Start-up of the agent on an existing table: when every value carries its key, \<open>initLruMem\<close>
  succeeds and the LRU list then tracks the full key of every entry that has a path, and only keys
  that the table holds.
\<close>

theorem initLruMem_tracks:
  assumes "tbl_inv t" and "\<forall>n. mem n"
    and "\<forall>x v. tbl_map (slots t) x = Some v \<longrightarrow> (\<exists>key path. carries mem (maxslots t) x v key path)"
  shows "\<exists>l. initLruMem mem (Some t) new_LRU = (True, l) \<and> lru_inv l
    \<and> (\<forall>x v. tbl_map (slots t) x = Some v \<longrightarrow>
          (\<exists>key path. carries mem (maxslots t) x v key path \<and> (path \<noteq> [] \<longrightarrow> key \<in> set (lru_keys l))))
    \<and> (\<forall>k\<in>set (lru_keys l). tbl_map (slots t) (store_id (maxslots t) k) \<noteq> None)"
  using assms by (rule initLru_tracks)

lemma node_carries:
  assumes "length idc < 256" "length path < 65536" "length v < 4294967296"
    and key: "key = snd (serialize_to_tblkey QCONF_DATA_TYPE_NODE idc path)"
    and "length (snd (nodeval_to_tblval key v)) < 2 ^ 32"
  shows "carries mem m (store_id m key) (frame (snd (nodeval_to_tblval key v))) key path"
proof -
  have "key_info mem QCONF_DATA_TYPE_NODE (snd (nodeval_to_tblval key v)) = (QCONF_OK, idc, path)"
    using nodeval_rt [OF assms(1-3), of "([], [], [])"] by (simp add: key_info_def key Let_def)
  moreover have "serialize_to_tblkey QCONF_DATA_TYPE_NODE idc path = (QCONF_OK, key)"
    by (simp add: key serialize_to_tblkey_def Let_def)
  ultimately show ?thesis using assms unfolding carries_def by blast
qed

theorem initLruMem_tracks_witness:
  "let key = snd (serialize_to_tblkey QCONF_DATA_TYPE_NODE ''i'' ''/p''); val = snd (nodeval_to_tblval key ''v'')
   in \<exists>t l' l. hash_tbl_set (\<lambda>_. True) (Some (empty_tbl 2)) new_LRU key val = (QCONF_OK, Some t, l')
        \<and> initLruMem (\<lambda>_. True) (Some t) new_LRU = (True, l)"
proof -
  define key where "key = snd (serialize_to_tblkey QCONF_DATA_TYPE_NODE ''i'' ''/p'')"
  define val where "val = snd (nodeval_to_tblval key ''v'')"
  have kl: "length key = 7" "key \<noteq> []"
    by (simp_all add: key_def serialize_to_tblkey_def Let_def qconf_append_path_def qconf_append_idc_def qconf_string_append_def)
  have vl: "length val = 12"
    using kl by (simp add: val_def nodeval_to_tblval_def qconf_append_nodeval_def qconf_string_append_def Let_def)
  obtain t l' where s: "hash_tbl_set (\<lambda>_. True) (Some (empty_tbl 2)) new_LRU key val = (QCONF_OK, Some t, l')"
    using set_empty [of 2 key val "\<lambda>_. True"] nblocks_small [of val] kl vl by auto
  have m: "maxslots (empty_tbl 2) = 2" by (simp add: maxslots_def)
  have sp: "tbl_inv t \<and> maxslots t = 2 \<and> tbl_map (slots t) (store_id 2 key) = Some (frame val)
      \<and> (\<forall>i. i \<noteq> store_id 2 key \<longrightarrow> tbl_map (slots t) i = None)"
    using hash_tbl_set_spec [OF set_ok_empty s] kl vl empty_table(2) [of 2] unfolding m
    by (auto simp del: split_paired_All)
  have "carries (\<lambda>_. True) 2 (store_id 2 key) (frame val) key ''/p''"
    unfolding val_def using vl by (intro node_carries) (simp_all add: key_def val_def)
  then have "\<exists>l. initLruMem (\<lambda>_. True) (Some t) new_LRU = (True, l)"
    using initLruMem_tracks [of t "\<lambda>_. True"] sp by (metis option.inject option.distinct(1))
  then show ?thesis using s by (auto simp: Let_def key_def val_def)
qed

end
