(* ===== verification/QDriverThms.thy ===== *)
theory QDriverThms
  imports QDriver QShmThms
begin

text \<open>
  Properties of the driver: path normalisation, reading and waiting, the request that reaches the
  agent, bounds of the caller's buffers, and batches.
\<close>

section \<open>Paths\<close>

lemma strip_delims_id: "s \<noteq> [] \<Longrightarrow> hd s \<noteq> delim \<Longrightarrow> last s \<noteq> delim \<Longrightarrow> strip_delims s = s"
  by (simp add: strip_delims_def dropWhile_eq_self_iff [THEN iffD2] hd_rev)

text \<open>
  Any number of delimiters before and after a path is irrelevant; the normalised path starts
  with one delimiter, does not end with one, and is its own normal form.
\<close>

lemma get_node_path_normal_form:
  "get_node_path internal (replicate m delim @ p @ replicate n delim) old = get_node_path internal p old
    \<and> (get_node_path False p old = (QCONF_OK, real) \<longrightarrow>
        hd real = delim \<and> last real \<noteq> delim \<and> get_node_path False real old = (QCONF_OK, real))"
proof (intro conjI impI)
  show "get_node_path internal (replicate m delim @ p @ replicate n delim) old = get_node_path internal p old"
    by (simp add: get_node_path_strip strip_delims_pad)
  assume "get_node_path False p old = (QCONF_OK, real)"
  then have real: "real = delim # strip_delims p" and ne: "strip_delims p \<noteq> []"
    by (auto simp: get_node_path_strip split: if_splits)
  note en = strip_delims_ends [OF ne]
  have "strip_delims real = strip_delims p"
    using strip_delims_pad [of 1 "strip_delims p" 0] strip_delims_id [OF ne] en by (simp add: real)
  then show "hd real = delim" "last real \<noteq> delim" "get_node_path False real old = (QCONF_OK, real)"
    using ne en by (simp_all add: real get_node_path_strip)
qed

lemma get_node_path_normal_form_example:
  "get_node_path False ''//demo/conf/'' [] = (QCONF_OK, ''/demo/conf'')
    \<and> get_node_path False ''/demo/conf'' [] = (QCONF_OK, ''/demo/conf'')"
proof -
  have s: "get_node_path False ''//demo/conf/'' [] = (QCONF_OK, ''/demo/conf'')"
    by (simp add: get_node_path_def delim_def)
  then show ?thesis
    using get_node_path_normal_form [of False 0 "''//demo/conf/''" 0 "[]" "''/demo/conf''"] by blast
qed

section \<open>Reading\<close>

text \<open>The \<open>n\<close>-th read of the table finds the value \<open>x\<close> under the key.\<close>

definition holds_at :: "drv_env \<Rightarrow> string \<Rightarrow> nat \<Rightarrow> string \<Rightarrow> bool" where
  "holds_at en key n x \<longleftrightarrow> hash_tbl_get (en_mem en) (Some (en_live en n)) key [] = (QCONF_OK, x)"

lemma verify_code: "fst (qconf_verify s) = QCONF_OK \<or> fst (qconf_verify s) = QCONF_ERR_TBL_DATA_MESS"
  by (auto simp: qconf_verify_def Let_def)

lemma hash_tbl_get_ok_old:
  "hash_tbl_get mem tbl key old = (QCONF_OK, x) \<longleftrightarrow> hash_tbl_get mem tbl key [] = (QCONF_OK, x)"
  by (auto simp: hash_tbl_get_def hash_tbl_get_raw_def split: option.splits sum.splits if_splits)

lemma read_tbl_holds:
  assumes "d_tbl st"
  shows "read_tbl en st key old = (QCONF_OK, x, st') \<longleftrightarrow>
    holds_at en key (d_reads st) x \<and> st' = st\<lparr>d_reads := d_reads st + 1\<rparr>"
  using assms hash_tbl_get_ok_old [of "en_mem en" "Some (en_live en (d_reads st))" key old x]
  by (auto simp: read_tbl_def tbl_now_def holds_at_def split: prod.splits)

lemma read_tbl_state: "snd (snd (read_tbl en st key old)) = st\<lparr>d_reads := d_reads st + 1\<rparr>"
  by (simp add: read_tbl_def split: prod.split)

lemma wait_loop_finds:
  assumes "d_tbl st" "holds_at en key (d_reads st + i) x" "count + i < QCONF_MAX_GET_TIMES"
    and "\<forall>j<i. \<forall>y. \<not> holds_at en key (d_reads st + j) y"
  shows "wait_loop en st key ret old count = (QCONF_OK, x, st\<lparr>d_reads := d_reads st + i + 1\<rparr>)"
  using assms
proof (induction i arbitrary: st ret old count)
  case 0
  then have "read_tbl en st key old = (QCONF_OK, x, st\<lparr>d_reads := d_reads st + 1\<rparr>)"
    by (simp add: read_tbl_holds)
  then show ?case using 0 by (subst wait_loop.simps) simp
next
  case (Suc i)
  obtain r v where rd: "read_tbl en st key old = (r, v, st\<lparr>d_reads := d_reads st + 1\<rparr>)"
    using read_tbl_state [of en st key old] by (metis prod.collapse)
  have "r \<noteq> QCONF_OK"
    using Suc.prems(4) [rule_format, of 0 v] read_tbl_holds [OF Suc.prems(1), of en key old v] rd by auto
  moreover have "\<forall>j<i. \<forall>y. \<not> holds_at en key (d_reads st + 1 + j) y"
    using Suc.prems(4) by auto
  then have "wait_loop en (st\<lparr>d_reads := d_reads st + 1\<rparr>) key r v (count + 1) =
      (QCONF_OK, x, st\<lparr>d_reads := d_reads st + Suc i + 1\<rparr>)"
    using Suc.IH [of "st\<lparr>d_reads := d_reads st + 1\<rparr>" "count + 1" r v] Suc.prems by simp
  ultimately show ?case using rd Suc.prems(3) by (subst wait_loop.simps) simp
qed

lemma wait_loop_sound:
  assumes "d_tbl st" "wait_loop en st key ret old count = (QCONF_OK, x, st')" "ret \<noteq> QCONF_OK"
  shows "\<exists>n. d_reads st \<le> n \<and> n < d_reads st' \<and> n < d_reads st + (QCONF_MAX_GET_TIMES - count)
    \<and> holds_at en key n x \<and> st' = st\<lparr>d_reads := d_reads st'\<rparr>"
  using assms
proof (induction en st key ret old count rule: wait_loop.induct)
  case (1 en st key ret old count)
  have c: "count < QCONF_MAX_GET_TIMES" using 1(3,4) by (subst (asm) wait_loop.simps) (simp split: if_splits)
  obtain r v where rd: "read_tbl en st key old = (r, v, st\<lparr>d_reads := d_reads st + 1\<rparr>)"
    using read_tbl_state [of en st key old] by (metis prod.collapse)
  show ?case
  proof (cases "r = QCONF_OK")
    case True
    then have "x = v" "st' = st\<lparr>d_reads := d_reads st + 1\<rparr>"
      using 1(3) c rd by (subst (asm) wait_loop.simps; simp)+
    moreover have "holds_at en key (d_reads st) v" using rd True read_tbl_holds [OF 1(2)] by simp
    ultimately show ?thesis using c by auto
  next
    case False
    then have w: "wait_loop en (st\<lparr>d_reads := d_reads st + 1\<rparr>) key r v (count + 1) = (QCONF_OK, x, st')"
      using 1(3) c rd by (subst (asm) wait_loop.simps) simp
    from 1(1) [OF c rd [symmetric] refl False _ w False] 1(2)
    obtain n where "d_reads st + 1 \<le> n" "n < d_reads st'" "n < d_reads st + 1 + (QCONF_MAX_GET_TIMES - (count + 1))"
      "holds_at en key n x" "st' = st\<lparr>d_reads := d_reads st + 1, d_reads := d_reads st'\<rparr>" by auto
    then show ?thesis using c by (intro exI [of _ n]) auto
  qed
qed

section \<open>Requests\<close>

text \<open>An environment in which the table is empty at the first read and \<open>t\<close> afterwards, for the witnesses.\<close>

abbreviation late_env :: "qhasharr_s \<Rightarrow> drv_env" where
  "late_env t \<equiv> \<lparr>en_shmget = \<lambda>_ _ _. Inr 1, en_shmat = \<lambda>_ _. Some t, en_msgget = \<lambda>_ _. Some 1, en_msgsnd = \<lambda>_ _. 0,
     en_live = (\<lambda>n. if n = 0 then empty_tbl 4 else t), en_mem = \<lambda>_. True, en_rand = 0, en_internal = False\<rparr>"

abbreviation attached :: drv where
  "attached \<equiv> drv_start\<lparr>d_tbl := True, d_msqid := 1\<rparr>"

abbreviation node_key :: "string \<Rightarrow> string \<Rightarrow> string" where
  "node_key idc path \<equiv> snd (serialize_to_tblkey QCONF_DATA_TYPE_NODE idc path)"

lemma node_key_ok:
  "serialize_to_tblkey QCONF_DATA_TYPE_NODE idc path = (QCONF_OK, node_key idc path)" "node_key idc path \<noteq> []"
  "length (node_key idc path) = 4 + length idc + length path"
  by (simp_all add: serialize_to_tblkey_def Let_def qconf_append_path_def qconf_append_idc_def qconf_string_append_def)

lemma late_env_reads:
  assumes "hash_tbl_get (\<lambda>_. True) (Some t) key [] = (QCONF_OK, x)" "key \<noteq> []"
  shows "\<not> holds_at (late_env t) key 0 y" "holds_at (late_env t) key (Suc n) x"
  using assms empty_table [of 4] hash_tbl_get_map [of "empty_tbl 4" "\<lambda>_. True" key] by (simp_all add: holds_at_def)

lemma stored_example:
  assumes "key \<noteq> []" "length key < 65536" "length val \<le> 40"
  obtains t where "hash_tbl_get (\<lambda>_. True) (Some t) key [] = (QCONF_OK, val)" "tbl_inv t"
proof -
  have so: "set_ok (empty_tbl 4) new_LRU key val" by (rule set_ok_empty) (use assms in auto)
  obtain t l where s: "hash_tbl_set (\<lambda>_. True) (Some (empty_tbl 4)) new_LRU key val = (QCONF_OK, Some t, l)"
    using set_empty [of 4 key val "\<lambda>_. True"] nblocks_small [of val] assms by auto
  from hash_tbl_set_spec [OF so s] have t: "tbl_inv t" "maxslots t = 4"
    and m: "tbl_map (slots t) (store_id 4 key) = Some (frame val)"
    by (auto simp: maxslots_def)
  have "hash_tbl_get (\<lambda>_. True) (Some t) key [] = (QCONF_OK, val)"
    using hash_tbl_get_map [OF t(1), of "\<lambda>_. True" key] t(2) m verify_frame [of val "[]"] assms by simp
  then show thesis using that t(1) by blast
qed

abbreviation ready :: "drv \<Rightarrow> bool" where
  "ready st \<equiv> d_tbl st \<and> d_msqid st \<noteq> QCONF_INVALID_SEM_ID"

lemma init_ready: "ready st \<Longrightarrow> init_qconf_env en st = (QCONF_OK, st)"
  by (simp add: init_qconf_env_def init_shm_def init_msg_def)

lemma send_to_agent:
  "send_msg_to_agent en st idc path dt = (ret, st') \<Longrightarrow>
    d_tbl st' = d_tbl st \<and> d_reads st' = d_reads st \<and>
    (if ret = QCONF_OK then d_sent st' = d_sent st @ [snd (serialize_to_tblkey dt idc path)] else d_sent st' = d_sent st)"
  by (auto simp: send_msg_to_agent_def Let_def split: prod.splits)

lemma get_raw_waits:
  assumes "ready st" and "idc \<noteq> []" and "serialize_to_tblkey dt idc path = (QCONF_OK, key)"
    and "\<forall>y. \<not> holds_at en key (d_reads st) y" and "fst (send_msg (en_msgsnd en) (d_sends st) key) = QCONF_OK"
    and "i < 100" and "holds_at en key (d_reads st + 1 + i) x"
    and "\<forall>j<i. \<forall>y. \<not> holds_at en key (d_reads st + 1 + j) y"
  shows "\<exists>st'. qconf_get_raw en st path old dt idc QCONF_WAIT = (QCONF_OK, x, st')
    \<and> d_sent st' = d_sent st @ [key] \<and> d_reads st' = d_reads st + i + 2"
proof -
  let ?st1 = "st\<lparr>d_reads := d_reads st + 1\<rparr>"
  obtain r v where rd: "read_tbl en st key old = (r, v, ?st1)"
    using read_tbl_state [of en st key old] by (metis prod.collapse)
  have r: "r \<noteq> QCONF_OK" using assms(1,4) read_tbl_holds [of st en key old v] rd by auto
  have "fst (send_msg_to_agent en ?st1 idc path dt) = QCONF_OK"
    using assms(3,5) by (cases "send_msg (en_msgsnd en) (d_sends st) key") (simp add: send_msg_to_agent_def)
  then obtain st2 where sd: "send_msg_to_agent en ?st1 idc path dt = (QCONF_OK, st2)" by (metis prod.collapse)
  note s2 = send_to_agent [OF sd]
  have "wait_loop en st2 key r v 0 = (QCONF_OK, x, st2\<lparr>d_reads := d_reads st2 + i + 1\<rparr>)"
    using s2 assms(1,6-8) by (intro wait_loop_finds) auto
  then have "qconf_get_raw en st path old dt idc QCONF_WAIT = (QCONF_OK, x, st2\<lparr>d_reads := d_reads st2 + i + 1\<rparr>)"
    using assms(1-3) rd r sd by (simp add: qconf_get_raw_def init_ready)
  then show ?thesis using s2 assms(3) by simp
qed

text \<open>
  C17: A waiting driver gets its value: when the table does not hold the key yet, the request is sent
  to the agent, and as soon as one of the next hundred reads finds a value, that value is
  returned.
\<close>

theorem qconf_get_waits:
  assumes "ready st" and "idc \<noteq> []" and "serialize_to_tblkey dt idc path = (QCONF_OK, key)"
    and "\<forall>y. \<not> holds_at en key (d_reads st) y" and "fst (send_msg (en_msgsnd en) (d_sends st) key) = QCONF_OK"
    and "i < 100" and "holds_at en key (d_reads st + 1 + i) x"
    and "\<forall>j<i. \<forall>y. \<not> holds_at en key (d_reads st + 1 + j) y"
  shows "\<exists>st'. qconf_get_raw en st path old dt idc QCONF_WAIT = (QCONF_OK, x, st')
    \<and> d_sent st' = d_sent st @ [key] \<and> d_reads st' = d_reads st + i + 2"
  using assms by (rule get_raw_waits)

lemma late_example:
  obtains t where "\<forall>y. \<not> holds_at (late_env t) (node_key ''i'' ''/p'') 0 y"
    "\<forall>n. holds_at (late_env t) (node_key ''i'' ''/p'') (Suc n) ''value''"
    "fst (send_msg (en_msgsnd (late_env t)) (d_sends attached) (node_key ''i'' ''/p'')) = QCONF_OK"
proof -
  define key where "key = node_key ''i'' ''/p''"
  have k: "length key = 7" "key \<noteq> []" by (simp_all add: node_key_ok(2,3) key_def)
  obtain t where t: "hash_tbl_get (\<lambda>_. True) (Some t) key [] = (QCONF_OK, ''value'')"
    by (rule stored_example [of key "''value''"]) (use k in auto)
  have "fst (send_msg (en_msgsnd (late_env t)) (d_sends attached) key) = QCONF_OK"
    using k by (simp add: send_msg_def send_loop_unfold drv_start_def)
  then show thesis using that late_env_reads [OF t k(2)] unfolding key_def by blast
qed

theorem qconf_get_waits_witness:
  "\<exists>t st'. qconf_get_raw (late_env t) attached ''/p'' [] QCONF_DATA_TYPE_NODE ''i'' QCONF_WAIT = (QCONF_OK, ''value'', st')
    \<and> d_sent st' = d_sent attached @ [node_key ''i'' ''/p'']"
proof -
  obtain t where t: "\<forall>y. \<not> holds_at (late_env t) (node_key ''i'' ''/p'') 0 y"
    "\<forall>n. holds_at (late_env t) (node_key ''i'' ''/p'') (Suc n) ''value''"
    "fst (send_msg (en_msgsnd (late_env t)) (d_sends attached) (node_key ''i'' ''/p'')) = QCONF_OK"
    using late_example by blast
  have r: "d_reads attached = 0" "ready attached" by (simp_all add: drv_start_def)
  have p4: "\<forall>y. \<not> holds_at (late_env t) (node_key ''i'' ''/p'') (d_reads attached) y"
    using t(1) unfolding r(1) .
  have p7: "holds_at (late_env t) (node_key ''i'' ''/p'') (d_reads attached + 1 + 0) ''value''"
    using t(2) unfolding r(1) by (simp only: add_0 add_0_right One_nat_def)
  have "\<exists>st'. qconf_get_raw (late_env t) attached ''/p'' [] QCONF_DATA_TYPE_NODE ''i'' QCONF_WAIT = (QCONF_OK, ''value'', st')
      \<and> d_sent st' = d_sent attached @ [node_key ''i'' ''/p''] \<and> d_reads st' = d_reads attached + 0 + 2"
    by (rule qconf_get_waits [OF r(2) _ node_key_ok(1) p4 t(3) _ p7]) simp_all
  then show ?thesis by blast
qed

text \<open>The IDC of a request and the state after finding it: a given IDC, or the local IDC of the table.\<close>

definition request_idc :: "drv_env \<Rightarrow> drv \<Rightarrow> string \<Rightarrow> int \<times> string \<times> drv" where
  "request_idc en st idc =
     (if idc = [] then
        (case qconf_get_localidc (en_mem en) (tbl_now en st) idc of (r, tmp_idc) \<Rightarrow>
           (r, tmp_idc, st\<lparr>d_reads := d_reads st + 1\<rparr>))
      else (QCONF_OK, idc, st))"

text \<open>The data centre that a request is made for: the given one, or, with none given, the local IDC
  that the table holds at the first read.\<close>

definition used_idc :: "drv_env \<Rightarrow> drv \<Rightarrow> string \<Rightarrow> string \<Rightarrow> bool" where
  "used_idc en st idc i \<longleftrightarrow>
     (if idc = [] then qconf_get_localidc (en_mem en) (Some (en_live en (d_reads st))) [] = (QCONF_OK, i) else i = idc)"

lemma localidc_short:
  assumes "qconf_get_localidc mem tbl old = (QCONF_OK, i)"
  shows "length i < 256"
proof -
  have b: "qconf_decode_num 1 s < 256" for s by (cases s) (simp_all add: qconf_decode_num_def)
  have "tblval_to_localidc s old = (QCONF_OK, i) \<Longrightarrow> length i < 256" for s
    using b [of s] by (auto simp: tblval_to_localidc_def qconf_sub_idc_def qconf_string_sub_def Let_def chunk_def
        split: if_splits prod.splits)
  then show ?thesis using assms by (auto simp: qconf_get_localidc_def Let_def split: if_splits prod.splits)
qed

lemma request_idc_used:
  assumes "d_tbl st1" "d_reads st1 = d_reads st" "request_idc en st1 idc = (QCONF_OK, tmp_idc, st2)"
  shows "used_idc en st idc tmp_idc" "d_reads st2 = d_reads st + (if idc = [] then 1 else 0)"
  using assms by (auto simp: request_idc_def used_idc_def tbl_now_def split: if_splits prod.splits)

lemma request_idc_state:
  "request_idc en st idc = (r, tmp_idc, st') \<Longrightarrow>
     d_tbl st' = d_tbl st \<and> d_reads st \<le> d_reads st' \<and> d_sent st' = d_sent st"
  by (auto simp: request_idc_def split: prod.splits if_splits)

lemma init_state:
  "init_qconf_env en st = (QCONF_OK, st') \<Longrightarrow> d_tbl st' \<and> d_reads st' = d_reads st \<and> d_sent st' = d_sent st"
  "init_qconf_env en st = (ret, st') \<Longrightarrow> d_sent st' = d_sent st"
  by (auto simp: init_qconf_env_def init_shm_def init_msg_def split: prod.splits if_splits)

lemma wait_loop_sent:
  "snd (snd (wait_loop en st key ret old count)) =
     st\<lparr>d_reads := d_reads (snd (snd (wait_loop en st key ret old count)))\<rparr>"
proof (induction en st key ret old count rule: wait_loop.induct)
  case (1 en st key ret old count)
  obtain r v where rd: "read_tbl en st key old = (r, v, st\<lparr>d_reads := d_reads st + 1\<rparr>)"
    using read_tbl_state [of en st key old] by (metis prod.collapse)
  show ?case
  proof (cases "count < QCONF_MAX_GET_TIMES \<and> r \<noteq> QCONF_OK")
    case True
    then have "wait_loop en st key ret old count = wait_loop en (st\<lparr>d_reads := d_reads st + 1\<rparr>) key r v (count + 1)"
      using rd by (subst wait_loop.simps) simp
    then show ?thesis using 1 [OF _ rd [symmetric] refl] True by simp
  next
    case False
    then show ?thesis using rd by (subst (1 2) wait_loop.simps) auto
  qed
qed

lemma qconf_get_raw_cases:
  assumes "qconf_get_raw en st path old dt idc flags = (ret, x, st')"
  obtains (failed) "ret \<noteq> QCONF_OK" "d_sent st' = d_sent st"
  | (found) tmp_idc and st2 :: drv and key where "ret = QCONF_OK" "d_tbl st2" "d_reads st2 = d_reads st + (if idc = [] then 1 else 0)"
      "d_sent st' = d_sent st" "serialize_to_tblkey dt tmp_idc path = (QCONF_OK, key)" "used_idc en st idc tmp_idc"
      "holds_at en key (d_reads st2) x" "d_reads st' = d_reads st2 + 1"
  | (asked) st2 :: drv and tmp_idc and st4 :: drv and key r v where "d_tbl st2" "d_reads st2 = d_reads st + (if idc = [] then 1 else 0)"
      "serialize_to_tblkey dt tmp_idc path = (QCONF_OK, key)" "used_idc en st idc tmp_idc"
      "d_sent st4 = d_sent st @ [key]" "d_tbl st4" "d_reads st4 = d_reads st2 + 1" "r \<noteq> QCONF_OK"
      "(ret, x, st') = (if flags = QCONF_NOWAIT then (r, v, st4) else wait_loop en st4 key r v 0)"
proof -
  obtain r0 st1 where i: "init_qconf_env en st = (r0, st1)" by fastforce
  obtain r1 tmp_idc st2 where q: "request_idc en st1 idc = (r1, tmp_idc, st2)" by (metis prod_cases3)
  obtain r2 key where k: "serialize_to_tblkey dt tmp_idc path = (r2, key)" by fastforce
  obtain r v where rd: "read_tbl en st2 key old = (r, v, st2\<lparr>d_reads := d_reads st2 + 1\<rparr>)"
    using read_tbl_state [of en st2 key old] by (metis prod.collapse)
  obtain r4 st4 where s: "send_msg_to_agent en (st2\<lparr>d_reads := d_reads st2 + 1\<rparr>) tmp_idc path dt = (r4, st4)" by fastforce
  have g: "qconf_get_raw en st path old dt idc flags =
      (if r0 \<noteq> QCONF_OK then (r0, old, st1) else if r1 \<noteq> QCONF_OK then (r1, old, st2)
       else if r2 \<noteq> QCONF_OK then (r2, old, st2)
       else if r = QCONF_OK then (r, v, st2\<lparr>d_reads := d_reads st2 + 1\<rparr>)
       else if r4 \<noteq> QCONF_OK then (r4, v, st4)
       else if flags = QCONF_NOWAIT then (r, v, st4) else wait_loop en st4 key r v 0)"
    using i q k rd s by (simp add: qconf_get_raw_def request_idc_def)
  note rs = request_idc_state [OF q] and ss = send_to_agent [OF s]
  show thesis
  proof (cases "r0 = QCONF_OK \<and> r1 = QCONF_OK \<and> r2 = QCONF_OK \<and> (r = QCONF_OK \<or> r4 = QCONF_OK)")
    case False
    then have "ret \<noteq> QCONF_OK \<and> d_sent st' = d_sent st"
      using assms g rs ss init_state(2) [OF i] by (auto split: if_splits)
    then show thesis using failed by blast
  next
    case True
    then have i0: "d_tbl st1" "d_reads st1 = d_reads st" "d_sent st1 = d_sent st" using init_state(1) i by auto
    have "request_idc en st1 idc = (QCONF_OK, tmp_idc, st2)" using q True by simp
    note idc = request_idc_used [OF i0(1,2) this]
    show thesis
    proof (cases "r = QCONF_OK")
      case ok: True
      then have "holds_at en key (d_reads st2) v" using rd rs i0 read_tbl_holds [of st2 en key old v] by simp
      then show thesis using found [of st2 tmp_idc key] ok True g assms i0 rs idc k by auto
    next
      case False
      then show thesis using asked [of st2 tmp_idc key st4 r v] True g assms i0 rs ss idc k by auto
    qed
  qed
qed

lemma qconf_get_raw_found:
  assumes "ready st" "idc \<noteq> []" "serialize_to_tblkey dt idc path = (QCONF_OK, key)" "holds_at en key (d_reads st) x"
  shows "qconf_get_raw en st path old dt idc flags = (QCONF_OK, x, st\<lparr>d_reads := d_reads st + 1\<rparr>)"
proof -
  have "read_tbl en st key old = (QCONF_OK, x, st\<lparr>d_reads := d_reads st + 1\<rparr>)"
    using assms(1,4) by (simp add: read_tbl_holds)
  then show ?thesis using assms(1-3) by (simp add: qconf_get_raw_def init_ready)
qed

text \<open>
  C18: Every value that a driver returns was in the table, verified, at one of its reads, under the
  key of the request.  The key names the data centre that the caller gave, or, when the caller gave
  none, the local IDC that the table held at the first read of the call.
\<close>

theorem qconf_get_sound:
  assumes "qconf_get_raw en st path old dt idc flags = (QCONF_OK, x, st')"
  shows "\<exists>i n key. used_idc en st idc i \<and> d_reads st + (if idc = [] then 1 else 0) \<le> n \<and> n < d_reads st'
    \<and> serialize_to_tblkey dt i path = (QCONF_OK, key) \<and> holds_at en key n x"
  using assms
proof (cases rule: qconf_get_raw_cases)
  case (found tmp_idc st2 key)
  then show ?thesis by (intro exI [of _ tmp_idc] exI [of _ "d_reads st2"] exI [of _ key]) auto
next
  case (asked st2 tmp_idc st4 key r v)
  then have w: "wait_loop en st4 key r v 0 = (QCONF_OK, x, st')" by (auto split: if_splits)
  obtain n where "d_reads st4 \<le> n" "n < d_reads st'" "holds_at en key n x"
    using wait_loop_sound [OF asked(6) w asked(8)] by blast
  then show ?thesis using asked by (intro exI [of _ tmp_idc] exI [of _ n] exI [of _ key]) auto
qed simp

text \<open>For the witnesses: an environment in which the table is \<open>t\<close> throughout, and tables that hold the
  local IDC, alone and beside a node.\<close>

abbreviation still_env :: "qhasharr_s \<Rightarrow> drv_env" where
  "still_env t \<equiv> (late_env t)\<lparr>en_live := \<lambda>_. t\<rparr>"

abbreviation (input) local_idc_key :: string where
  "local_idc_key \<equiv> snd (serialize_to_tblkey QCONF_DATA_TYPE_LOCAL_IDC [] [])"

lemma local_idc_key: "local_idc_key = [QCONF_DATA_TYPE_LOCAL_IDC]"
  by (simp add: serialize_to_tblkey_def Let_def)

lemma localidc_rt:
  assumes "length idc < 256"
  shows "tblval_to_localidc (snd (localidc_to_tblval local_idc_key idc)) old = (QCONF_OK, idc)"
  using idcf.sub_app_first [OF assms] unfolding local_idc_key by (simp add: tblval_to_localidc_def localidc_to_tblval_def)

lemma idc_table:
  obtains t l where "tbl_inv t" "lru_inv l" "maxslots t = 4" "usedslots t = 1"
    "tbl_map (slots t) = [store_id 4 local_idc_key \<mapsto> frame (snd (localidc_to_tblval local_idc_key ''i''))]"
proof -
  let ?v = "snd (localidc_to_tblval local_idc_key ''i'')" and ?e = "empty_tbl 4"
  have l: "length ?v \<le> 40" unfolding local_idc_key by (simp add: localidc_to_tblval_def qconf_append_idc_def qconf_string_append_def)
  then have nb: "nblocks (frame ?v) = 1" by (rule nblocks_small)
  have e: "tbl_map (slots ?e) = Map.empty" "maxslots ?e = 4" using empty_table(2) [of 4] by (simp_all add: maxslots_def)
  have ok: "set_ok ?e new_LRU local_idc_key ?v" using l unfolding local_idc_key by (intro set_ok_empty) simp_all
  obtain t l where t: "tbl_inv t" "lru_inv l" "maxslots t = 4" "tbl_map (slots t) = [store_id 4 local_idc_key \<mapsto> frame ?v]"
    by (rule set_room [OF ok, of "\<lambda>_. True"]) (use e nb in simp_all)
  moreover have "usedslots t = 1" using usedslots_map [OF t(1)] t(4) nb by (simp add: weight_insert)
  ultimately show thesis using that by blast
qed

lemma idc_lookup:
  assumes "tbl_inv t" "maxslots t = 4"
    "tbl_map (slots t) (store_id 4 local_idc_key) = Some (frame (snd (localidc_to_tblval local_idc_key ''i'')))"
  shows "qconf_get_localidc (\<lambda>_. True) (Some t) [] = (QCONF_OK, ''i'')"
proof -
  let ?v = "snd (localidc_to_tblval local_idc_key ''i'')"
  have "length ?v < 2 ^ 32" unfolding local_idc_key by (simp add: localidc_to_tblval_def qconf_append_idc_def qconf_string_append_def)
  then have "hash_tbl_get (\<lambda>_. True) (Some t) local_idc_key [] = (QCONF_OK, ?v)"
    using hash_tbl_get_map [OF assms(1), of "\<lambda>_. True" local_idc_key "[]"] assms(2,3) verify_frame [of ?v "[]"]
    unfolding local_idc_key by simp
  then show ?thesis using localidc_rt [of "''i''" "[]"] by (simp add: qconf_get_localidc_def Let_def)
qed

lemma idc_key_other: "store_id 4 (node_key ''i'' ''/p'') \<noteq> store_id 4 local_idc_key"
proof -
  have "length (node_key ''i'' ''/p'') \<noteq> length local_idc_key" unfolding node_key_ok(3) local_idc_key by simp
  then show ?thesis by (simp add: store_id_def kid_def)
qed

lemma set_second:
  assumes t: "tbl_inv t" "lru_inv l" "maxslots t = 4" "usedslots t = 1" "tbl_map (slots t) = [x \<mapsto> w]"
    and k: "x \<noteq> store_id 4 key" "key \<noteq> []" "length key < 65536" "length val \<le> 40"
  obtains t' where "tbl_inv t'" "maxslots t' = 4" "tbl_map (slots t') = [x \<mapsto> w, store_id 4 key \<mapsto> frame val]"
    "hash_tbl_get (\<lambda>_. True) (Some t') key [] = (QCONF_OK, val)"
proof -
  have "bucket_load (tbl_map (slots t)) (bucket t key) < 32767"
    using bucket_load_dom [of "tbl_map (slots t)" "bucket t key"] t(5) by simp
  then have ok: "set_ok t l key val" using t k by (simp add: set_ok_def)
  obtain t' l' where s: "hash_tbl_set (\<lambda>_. True) (Some t) l key val = (QCONF_OK, Some t', l')" "tbl_inv t'" "maxslots t' = 4"
    "tbl_map (slots t') = (tbl_map (slots t))(store_id 4 key \<mapsto> frame val)"
    by (rule set_room [OF ok, of "\<lambda>_. True"]) (use t k in \<open>simp_all add: nblocks_small\<close>)
  moreover have "hash_tbl_get (\<lambda>_. True) (Some t') key [] = (QCONF_OK, val)" using set_get_rt [OF ok _ s(1)] by simp
  ultimately show thesis using that t(5) by simp
qed

lemma idc_and_node:
  obtains t where "qconf_get_localidc (\<lambda>_. True) (Some t) [] = (QCONF_OK, ''i'')"
    "hash_tbl_get (\<lambda>_. True) (Some t) (node_key ''i'' ''/p'') [] = (QCONF_OK, ''value'')"
proof -
  let ?k = "node_key ''i'' ''/p''"
  have k: "length ?k = 7" "?k \<noteq> []" by (simp_all add: node_key_ok(2,3))
  obtain t l where t: "tbl_inv t" "lru_inv l" "maxslots t = 4" "usedslots t = 1"
    "tbl_map (slots t) = [store_id 4 local_idc_key \<mapsto> frame (snd (localidc_to_tblval local_idc_key ''i''))]" by (rule idc_table)
  obtain t' where s: "tbl_inv t'" "maxslots t' = 4" "tbl_map (slots t') = [store_id 4 local_idc_key \<mapsto>
      frame (snd (localidc_to_tblval local_idc_key ''i'')), store_id 4 ?k \<mapsto> frame ''value'']"
    "hash_tbl_get (\<lambda>_. True) (Some t') ?k [] = (QCONF_OK, ''value'')"
    by (rule set_second [OF t, of ?k "''value''"]) (use k idc_key_other in simp_all)
  have "qconf_get_localidc (\<lambda>_. True) (Some t') [] = (QCONF_OK, ''i'')"
    by (rule idc_lookup [OF s(1,2)]) (use s(3) idc_key_other in simp)
  then show thesis using that s(4) by blast
qed

theorem qconf_get_sound_witness:
  "\<exists>t st' n. qconf_get_raw (still_env t) attached ''/p'' [] QCONF_DATA_TYPE_NODE [] QCONF_WAIT = (QCONF_OK, ''value'', st')
    \<and> 1 \<le> n \<and> n < d_reads st' \<and> holds_at (still_env t) (node_key ''i'' ''/p'') n ''value''"
proof -
  define key where "key = node_key ''i'' ''/p''"
  have ks: "serialize_to_tblkey QCONF_DATA_TYPE_NODE ''i'' ''/p'' = (QCONF_OK, key)" unfolding key_def by (rule node_key_ok(1))
  obtain t where t: "qconf_get_localidc (\<lambda>_. True) (Some t) [] = (QCONF_OK, ''i'')"
    "hash_tbl_get (\<lambda>_. True) (Some t) key [] = (QCONF_OK, ''value'')" unfolding key_def by (rule idc_and_node)
  have st: "ready attached" "d_reads attached = 0" by (simp_all add: drv_start_def)
  have "\<exists>st'. qconf_get_raw (still_env t) attached ''/p'' [] QCONF_DATA_TYPE_NODE [] QCONF_WAIT = (QCONF_OK, ''value'', st')"
    using t st by (simp add: qconf_get_raw_def init_ready ks tbl_now_def read_tbl_def)
  then obtain st' where g: "qconf_get_raw (still_env t) attached ''/p'' [] QCONF_DATA_TYPE_NODE [] QCONF_WAIT = (QCONF_OK, ''value'', st')" ..
  from qconf_get_sound [OF g] obtain i n k where "used_idc (still_env t) attached [] i" "1 \<le> n" "n < d_reads st'"
    "serialize_to_tblkey QCONF_DATA_TYPE_NODE i ''/p'' = (QCONF_OK, k)" "holds_at (still_env t) k n ''value''"
    using st(2) by auto
  moreover from this(1) have "i = ''i''" using t(1) by (simp add: used_idc_def)
  ultimately show ?thesis using g ks unfolding key_def by (intro exI [of _ t] exI [of _ st'] exI [of _ n]) simp
qed

text \<open>
  C22: A request that the driver sends is the key of the item it looks for, and the agent decodes it
  to the data type, data centre and path; nothing else is sent.  The data centre is the one that the
  caller gave, or, when the caller gave none, the local IDC that the table held at the first read.
\<close>

theorem qconf_get_request:
  assumes "qconf_get_raw en st path old dt idc flags = (ret, x, st')"
    and "length idc < 256" and "length path < 65536"
    and "dt = QCONF_DATA_TYPE_NODE \<or> dt = QCONF_DATA_TYPE_SERVICE \<or> dt = QCONF_DATA_TYPE_BATCH_NODE"
  shows "d_sent st' = d_sent st \<or>
    (\<exists>m i. d_sent st' = d_sent st @ [m] \<and> used_idc en st idc i \<and> deserialize_from_tblkey m outs = (QCONF_OK, dt, i, path))"
  using assms(1)
proof (cases rule: qconf_get_raw_cases)
  case (asked st2 tmp_idc st4 key r v)
  have "d_sent st' = d_sent st4"
    using asked(9) wait_loop_sent [of en st4 key r v 0]
    by (cases "flags = QCONF_NOWAIT") (simp, metis (no_types, lifting) drv.select_convs(5) drv.surjective drv.update_convs(3) snd_conv)
  moreover have "length tmp_idc < 256" using asked(4) assms(2) localidc_short by (auto simp: used_idc_def split: if_splits)
  then have "deserialize_from_tblkey key outs = (QCONF_OK, dt, tmp_idc, path)"
    using tblkey_rt [OF assms(4) _ assms(3), of tmp_idc outs] asked(3) by simp
  ultimately show ?thesis using asked(4,5) by auto
qed simp_all

theorem qconf_get_request_witness:
  "\<exists>t ret x st' m. qconf_get_raw (still_env t) attached ''/p'' [] QCONF_DATA_TYPE_NODE [] QCONF_NOWAIT = (ret, x, st')
    \<and> d_sent st' = [m] \<and> deserialize_from_tblkey m (NUL, [], []) = (QCONF_OK, QCONF_DATA_TYPE_NODE, ''i'', ''/p'')"
proof -
  define key where "key = node_key ''i'' ''/p''"
  have k: "length key = 7" "key \<noteq> []" by (simp_all add: node_key_ok(2,3) key_def)
  have ks: "serialize_to_tblkey QCONF_DATA_TYPE_NODE ''i'' ''/p'' = (QCONF_OK, key)"
    unfolding key_def by (rule node_key_ok(1))
  obtain t where t: "tbl_inv t" "maxslots t = 4"
    "tbl_map (slots t) = [store_id 4 local_idc_key \<mapsto> frame (snd (localidc_to_tblval local_idc_key ''i''))]" using idc_table by metis
  have li: "qconf_get_localidc (\<lambda>_. True) (Some t) [] = (QCONF_OK, ''i'')" by (rule idc_lookup [OF t(1,2)]) (simp add: t(3))
  have "hash_tbl_get (\<lambda>_. True) (Some t) key [] = (QCONF_ERR_NOT_FOUND, [])"
    using hash_tbl_get_map [OF t(1), of "\<lambda>_. True" key] t(2,3) k(2) idc_key_other by (simp add: key_def)
  then have rd: "read_tbl (still_env t) (attached\<lparr>d_reads := 1\<rparr>) key [] = (QCONF_ERR_NOT_FOUND, [], attached\<lparr>d_reads := 2\<rparr>)"
    by (simp add: read_tbl_def tbl_now_def)
  obtain st' where sd: "send_msg_to_agent (still_env t) (attached\<lparr>d_reads := 2\<rparr>) ''i'' ''/p'' QCONF_DATA_TYPE_NODE = (QCONF_OK, st')"
    and st': "d_sent st' = [key]"
    using k by (simp add: send_msg_to_agent_def ks send_msg_def send_loop_unfold drv_start_def)
  have st: "ready attached" "d_reads attached = 0" "d_sent attached = []" by (simp_all add: drv_start_def)
  have g: "qconf_get_raw (still_env t) attached ''/p'' [] QCONF_DATA_TYPE_NODE [] QCONF_NOWAIT = (QCONF_ERR_NOT_FOUND, [], st')"
    using init_ready [OF st(1)] li rd sd st(2) by (simp add: qconf_get_raw_def ks tbl_now_def)
  obtain m i where m: "d_sent st' = [m]" "used_idc (still_env t) attached [] i"
    "deserialize_from_tblkey m (NUL, [], []) = (QCONF_OK, QCONF_DATA_TYPE_NODE, i, ''/p'')"
    using qconf_get_request [OF g, of "(NUL, [], [])"] st' st(3) by auto
  moreover have "i = ''i''" using m(2) li by (simp add: used_idc_def)
  ultimately show ?thesis using g by blast
qed

section \<open>The caller's buffers\<close>

lemma blit_buffer:
  assumes "length v < n" "n \<le> length b"
  shows "length (blit 0 (v @ [NUL]) b) = length b" "cstr (blit 0 (v @ [NUL]) b) = cstr v"
proof -
  show "length (blit 0 (v @ [NUL]) b) = length b" using assms by simp
  show "cstr (blit 0 (v @ [NUL]) b) = cstr v"
    by (simp add: blit_def cstr_def takeWhile_append takeWhile_eq_all_conv [THEN iffD2])
qed

text \<open>
  C25: Reading a value into a caller's buffer stays within the buffer: its size is kept, an error
  leaves it unchanged, and on success it holds, as a C string, the value read from the table.
\<close>

theorem qconf_get_conf_buffer:
  assumes "buf_len \<le> length b" and "qconf_get_conf_raw en st path (Some b) buf_len idc flags = (ret, out, st')"
  shows "\<exists>b'. out = Some b' \<and> length b' = length b \<and> (ret \<noteq> QCONF_OK \<longrightarrow> b' = b)
    \<and> (ret = QCONF_OK \<longrightarrow> (\<exists>real v. get_node_path (en_internal en) (cstr (the path)) [] = (QCONF_OK, real)
          \<and> qconf_get en st real [] (idc_arg idc) flags = (QCONF_OK, v, st') \<and> length v < buf_len \<and> cstr b' = cstr v))"
  using assms blit_buffer [of _ buf_len b]
  by (auto simp: qconf_get_conf_raw_def split: prod.splits if_splits)

text \<open>For the witnesses: a state whose next read of \<open>late_env t\<close> sees \<open>t\<close>.\<close>

abbreviation attached1 :: drv where
  "attached1 \<equiv> drv_start\<lparr>d_tbl := True, d_msqid := 1, d_reads := Suc 0\<rparr>"

lemma get_raw_example:
  assumes "serialize_to_tblkey dt ''i'' ''/p'' = (QCONF_OK, key)" "key \<noteq> []" "length key < 65536" "length val \<le> 40"
  obtains t where "\<forall>flags. qconf_get_raw (late_env t) attached1 ''/p'' [] dt ''i'' flags = (QCONF_OK, val, attached1\<lparr>d_reads := 2\<rparr>)"
proof -
  obtain t where t: "hash_tbl_get (\<lambda>_. True) (Some t) key [] = (QCONF_OK, val)"
    by (rule stored_example [OF assms(2-4)])
  have h: "holds_at (late_env t) key (d_reads attached1) val" using late_env_reads(2) [OF t assms(2), of 0] by simp
  have "ready attached1" "''i'' \<noteq> []" by simp_all
  from qconf_get_raw_found [OF this assms(1) h]
  have "qconf_get_raw (late_env t) attached1 ''/p'' [] dt ''i'' flags = (QCONF_OK, val, attached1\<lparr>d_reads := 2\<rparr>)" for flags
    by (simp add: numeral_2_eq_2)
  then show thesis using that by blast
qed

theorem qconf_get_conf_buffer_witness:
  "\<exists>t b'. qconf_get_conf_raw (late_env t) attached1 (Some ''/p/'') (Some (replicate 8 NUL)) 8 (Some ''i'') QCONF_WAIT
      = (QCONF_OK, Some b', attached1\<lparr>d_reads := 2\<rparr>) \<and> length b' = 8 \<and> cstr b' = ''v''"
proof -
  define key where "key = node_key ''i'' ''/p''"
  define val where "val = snd (nodeval_to_tblval key ''v'')"
  have k: "length key = 7" "key \<noteq> []" by (simp_all add: node_key_ok(2,3) key_def)
  have l: "length val = 12"
    using k(1) by (simp add: val_def nodeval_to_tblval_def qconf_append_nodeval_def qconf_string_append_def Let_def)
  obtain t where g: "\<forall>flags. qconf_get_raw (late_env t) attached1 ''/p'' [] QCONF_DATA_TYPE_NODE ''i'' flags
      = (QCONF_OK, val, attached1\<lparr>d_reads := 2\<rparr>)"
    by (rule get_raw_example [of QCONF_DATA_TYPE_NODE key val]) (use k l node_key_ok(1) [of "''i''" "''/p''"] in \<open>auto simp: key_def\<close>)
  have d: "tblval_to_nodeval val [] = (QCONF_OK, ''v'')"
    using nodeval_rt [of "''i''" "''/p''" "''v''" "([], [], [])" "[]"] by (simp add: val_def key_def Let_def)
  have q: "qconf_get (late_env t) attached1 ''/p'' [] ''i'' QCONF_WAIT = (QCONF_OK, ''v'', attached1\<lparr>d_reads := 2\<rparr>)"
    using g d by (simp add: qconf_get_def)
  have p: "get_node_path False ''/p/'' [] = (QCONF_OK, ''/p'')" by (simp add: get_node_path_def delim_def)
  have c: "path_given (Some ''/p/'')" "cstr ''/p/'' = ''/p/''" "idc_arg (Some ''i'') = ''i''" "cstr ''v'' = ''v''"
    by (simp_all add: path_given_def cstr_def idc_arg_def NUL_def)
  have r: "qconf_get_conf_raw (late_env t) attached1 (Some ''/p/'') (Some (replicate 8 NUL)) 8 (Some ''i'') QCONF_WAIT
      = (QCONF_OK, Some (blit 0 (''v'' @ [NUL]) (replicate 8 NUL)), attached1\<lparr>d_reads := 2\<rparr>)"
    using q p c by (simp add: qconf_get_conf_raw_def)
  have "8 \<le> length (replicate 8 NUL)" by simp
  from qconf_get_conf_buffer [OF this r]
  have "length (blit 0 (''v'' @ [NUL]) (replicate 8 NUL)) = 8" "cstr (blit 0 (''v'' @ [NUL]) (replicate 8 NUL)) = ''v''"
    using q p c by simp_all
  then show ?thesis using r by blast
qed

lemma allhost_some: "\<exists>r nodes st1. qconf_get_allhost_raw en st path (Some []) idc flags = (r, Some nodes, st1)"
  by (auto simp: qconf_get_allhost_raw_def Let_def split: prod.split)

text \<open>
  C26: A host is written into the caller's buffer only if it fits, and it is one of the hosts of the
  service.
\<close>

theorem qconf_get_host_buffer:
  assumes "0 < buf_len" and "buf_len \<le> length b" and "path_given path"
    and "qconf_get_host_raw en st path (Some b) buf_len idc flags = (ret, out, st')"
  shows "\<exists>b'. out = Some b' \<and> length b' = length b \<and> (ret \<noteq> QCONF_OK \<longrightarrow> b' = b)
    \<and> (ret = QCONF_OK \<longrightarrow> (\<exists>nodes. qconf_get_allhost_raw en st path (Some []) idc flags = (QCONF_OK, Some nodes, st')
          \<and> (if nodes = [] then cstr b' = [] else \<exists>h\<in>set nodes. cstr b' = sv_str h)))"
proof -
  obtain r nodes st1 where a: "qconf_get_allhost_raw en st path (Some []) idc flags = (r, Some nodes, st1)"
    using allhost_some by blast
  show ?thesis
  proof (cases "r = QCONF_OK \<and> nodes \<noteq> []")
    case False
    then show ?thesis
      using assms a blit_buffer [of "[]" buf_len b] by (auto simp: qconf_get_host_raw_def split: if_splits)
  next
    case True
    let ?h = "nodes ! (en_rand en mod length nodes)"
    have "?h \<in> set nodes" using True by simp
    moreover have "cstr (sv_str ?h) = sv_str ?h" by (simp add: sv_str_def split: option.split)
    ultimately show ?thesis
      using assms a True blit_buffer [of "sv_str ?h" buf_len b]
      by (auto simp: qconf_get_host_raw_def Let_def split: if_splits intro!: bexI [of _ ?h])
  qed
qed

lemma vector_typed_path:
  "tblval_to_vectorval mem tblval dt (nodes, idc, path) = (QCONF_OK, ns, i, p) \<Longrightarrow> tblval_to_vector_typed mem dt tblval nodes = (QCONF_OK, ns)"
  by (auto simp: tblval_to_vectorval_def tblval_to_vector_typed_def split: prod.splits if_splits)

theorem qconf_get_host_buffer_witness:
  "\<exists>t b'. qconf_get_host_raw (late_env t) attached1 (Some ''/p'') (Some (replicate 8 NUL)) 8 (Some ''i'') QCONF_WAIT
      = (QCONF_OK, Some b', attached1\<lparr>d_reads := 2\<rparr>) \<and> length b' = 8 \<and> cstr b' = ''h:1''"
proof -
  define key where "key = snd (serialize_to_tblkey QCONF_DATA_TYPE_SERVICE ''i'' ''/p'')"
  define val where "val = snd (chdnodeval_to_tblval key [Some ''h:1''] [STATUS_UP])"
  have k: "length key = 7" "key \<noteq> []" "serialize_to_tblkey QCONF_DATA_TYPE_SERVICE ''i'' ''/p'' = (QCONF_OK, key)"
    by (simp_all add: key_def serialize_to_tblkey_def Let_def qconf_append_path_def qconf_append_idc_def qconf_string_append_def)
  have l: "length val = 14"
    using k(1) by (simp add: val_def chdnodeval_to_tblval_def vector_entry_def Let_def to_width_def cstr_def NUL_def)
  obtain t where g: "\<forall>flags. qconf_get_raw (late_env t) attached1 ''/p'' [] QCONF_DATA_TYPE_SERVICE ''i'' flags
      = (QCONF_OK, val, attached1\<lparr>d_reads := 2\<rparr>)"
    by (rule get_raw_example [OF k(3,2)]) (use k l in auto)
  have "tblval_to_chdnodeval_path (\<lambda>_. True) val ([], [], []) = (QCONF_OK, [Some ''h:1''], ''i'', ''/p'')"
    using services_rt [of "''i''" "''/p''" "[''h:1'']" "[STATUS_UP]" "\<lambda>_. True" "([], [], [])"]
    by (simp add: val_def key_def NUL_def)
  then have d: "tblval_to_chdnodeval (\<lambda>_. True) val [] = (QCONF_OK, [Some ''h:1''])"
    unfolding tblval_to_chdnodeval_def tblval_to_chdnodeval_path_def by (rule vector_typed_path)
  have p: "get_node_path False ''/p'' [] = (QCONF_OK, ''/p'')" by (simp add: get_node_path_def delim_def)
  have c: "path_given (Some ''/p'')" "cstr ''/p'' = ''/p''" "idc_arg (Some ''i'') = ''i''" "cstr ''h:1'' = ''h:1''"
    by (simp_all add: path_given_def cstr_def idc_arg_def NUL_def)
  have a: "qconf_get_allhost_raw (late_env t) attached1 (Some ''/p'') (Some []) (Some ''i'') QCONF_WAIT
      = (QCONF_OK, Some [Some ''h:1''], attached1\<lparr>d_reads := 2\<rparr>)"
    using g d p c by (simp add: qconf_get_allhost_raw_def qconf_get_children_def)
  have r: "qconf_get_host_raw (late_env t) attached1 (Some ''/p'') (Some (replicate 8 NUL)) 8 (Some ''i'') QCONF_WAIT
      = (QCONF_OK, Some (blit 0 (''h:1'' @ [NUL]) (replicate 8 NUL)), attached1\<lparr>d_reads := 2\<rparr>)"
    using a c by (simp add: qconf_get_host_raw_def)
  have "0 < (8::nat)" "8 \<le> length (replicate 8 NUL)" by simp_all
  from qconf_get_host_buffer [OF this c(1) r] a c
  have "length (blit 0 (''h:1'' @ [NUL]) (replicate 8 NUL)) = 8 \<and> cstr (blit 0 (''h:1'' @ [NUL]) (replicate 8 NUL)) = ''h:1''"
    by simp
  then show ?thesis using r by blast
qed

section \<open>Batches\<close>

text \<open>The value of a pair is the one that a read of the child's path returned.\<close>

definition child_read :: "drv_env \<Rightarrow> string \<Rightarrow> string \<Rightarrow> int \<Rightarrow> string option \<times> string option \<Rightarrow> bool" where
  "child_read en path idc flags p \<longleftrightarrow>
     (\<exists>st buf buf' st'. qconf_get en st (path @ ''/'' @ sv_str (fst p)) buf idc flags = (QCONF_OK, buf', st')
        \<and> snd p = Some (cstr buf'))"

lemma batch_loop_spec:
  assumes "batch_loop en st path idc flags nodes buf acc = (ret, out, st')"
  shows "if ret = QCONF_OK then \<exists>ps. out = acc @ ps \<and> map fst ps = nodes \<and> list_all (child_read en path idc flags) ps else out = []"
  using assms
proof (induction nodes arbitrary: st buf acc)
  case (Cons node nodes)
  obtain r b st1 where g: "qconf_get en st (path @ ''/'' @ sv_str node) buf idc flags = (r, b, st1)" by (metis prod_cases3)
  show ?case
  proof (cases "r = QCONF_OK \<and> en_mem en (length (cstr b) + 1)")
    case False
    then show ?thesis using Cons.prems g by (auto simp: Let_def split: if_splits)
  next
    case True
    have cr: "child_read en path idc flags (node, Some (cstr b))" using g True by (auto simp: child_read_def)
    have "batch_loop en st1 path idc flags nodes b (acc @ [(node, Some (cstr b))]) = (ret, out, st')"
      using Cons.prems g True by (simp add: Let_def)
    from Cons.IH [OF this] show ?thesis using cr by (auto split: if_splits)
  qed
qed auto

text \<open>
  C24: A batch read is all or nothing: on success there is one pair per child key, in their order, with
  the value read for that child; an error leaves no partial batch.
\<close>

theorem qconf_get_batchnode_whole:
  assumes "qconf_get_batchnode en st path old idc flags = (ret, out, st')"
  shows "(ret = QCONF_OK \<longrightarrow> (\<exists>keys st1. qconf_get_batchnode_keys en st path [] idc flags = (QCONF_OK, keys, st1)
            \<and> map fst out = keys \<and> list_all (child_read en path idc flags) out))
       \<and> (ret \<noteq> QCONF_OK \<longrightarrow> out = [] \<or> out = old)"
proof -
  obtain r keys st1 where k: "qconf_get_batchnode_keys en st path [] idc flags = (r, keys, st1)" by (metis prod_cases3)
  show ?thesis
  proof (cases "path \<noteq> [] \<and> r = QCONF_OK \<and> keys \<noteq> [] \<and> en_mem en (length keys * 16)")
    case True
    then have "batch_loop en st1 path idc flags keys [] [] = (ret, out, st')"
      using assms k by (simp add: qconf_get_batchnode_def)
    from batch_loop_spec [OF this] show ?thesis using k True by (auto split: if_splits)
  next
    case False
    then show ?thesis using assms k by (auto simp: qconf_get_batchnode_def split: if_splits)
  qed
qed

lemma two_stored:
  assumes k: "k1 \<noteq> []" "length k1 < 65536" "length v1 \<le> 40" "k2 \<noteq> []" "length k2 < 65536" "length v2 \<le> 40"
    and ne: "length k1 \<noteq> length k2"
  obtains t where "hash_tbl_get (\<lambda>_. True) (Some t) k1 [] = (QCONF_OK, v1)" "hash_tbl_get (\<lambda>_. True) (Some t) k2 [] = (QCONF_OK, v2)"
proof -
  let ?e = "empty_tbl 4"
  have e: "tbl_map (slots ?e) = Map.empty" "maxslots ?e = 4" using empty_table(2) [of 4] by (simp_all add: maxslots_def)
  have ok: "set_ok ?e new_LRU k1 v1" using k by (intro set_ok_empty) simp_all
  obtain t l where t: "tbl_inv t" "lru_inv l" "maxslots t = 4" "tbl_map (slots t) = [store_id 4 k1 \<mapsto> frame v1]"
    by (rule set_room [OF ok, of "\<lambda>_. True"]) (use e nblocks_small [OF k(3)] in simp_all)
  have u: "usedslots t = 1" using usedslots_map [OF t(1)] t(4) nblocks_small [OF k(3)] by (simp add: weight_insert)
  have d: "store_id 4 k1 \<noteq> store_id 4 k2" using ne by (simp add: store_id_def kid_def)
  obtain t' where s: "tbl_inv t'" "maxslots t' = 4" "tbl_map (slots t') = [store_id 4 k1 \<mapsto> frame v1, store_id 4 k2 \<mapsto> frame v2]"
    "hash_tbl_get (\<lambda>_. True) (Some t') k2 [] = (QCONF_OK, v2)"
    by (rule set_second [OF t(1-3) u t(4) d k(4-6)])
  have "hash_tbl_get (\<lambda>_. True) (Some t') k1 [] = (QCONF_OK, v1)"
    using hash_tbl_get_map [OF s(1), of "\<lambda>_. True" k1 "[]"] s(2,3) d k(1,3) verify_frame [of v1 "[]"] by simp
  then show thesis using that s(4) by blast
qed

theorem qconf_get_batchnode_whole_witness:
  "\<exists>t out st'. qconf_get_batchnode (still_env t) attached ''/p'' [] ''i'' QCONF_WAIT = (QCONF_OK, out, st')
    \<and> map fst out = [Some ''c''] \<and> list_all (child_read (still_env t) ''/p'' ''i'' QCONF_WAIT) out"
proof -
  define key where "key = snd (serialize_to_tblkey QCONF_DATA_TYPE_BATCH_NODE ''i'' ''/p'')"
  define val where "val = snd (batchnodeval_to_tblval key [Some ''c''])"
  define ckey where "ckey = node_key ''i'' ''/p/c''"
  define cval where "cval = snd (nodeval_to_tblval ckey ''v'')"
  have k: "length key = 7" "key \<noteq> []" "serialize_to_tblkey QCONF_DATA_TYPE_BATCH_NODE ''i'' ''/p'' = (QCONF_OK, key)"
    by (simp_all add: key_def serialize_to_tblkey_def Let_def qconf_append_path_def qconf_append_idc_def qconf_string_append_def)
  have c: "length ckey = 9" "ckey \<noteq> []" "serialize_to_tblkey QCONF_DATA_TYPE_NODE ''i'' ''/p/c'' = (QCONF_OK, ckey)"
    unfolding ckey_def by (simp add: node_key_ok(3), rule node_key_ok(2), rule node_key_ok(1))
  have v: "val = qconf_encode_num 2 (length [''c'']) @ concat (map entry_bytes [''c'']) @ key"
    using batchnodeval_bytes [of "[Some ''c'']" key] by (simp add: val_def sv_cut_id NUL_def)
  have l: "length val \<le> 40" "length cval \<le> 40"
    using k(1) c(1) by (simp_all add: v cval_def entry_bytes_def nodeval_to_tblval_def qconf_append_nodeval_def qconf_string_append_def Let_def)
  obtain t where t: "hash_tbl_get (\<lambda>_. True) (Some t) key [] = (QCONF_OK, val)" "hash_tbl_get (\<lambda>_. True) (Some t) ckey [] = (QCONF_OK, cval)"
    by (rule two_stored [of key val ckey cval]) (use k c l in simp_all)
  have st: "ready s \<Longrightarrow> qconf_get_raw (still_env t) s ''/p'' [] QCONF_DATA_TYPE_BATCH_NODE ''i'' QCONF_WAIT = (QCONF_OK, val, s\<lparr>d_reads := d_reads s + 1\<rparr>)"
    "ready s \<Longrightarrow> qconf_get_raw (still_env t) s ''/p/c'' [] QCONF_DATA_TYPE_NODE ''i'' QCONF_WAIT = (QCONF_OK, cval, s\<lparr>d_reads := d_reads s + 1\<rparr>)" for s
    using qconf_get_raw_found [OF _ _ k(3), of s "still_env t" val] qconf_get_raw_found [OF _ _ c(3), of s "still_env t" cval] t
    by (simp_all add: holds_at_def)
  have b: "tblval_to_batchnodeval (\<lambda>_. True) val [] = (QCONF_OK, [Some ''c''])"
    unfolding tblval_to_batchnodeval_def
    by (rule vector_typed_path [of _ _ _ _ "[]" "[]" _ "''i''" "''/p''"]) (use tblval_to_vectorval_entries(1) [of "[''c'']" "\<lambda>_. True" "''i''" "''/p''" QCONF_DATA_TYPE_BATCH_NODE key val "([], [], [])"] k(3) v in \<open>simp add: NUL_def\<close>)
  have d: "tblval_to_nodeval cval old = (QCONF_OK, ''v'')" for old
    using nodeval_rt [of "''i''" "''/p/c''" "''v''" "([], [], [])" old] by (simp add: cval_def ckey_def Let_def)
  have "\<exists>out st'. qconf_get_batchnode (still_env t) attached ''/p'' [] ''i'' QCONF_WAIT = (QCONF_OK, out, st')"
    using st b d by (simp add: qconf_get_batchnode_def qconf_get_batchnode_keys_def qconf_get_def sv_str_def cstr_def NUL_def)
  then obtain out st' where r: "qconf_get_batchnode (still_env t) attached ''/p'' [] ''i'' QCONF_WAIT = (QCONF_OK, out, st')" by blast
  have kk: "qconf_get_batchnode_keys (still_env t) attached ''/p'' [] ''i'' QCONF_WAIT = (QCONF_OK, [Some ''c''], attached\<lparr>d_reads := d_reads attached + 1\<rparr>)"
    using st(1) [of attached] b by (simp add: qconf_get_batchnode_keys_def)
  have "map fst out = [Some ''c'']" "list_all (child_read (still_env t) ''/p'' ''i'' QCONF_WAIT) out"
    using qconf_get_batchnode_whole [OF r] kk by auto
  with r show ?thesis by (intro exI conjI)
qed

end
