(* ===== verification/QDump.thy ===== *)
theory QDump
  imports QShmThms
begin

text \<open>
  The dump of the table on disk: \<open>src/agent/qconf_dump.cc\<close>.

  The database library is a parameter: a record of its calls on an open database, whose contents are
  a map.  \<open>gdbm_laws\<close> is what its documentation promises of them.  The functions that read and write
  take the open database, which the source asserts (\<open>assert(NULL != _qconf_dbf)\<close>).
\<close>

type_synonym dbf = "string \<rightharpoonup> string"

record gdbm =
  gdbm_open :: "string \<Rightarrow> int \<Rightarrow> dbf option"
  gdbm_setopt :: "dbf \<Rightarrow> int"
  gdbm_fetch :: "dbf \<Rightarrow> string \<Rightarrow> string option"
  gdbm_store :: "dbf \<Rightarrow> string \<Rightarrow> string \<Rightarrow> int \<times> dbf"
  gdbm_delete :: "dbf \<Rightarrow> string \<Rightarrow> int \<times> int \<times> dbf"

abbreviation (input) GDBM_WRCREAT :: int where "GDBM_WRCREAT \<equiv> 2"
abbreviation (input) GDBM_NEWDB :: int where "GDBM_NEWDB \<equiv> 3"
abbreviation (input) GDBM_ITEM_NOT_FOUND :: int where "GDBM_ITEM_NOT_FOUND \<equiv> 15"
abbreviation (input) QCONF_ERR_DEL_DUMP :: int where "QCONF_ERR_DEL_DUMP \<equiv> 52"

text \<open>Fetch reads the contents; store and delete report 0 exactly when they changed them; a new database is empty.\<close>

definition gdbm_laws :: "gdbm \<Rightarrow> bool" where
  "gdbm_laws g \<longleftrightarrow>
     (\<forall>db k. gdbm_fetch g db k = db k)
   \<and> (\<forall>db k v rc db'. gdbm_store g db k v = (rc, db') \<longrightarrow> db' = (if rc = 0 then db(k \<mapsto> v) else db))
   \<and> (\<forall>db k rc e db'. gdbm_delete g db k = (rc, e, db') \<longrightarrow>
        db' = (if rc = 0 then db(k := None) else db) \<and> (rc \<noteq> 0 \<and> e = GDBM_ITEM_NOT_FOUND \<longrightarrow> db k = None))
   \<and> (\<forall>f db. gdbm_open g f GDBM_NEWDB = Some db \<longrightarrow> db = Map.empty)"

definition qconf_init_dbf_flags :: "gdbm \<Rightarrow> string \<Rightarrow> int \<Rightarrow> int \<times> dbf option" where
  "qconf_init_dbf_flags g dump_file flags =
     (if dump_file = [] then (QCONF_ERR_OPEN_DUMP, None)
      else (case gdbm_open g dump_file flags of
              None \<Rightarrow> (QCONF_ERR_OPEN_DUMP, None)
            | Some db \<Rightarrow> if gdbm_setopt g db \<noteq> 0 then (QCONF_ERR_OPEN_DUMP, Some db) else (QCONF_OK, Some db)))"

definition qconf_init_dbf :: "gdbm \<Rightarrow> string \<Rightarrow> int \<times> dbf option" where
  "qconf_init_dbf g dump_file = qconf_init_dbf_flags g dump_file GDBM_WRCREAT"

text \<open>\<open>access\<close> and \<open>mkdir\<close> of the directory are parameters; the result carries the name of the file.\<close>

definition qconf_init_dump_file ::
  "(string \<Rightarrow> bool) \<Rightarrow> (string \<Rightarrow> bool) \<Rightarrow> gdbm \<Rightarrow> string \<Rightarrow> dbf option \<Rightarrow> int \<times> string \<times> dbf option" where
  "qconf_init_dump_file access mkdir g agent_dir dbf =
     (let dir = agent_dir @ ''/dumps'' in
      if \<not> access dir \<and> \<not> mkdir dir then (QCONF_ERR_MKDIR, dir, dbf)
      else
        (let dump_file = dir @ ''/_dump.gdbm'' in
         case qconf_init_dbf g dump_file of (ret, dbf') \<Rightarrow> (ret, dump_file, dbf')))"

definition qconf_destroy_dbf :: "dbf option \<Rightarrow> dbf option" where
  "qconf_destroy_dbf dbf = None"

definition qconf_dump_get :: "gdbm \<Rightarrow> dbf \<Rightarrow> string \<Rightarrow> string \<Rightarrow> int \<times> string" where
  "qconf_dump_get g db tblkey tblval =
     (if tblkey = [] then (QCONF_ERR_PARAM, tblval)
      else (case gdbm_fetch g db tblkey of None \<Rightarrow> (QCONF_ERR_NOT_FOUND, tblval) | Some v \<Rightarrow> (QCONF_OK, v)))"

definition qconf_dump_set :: "gdbm \<Rightarrow> dbf \<Rightarrow> string \<Rightarrow> string \<Rightarrow> int \<times> dbf" where
  "qconf_dump_set g db tblkey tblval =
     (if tblkey = [] then (QCONF_ERR_PARAM, db)
      else (case gdbm_store g db tblkey tblval of (rc, db') \<Rightarrow>
              (if rc \<noteq> 0 then QCONF_ERR_WRITE_DUMP else QCONF_OK, db')))"

definition qconf_dump_delete :: "gdbm \<Rightarrow> dbf \<Rightarrow> string \<Rightarrow> int \<times> dbf" where
  "qconf_dump_delete g db tblkey =
     (if tblkey = [] then (QCONF_ERR_PARAM, db)
      else (case gdbm_delete g db tblkey of (rc, gdbm_errno, db') \<Rightarrow>
              (if rc \<noteq> 0 \<and> gdbm_errno \<noteq> GDBM_ITEM_NOT_FOUND then QCONF_ERR_DEL_DUMP else QCONF_OK, db')))"

definition qconf_dump_clear :: "gdbm \<Rightarrow> string \<Rightarrow> dbf option \<Rightarrow> int \<times> dbf option" where
  "qconf_dump_clear g dump_file dbf = qconf_init_dbf_flags g dump_file GDBM_NEWDB"

text \<open>The loop of \<open>qconf_dump_tbl\<close>; \<open>ret\<close> is the code of the last round.\<close>

function dump_loop ::
  "gdbm \<Rightarrow> (nat \<Rightarrow> bool) \<Rightarrow> qhasharr_s \<Rightarrow> nat \<Rightarrow> nat \<Rightarrow> string \<Rightarrow> string \<Rightarrow> int \<Rightarrow> dbf \<Rightarrow> int \<times> dbf" where
  "dump_loop g mem t max_slots idx tblkey tblval ret db =
     (if idx < max_slots then
        (case hash_tbl_getnext mem (Some t) tblkey tblval idx of (ret1, tblkey', tblval', idx') \<Rightarrow>
           if ret1 = QCONF_OK then
             (case qconf_dump_set g db tblkey' tblval' of (ret2, db') \<Rightarrow>
                if ret2 \<noteq> QCONF_OK then (ret2, db') else dump_loop g mem t max_slots idx' tblkey' tblval' ret2 db')
           else if ret1 = QCONF_ERR_TBL_END then dump_loop g mem t max_slots idx' tblkey' tblval' QCONF_OK db
           else dump_loop g mem t max_slots idx' tblkey' tblval' ret1 db)
      else (ret, db))"
  by pat_completeness auto
termination
  by (relation "measure (\<lambda>(g, mem, t, max_slots, idx, tblkey, tblval, ret, db). max_slots - idx)")
     (auto dest!: hash_tbl_getnext_mono [OF sym])

declare dump_loop.simps [simp del]

definition qconf_dump_tbl :: "gdbm \<Rightarrow> (nat \<Rightarrow> bool) \<Rightarrow> qhasharr_s option \<Rightarrow> dbf \<Rightarrow> int \<times> dbf" where
  "qconf_dump_tbl g mem tbl db =
     (case tbl of None \<Rightarrow> (QCONF_ERR_PARAM, db) | Some t \<Rightarrow> dump_loop g mem t (maxslots t) 0 [] [] QCONF_OK db)"

section \<open>Laws\<close>

lemma dump_set_ok:
  assumes "gdbm_laws g" "qconf_dump_set g db k v = (ret, db')"
  shows "db' = (if ret = QCONF_OK then db(k \<mapsto> v) else db)"
proof -
  obtain rc d where d: "gdbm_store g db k v = (rc, d)" by fastforce
  then have "d = (if rc = 0 then db(k \<mapsto> v) else db)" using assms(1) unfolding gdbm_laws_def by blast
  then show ?thesis using assms(2) d by (auto simp: qconf_dump_set_def split: if_splits)
qed

lemma dump_set_stores:
  assumes "gdbm_laws g" "fst (gdbm_store g db k v) = 0" "k \<noteq> []"
  shows "qconf_dump_set g db k v = (QCONF_OK, db(k \<mapsto> v))"
proof -
  obtain d where d: "gdbm_store g db k v = (0, d)" using assms(2) by (metis prod.collapse)
  then have "d = (if 0 = (0 :: int) then db(k \<mapsto> v) else db)" using assms(1) unfolding gdbm_laws_def by blast
  then show ?thesis using d assms(3) by (simp add: qconf_dump_set_def)
qed

lemma dump_delete_ok:
  assumes "gdbm_laws g" "qconf_dump_delete g db k = (ret, db')"
  shows "db' = (if ret = QCONF_OK then db(k := None) else db)"
proof (cases "k = []")
  case True
  then show ?thesis using assms(2) by (simp add: qconf_dump_delete_def)
next
  case False
  obtain rc e d where d: "gdbm_delete g db k = (rc, e, d)" by (metis prod_cases3)
  have l: "d = (if rc = 0 then db(k := None) else db)" "rc \<noteq> 0 \<Longrightarrow> e = GDBM_ITEM_NOT_FOUND \<Longrightarrow> db k = None"
    using assms(1) d unfolding gdbm_laws_def by blast+
  have "ret = (if rc \<noteq> 0 \<and> e \<noteq> GDBM_ITEM_NOT_FOUND then QCONF_ERR_DEL_DUMP else QCONF_OK)" "db' = d"
    using assms(2) False d by (simp_all add: qconf_dump_delete_def)
  then show ?thesis using l by (auto simp: fun_upd_idem)
qed

lemma dump_get_map:
  "gdbm_laws g \<Longrightarrow> k \<noteq> [] \<Longrightarrow>
    qconf_dump_get g db k old = (case db k of None \<Rightarrow> (QCONF_ERR_NOT_FOUND, old) | Some v \<Rightarrow> (QCONF_OK, v))"
  by (simp add: qconf_dump_get_def gdbm_laws_def)

section \<open>Dumping the table\<close>

lemma carries_nonempty: "carries mem m x v key path \<Longrightarrow> key \<noteq> []"
  by (auto simp: carries_def dest: serialize_type)

lemma frame_inject:
  assumes "frame u = frame v" "length u < 2 ^ 32" "length v < 2 ^ 32"
  shows "u = v"
  using verify_frame [OF assms(2), of "[]"] verify_frame [OF assms(3), of "[]"] assms(1) by simp

lemma heads_distinct:
  assumes "tbl_inv t" "head (slots t) i" "head (slots t) j"
    and "(s_hash (slots t ! i), slot_kid (slots t ! i)) = (s_hash (slots t ! j), slot_kid (slots t ! j))"
  shows "i = j"
proof -
  have "entry (slots t) (s_hash (slots t ! j)) (slot_kid (slots t ! j)) i"
    "entry (slots t) (s_hash (slots t ! j)) (slot_kid (slots t ! j)) j"
    using assms by (simp_all add: entry_def)
  then show ?thesis using keys_okD assms(1) unfolding tbl_inv_def by blast
qed

lemma dump_loop_fold:
  assumes inv: "tbl_inv t" and mem: "\<forall>n. mem n" and g: "gdbm_laws g" "\<forall>db k v. fst (gdbm_store g db k v) = 0"
    and K: "\<And>i. head (slots t) i \<Longrightarrow> self_described mem t i (K i) (P i)"
    and V: "\<And>i. head (slots t) i \<Longrightarrow> value_of (slots t) i = frame (V i) \<and> length (V i) < 2 ^ 32"
  shows "dump_loop g mem t (maxslots t) idx k0 v0 QCONF_OK db =
      (QCONF_OK, fold (\<lambda>i db. db(K i \<mapsto> V i)) (filter (head (slots t)) [idx..<maxslots t]) db)"
proof (induction "maxslots t - idx" arbitrary: idx k0 v0 db rule: less_induct)
  case less
  show ?case
  proof (cases "find (head (slots t)) [idx..<maxslots t]")
    case None
    then have f: "filter (head (slots t)) [idx..<maxslots t] = []"
      by (auto simp: find_None_iff filter_empty_conv)
    show ?thesis
    proof (cases "idx < maxslots t")
      case True
      then have "hash_tbl_getnext mem (Some t) k0 v0 idx = (QCONF_ERR_TBL_END, k0, v0, maxslots t + 1)"
        using getnext_spec [OF inv, of mem idx] mem None by (simp add: hash_tbl_getnext_def)
      then show ?thesis using True f
        by (subst dump_loop.simps) (simp, subst dump_loop.simps, simp)
    next
      case False
      then show ?thesis by (subst dump_loop.simps) simp
    qed
  next
    case (Some i)
    note fu = filter_upt_found [OF Some, of "head (slots t)"]
    have i: "idx \<le> i" "i < maxslots t" "head (slots t) i" using fu find_SomeD [OF Some] by auto
    obtain val where n: "hash_tbl_getnext mem (Some t) k0 v0 idx = (QCONF_OK, K i, val, i + 1)"
      and val: "value_of (slots t) i = frame val" "length val < 2 ^ 32"
      using getnext_found(1) [OF inv mem Some K [OF i(3)]] by blast
    have v: "val = V i" using val V [OF i(3)] by (metis frame_inject)
    have "qconf_dump_set g db (K i) (V i) = (QCONF_OK, db(K i \<mapsto> V i))"
      using g carries_nonempty [OF K [OF i(3)]] by (intro dump_set_stores) auto
    then have "dump_loop g mem t (maxslots t) idx k0 v0 QCONF_OK db =
        dump_loop g mem t (maxslots t) (i + 1) (K i) (V i) QCONF_OK (db(K i \<mapsto> V i))"
      using i n v by (subst dump_loop.simps) simp
    also have "\<dots> = (QCONF_OK, fold (\<lambda>i db. db(K i \<mapsto> V i)) (filter (head (slots t)) [i + 1..<maxslots t]) (db(K i \<mapsto> V i)))"
      using i by (intro less) simp
    finally show ?thesis using fu i by simp
  qed
qed

lemma fold_upd_other: "x \<notin> K ` set is \<Longrightarrow> fold (\<lambda>i db. db(K i \<mapsto> V i)) is db x = db x"
  by (induction "is" arbitrary: db) auto

lemma fold_upd_in: "i \<in> set is \<Longrightarrow> inj_on K (set is) \<Longrightarrow> fold (\<lambda>i db. db(K i \<mapsto> V i)) is db (K i) = Some (V i)"
proof (induction "is" arbitrary: db)
  case (Cons j js)
  show ?case
  proof (cases "i \<in> set js")
    case True
    then show ?thesis using Cons.IH [OF True] Cons.prems(2) by simp
  next
    case False
    then have "i = j" using Cons.prems(1) by simp
    moreover have "K j \<notin> K ` set js" using False \<open>i = j\<close> Cons.prems(2) by (auto simp: inj_on_def)
    ultimately show ?thesis using fold_upd_other [of "K j" K js V "db(K j \<mapsto> V j)"] by (simp del: fun_upd_apply) simp
  qed
qed simp

lemma described_heads:
  assumes "tbl_inv t" and "\<forall>x v. tbl_map (slots t) x = Some v \<longrightarrow> (\<exists>key path. carries mem (maxslots t) x v key path)"
  obtains K P V where "\<And>i. head (slots t) i \<Longrightarrow> self_described mem t i (K i) (P i)"
    and "\<And>i. head (slots t) i \<Longrightarrow> value_of (slots t) i = frame (V i) \<and> length (V i) < 2 ^ 32"
proof -
  let ?ok = "\<lambda>i kpv. head (slots t) i \<longrightarrow> self_described mem t i (fst kpv) (fst (snd kpv))
    \<and> value_of (slots t) i = frame (snd (snd kpv)) \<and> length (snd (snd kpv)) < 2 ^ 32"
  have "\<exists>kpv. ?ok i kpv" for i
  proof (cases "head (slots t) i")
    case True
    obtain key path where kp: "self_described mem t i key path" using assms(2) head_view [OF assms(1) True] by blast
    then obtain val where "value_of (slots t) i = frame val" "length val < 2 ^ 32" unfolding carries_def by blast
    then show ?thesis using kp by (intro exI [of _ "(key, path, val)"]) simp
  qed simp
  then obtain F where F: "\<And>i. ?ok i (F i)" by metis
  show ?thesis by (rule that [of "\<lambda>i. fst (F i)" "\<lambda>i. fst (snd (F i))" "\<lambda>i. snd (snd (F i))"]) (use F in blast)+
qed

lemma described_keys_distinct:
  assumes "tbl_inv t" and "\<And>i. head (slots t) i \<Longrightarrow> self_described mem t i (K i) (P i)"
  shows "inj_on K {i. head (slots t) i}"
proof (rule inj_onI)
  fix i j assume "i \<in> {i. head (slots t) i}" "j \<in> {i. head (slots t) i}" and k: "K i = K j"
  then have h: "head (slots t) i" "head (slots t) j" by simp_all
  have "(s_hash (slots t ! i), slot_kid (slots t ! i)) = (s_hash (slots t ! j), slot_kid (slots t ! j))"
    using assms(2) [OF h(1)] assms(2) [OF h(2)] k unfolding carries_def by metis
  then show "i = j" using heads_distinct [OF assms(1) h] by blast
qed

text \<open>
  C35: Dumping the shared table: when every value carries its key and the database accepts every
  store, \<open>qconf_dump_tbl\<close> succeeds, afterwards \<open>qconf_dump_get\<close> returns the value of every entry
  under the full key that the value carries, and the keys of no entry keep what the dump held.
\<close>

theorem qconf_dump_tbl_complete:
  assumes "tbl_inv t" and "\<forall>n. mem n" and "gdbm_laws g" and "\<forall>db k v. fst (gdbm_store g db k v) = 0"
    and "\<forall>x v. tbl_map (slots t) x = Some v \<longrightarrow> (\<exists>key path. carries mem (maxslots t) x v key path)"
  shows "\<exists>db'. qconf_dump_tbl g mem (Some t) db = (QCONF_OK, db')
    \<and> (\<forall>x v. tbl_map (slots t) x = Some v \<longrightarrow>
          (\<exists>key path val. carries mem (maxslots t) x v key path \<and> v = frame val \<and> qconf_dump_get g db' key old = (QCONF_OK, val)))
    \<and> (\<forall>k. tbl_map (slots t) (store_id (maxslots t) k) = None \<longrightarrow> db' k = db k)"
proof -
  obtain K P V where K: "\<And>i. head (slots t) i \<Longrightarrow> self_described mem t i (K i) (P i)"
    and V: "\<And>i. head (slots t) i \<Longrightarrow> value_of (slots t) i = frame (V i) \<and> length (V i) < 2 ^ 32"
    using described_heads [OF assms(1,5)] by blast
  define js where "js = filter (head (slots t)) [0..<maxslots t]"
  define db' where "db' = fold (\<lambda>i db. db(K i \<mapsto> V i)) js db"
  have js: "set js = {i. head (slots t) i}" by (auto simp: js_def head_def maxslots_def)
  have run: "qconf_dump_tbl g mem (Some t) db = (QCONF_OK, db')"
    using dump_loop_fold [OF assms(1-4) K V, of 0 "[]" "[]" db] by (simp add: qconf_dump_tbl_def js_def db'_def)
  have sid: "(s_hash (slots t ! i), slot_kid (slots t ! i)) = store_id (maxslots t) (K i)" if h: "head (slots t) i" for i
    using K [OF h] unfolding carries_def by blast
  have "inj_on K (set js)" unfolding js by (rule described_keys_distinct [OF assms(1) K])
  note held = fold_upd_in [OF _ this]
  have "\<exists>key path val. carries mem (maxslots t) x v key path \<and> v = frame val \<and> qconf_dump_get g db' key old = (QCONF_OK, val)"
    if v: "tbl_map (slots t) x = Some v" for x v
  proof -
    obtain i where i: "head (slots t) i" "x = (s_hash (slots t ! i), slot_kid (slots t ! i))" "v = value_of (slots t) i"
      using view_head [OF assms(1) v] by blast
    have "db' (K i) = Some (V i)" using held [of i V db] i(1) by (simp add: js db'_def)
    then have "qconf_dump_get g db' (K i) old = (QCONF_OK, V i)"
      using dump_get_map [OF assms(3) carries_nonempty [OF K [OF i(1)]]] by simp
    then show ?thesis using K [OF i(1)] V [OF i(1)] unfolding i(2,3) by blast
  qed
  moreover have "db' k = db k" if k: "tbl_map (slots t) (store_id (maxslots t) k) = None" for k
  proof -
    have "K i \<noteq> k" if "i \<in> set js" for i
      using that sid [of i] head_view [OF assms(1), of i] k by (auto simp: js)
    then show ?thesis using fold_upd_other [of k K js V db] by (auto simp: db'_def)
  qed
  ultimately show ?thesis using run by blast
qed

text \<open>A database in memory that never fails satisfies the laws.\<close>

definition mem_gdbm :: gdbm where
  "mem_gdbm = \<lparr>gdbm_open = \<lambda>f flags. Some Map.empty, gdbm_setopt = \<lambda>db. 0, gdbm_fetch = \<lambda>db k. db k,
     gdbm_store = \<lambda>db k v. (0, db(k \<mapsto> v)),
     gdbm_delete = \<lambda>db k. if db k = None then (-1, GDBM_ITEM_NOT_FOUND, db) else (0, 0, db(k := None))\<rparr>"

lemma mem_gdbm_laws: "gdbm_laws mem_gdbm" "fst (gdbm_store mem_gdbm db k v) = 0"
  by (auto simp: gdbm_laws_def mem_gdbm_def split: if_splits)

theorem qconf_dump_tbl_complete_witness:
  "let key = snd (serialize_to_tblkey QCONF_DATA_TYPE_NODE ''i'' ''/p''); val = snd (nodeval_to_tblval key ''v'')
   in \<exists>t l' db'. hash_tbl_set (\<lambda>_. True) (Some (empty_tbl 2)) new_LRU key val = (QCONF_OK, Some t, l')
        \<and> qconf_dump_tbl mem_gdbm (\<lambda>_. True) (Some t) Map.empty = (QCONF_OK, db')"
proof -
  define key where "key = snd (serialize_to_tblkey QCONF_DATA_TYPE_NODE ''i'' ''/p'')"
  define val where "val = snd (nodeval_to_tblval key ''v'')"
  have kl: "length key = 7" "key \<noteq> []"
    by (simp_all add: key_def serialize_to_tblkey_def Let_def qconf_append_path_def qconf_append_idc_def qconf_string_append_def)
  have vl: "length val = 12"
    using kl by (simp add: val_def nodeval_to_tblval_def qconf_append_nodeval_def qconf_string_append_def Let_def)
  obtain t l' where s: "hash_tbl_set (\<lambda>_. True) (Some (empty_tbl 2)) new_LRU key val = (QCONF_OK, Some t, l')"
    using set_empty [of 2 key val "\<lambda>_. True"] nblocks_small [of val] kl vl by auto
  have m: "maxslots (empty_tbl 2) = 2" by (simp add: maxslots_def)
  have sp: "tbl_inv t \<and> maxslots t = 2 \<and> tbl_map (slots t) (store_id 2 key) = Some (frame val)
      \<and> (\<forall>i. i \<noteq> store_id 2 key \<longrightarrow> tbl_map (slots t) i = None)"
    using hash_tbl_set_spec [OF set_ok_empty s] kl vl empty_table(2) [of 2] unfolding m
    by (auto simp del: split_paired_All)
  have c: "carries (\<lambda>_. True) 2 (store_id 2 key) (frame val) key ''/p''"
    unfolding val_def using vl by (intro node_carries) (simp_all add: key_def val_def)
  have "\<forall>x v. tbl_map (slots t) x = Some v \<longrightarrow> (\<exists>key path. carries (\<lambda>_. True) (maxslots t) x v key path)"
    using sp c by (metis option.inject option.distinct(1))
  then have "\<exists>db'. qconf_dump_tbl mem_gdbm (\<lambda>_. True) (Some t) Map.empty = (QCONF_OK, db')"
    using qconf_dump_tbl_complete [of t "\<lambda>_. True" mem_gdbm Map.empty "[]"] sp mem_gdbm_laws by blast
  then show ?thesis using s by (auto simp: Let_def key_def val_def)
qed

end
