(* ===== verification/QConfig.thy ===== *)
theory QConfig
  imports QCommon
begin

text \<open>
  Configuration of the agent: \<open>src/agent/qconf_config.cc\<close>, with the parts of the C library that it reads
  numbers and lines with (\<open>strtol\<close> with base 0, \<open>fgets\<close>, \<open>std::getline\<close>).

  A file is the string of its bytes or missing; name resolution (\<open>gethostbyname\<close> and \<open>inet_ntop\<close>) is a
  parameter.
\<close>

section \<open>Numbers as text\<close>

definition digit_char :: "nat \<Rightarrow> char" where
  "digit_char d = char_of (48 + d)"

fun show_nat :: "nat \<Rightarrow> string" where
  "show_nat n = (if n < 10 then [digit_char n] else show_nat (n div 10) @ [digit_char (n mod 10)])"

declare show_nat.simps [simp del]

definition is_space :: "char \<Rightarrow> bool" where
  "is_space c \<longleftrightarrow> c = CHR '' '' \<or> (9 \<le> (of_char c :: nat) \<and> (of_char c :: nat) \<le> 13)"

text \<open>The value of a digit in bases up to 36.\<close>

definition digit_val :: "char \<Rightarrow> nat option" where
  "digit_val c =
     (let n = of_char c in
      if 48 \<le> n \<and> n \<le> 57 then Some (n - 48)
      else if 97 \<le> n \<and> n \<le> 122 then Some (n - 87)
      else if 65 \<le> n \<and> n \<le> 90 then Some (n - 55)
      else None)"

definition is_digit_of :: "nat \<Rightarrow> char \<Rightarrow> bool" where
  "is_digit_of base c = (case digit_val c of None \<Rightarrow> False | Some d \<Rightarrow> d < base)"

definition digits_value :: "nat \<Rightarrow> string \<Rightarrow> nat" where
  "digits_value base s = foldl (\<lambda>a c. a * base + the (digit_val c)) 0 s"

abbreviation (input) LONG_MAX :: int where "LONG_MAX \<equiv> 9223372036854775807"
abbreviation (input) LONG_MIN :: int where "LONG_MIN \<equiv> -9223372036854775808"

text \<open>
  \<open>strtol(s, &end, 0)\<close> on a C string: the value (clamped to \<open>long\<close>), whether \<open>errno\<close> is \<open>ERANGE\<close>, and the
  text at \<open>end\<close>, which is \<open>s\<close> itself when no digit was read.
\<close>

definition strtol0 :: "string \<Rightarrow> int \<times> bool \<times> string" where
  "strtol0 s =
     (let s1 = dropWhile is_space s;
          neg = (s1 \<noteq> [] \<and> hd s1 = CHR ''-'');
          s2 = (if s1 \<noteq> [] \<and> (hd s1 = CHR ''-'' \<or> hd s1 = CHR ''+'') then tl s1 else s1);
          hex = (length s2 \<ge> 3 \<and> s2 ! 0 = CHR ''0'' \<and> (s2 ! 1 = CHR ''x'' \<or> s2 ! 1 = CHR ''X'')
                 \<and> is_digit_of 16 (s2 ! 2));
          base = (if hex then 16 else if s2 \<noteq> [] \<and> hd s2 = CHR ''0'' then 8 else 10);
          s3 = (if hex then drop 2 s2 else s2);
          ds = takeWhile (is_digit_of base) s3;
          v = (if neg then - int (digits_value base ds) else int (digits_value base ds))
      in if ds = [] then (0, False, s)
         else if v > LONG_MAX then (LONG_MAX, True, drop (length ds) s3)
         else if v < LONG_MIN then (LONG_MIN, True, drop (length ds) s3)
         else (v, False, drop (length ds) s3))"

text \<open>\<open>get_integer\<close>; \<open>cnt == endptr\<close> compares the contents of the string with the rest of the text.\<close>

definition get_integer :: "string \<Rightarrow> int \<Rightarrow> int \<times> int" where
  "get_integer cnt integer =
     (if cnt = [] then (QCONF_ERR_PARAM, integer)
      else
        (case strtol0 (cstr cnt) of (val, erange, endptr) \<Rightarrow>
           if (val = LONG_MAX \<or> val = LONG_MIN) \<and> erange then (QCONF_ERR_OUT_OF_RANGE, integer)
           else if cnt = endptr then (QCONF_ERR_NOT_NUMBER, integer)
           else if endptr \<noteq> [] then (QCONF_ERR_OTHRE_CHARACTER, integer)
           else (QCONF_OK, val)))"

section \<open>Lines and fields\<close>

definition strtrim :: "string \<Rightarrow> string" where
  "strtrim cnt = rev (dropWhile (\<lambda>c. c = CHR '' '') (rev (dropWhile (\<lambda>c. c = CHR '' '') cnt)))"

text \<open>
  The extended regular expression of \<open>is_ip_port\<close>: three groups of one to three digits followed by a
  dot, a fourth followed by a colon, and one to five digits up to the end.
\<close>

abbreviation is_dec :: "char \<Rightarrow> bool" where "is_dec \<equiv> is_digit_of 10"

definition match_group :: "nat \<Rightarrow> char \<Rightarrow> string \<Rightarrow> string option" where
  "match_group n stop s =
     (let ds = takeWhile is_dec s; rest = dropWhile is_dec s
      in if 1 \<le> length ds \<and> length ds \<le> n \<and> rest \<noteq> [] \<and> hd rest = stop then Some (tl rest) else None)"

definition is_ip_port :: "string \<Rightarrow> int" where
  "is_ip_port item =
     (if item = [] then QCONF_ERR_PARAM
      else
        (case Option.bind (match_group 3 (CHR ''.'') (cstr item)) (\<lambda>r1.
              Option.bind (match_group 3 (CHR ''.'') r1) (\<lambda>r2.
              Option.bind (match_group 3 (CHR ''.'') r2) (\<lambda>r3. match_group 3 (CHR '':'') r3))) of
           None \<Rightarrow> QCONF_ERR_OTHER
         | Some p \<Rightarrow> if 1 \<le> length p \<and> length p \<le> 5 \<and> (\<forall>c\<in>set p. is_dec c) then QCONF_OK else QCONF_ERR_OTHER))"

text \<open>\<open>resolve\<close> is \<open>get_first_host_by_name\<close>: the address of a domain, if it has one.\<close>

definition is_domain_port :: "(string \<Rightarrow> string option) \<Rightarrow> string \<Rightarrow> int" where
  "is_domain_port resolve item =
     (if item = [] then QCONF_ERR_PARAM
      else if CHR '':'' \<notin> set item then QCONF_ERR_OTHER
      else
        (let domain = takeWhile (\<lambda>c. c \<noteq> CHR '':'') item;
             port = dropWhile (\<lambda>c. c \<noteq> CHR '':'') item
         in case resolve (cstr domain) of
              None \<Rightarrow> QCONF_ERR_OTHER
            | Some ip_address \<Rightarrow> if is_ip_port (ip_address @ port) \<noteq> QCONF_OK then QCONF_ERR_OTHER else QCONF_OK))"

text \<open>The pieces that repeated \<open>getline(ss, piece, c)\<close> reads: a final delimiter ends the last piece.\<close>

function getline_pieces :: "char \<Rightarrow> string \<Rightarrow> string list" where
  "getline_pieces c s =
     (if s = [] then []
      else
        (let piece = takeWhile (\<lambda>x. x \<noteq> c) s; rest = dropWhile (\<lambda>x. x \<noteq> c) s
         in piece # (if rest = [] then [] else getline_pieces c (tl rest))))"
  by pat_completeness auto
termination
proof (relation "measure (\<lambda>(c, s). length s)", goal_cases)
  case (2 c s piece rest)
  then have "length rest \<le> length s" "rest \<noteq> []" by (auto simp: length_dropWhile_le)
  then have "length (tl rest) < length s" by (cases rest) auto
  then show ?case by simp
qed simp

declare getline_pieces.simps [simp del]

definition is_valid_idc :: "(string \<Rightarrow> string option) \<Rightarrow> string \<Rightarrow> string \<Rightarrow> int" where
  "is_valid_idc resolve idc val =
     (if idc = [] \<or> val = [] then QCONF_ERR_PARAM
      else if \<forall>a\<in>set (getline_pieces (CHR '','') val). is_domain_port resolve a = QCONF_OK \<or> is_ip_port a = QCONF_OK
      then QCONF_OK else QCONF_ERR_INVALID_IP)"

definition is_valid_conf :: "string \<Rightarrow> string \<Rightarrow> int" where
  "is_valid_conf key val = (if key = [] \<or> val = [] then QCONF_ERR_PARAM else QCONF_OK)"

section \<open>The configuration maps\<close>

record conf_maps =
  agent_conf_map :: "string \<rightharpoonup> string"
  idc_conf_map :: "string \<rightharpoonup> string"

text \<open>\<open>std::map::insert\<close> keeps an existing entry.\<close>

definition map_insert :: "'k \<Rightarrow> 'v \<Rightarrow> ('k \<rightharpoonup> 'v) \<Rightarrow> ('k \<rightharpoonup> 'v)" where
  "map_insert k v m = (if m k = None then m(k \<mapsto> v) else m)"

abbreviation (input) QCONF_LINE_MAX_LEN :: nat where "QCONF_LINE_MAX_LEN \<equiv> 1024"
abbreviation (input) QCONF_MAX_BUF_LEN :: nat where "QCONF_MAX_BUF_LEN \<equiv> 2048"
abbreviation (input) NL :: char where "NL \<equiv> CHR 10"

text \<open>What \<open>fgets(line, n, f)\<close> reads: at most \<open>n - 1\<close> bytes, up to and including a newline.\<close>

definition fgets_len :: "nat \<Rightarrow> string \<Rightarrow> nat" where
  "fgets_len n s =
     (let l = length (takeWhile (\<lambda>c. c \<noteq> NL) s)
      in min (n - 1) (if l < length s then l + 1 else l))"

function fgets_lines :: "nat \<Rightarrow> string \<Rightarrow> string list" where
  "fgets_lines n s =
     (if fgets_len n s = 0 then [] else take (fgets_len n s) s # fgets_lines n (drop (fgets_len n s) s))"
  by pat_completeness auto
termination
proof (relation "measure (\<lambda>(n, s). length s)", goal_cases)
  case (2 n s)
  then have "s \<noteq> []" by (auto simp: fgets_len_def)
  with 2 show ?case by auto
qed simp

declare fgets_lines.simps [simp del]

text \<open>One round of the loop of \<open>load_conf_\<close>: \<open>line\<close> is the buffer after \<open>fgets\<close>, read as a C string.\<close>

definition load_conf_line :: "(string \<Rightarrow> string option) \<Rightarrow> string \<Rightarrow> conf_maps \<Rightarrow> conf_maps" where
  "load_conf_line resolve buf m =
     (let s = cstr buf in
      if s = [] \<or> hd s = CHR ''#'' \<or> hd s = NL then m
      else
        (let line = butlast s in
         if CHR ''='' \<notin> set line then m
         else
           (let key = strtrim (takeWhile (\<lambda>c. c \<noteq> CHR ''='') line);
                val = strtrim (tl (dropWhile (\<lambda>c. c \<noteq> CHR ''='') line))
            in if take 10 key = ''zookeeper.'' then
                 (let idc = drop 10 key in
                  if is_valid_idc resolve idc val \<noteq> QCONF_OK then m
                  else m\<lparr>idc_conf_map := map_insert idc val (idc_conf_map m)\<rparr>)
               else if is_valid_conf key val \<noteq> QCONF_OK then m
               else m\<lparr>agent_conf_map := map_insert key val (agent_conf_map m)\<rparr>)))"

definition load_conf ::
  "(string \<Rightarrow> string option) \<Rightarrow> (string \<Rightarrow> string option) \<Rightarrow> string \<Rightarrow> conf_maps \<Rightarrow> int \<times> conf_maps" where
  "load_conf resolve files conf_path m =
     (if conf_path = [] then (QCONF_ERR_PARAM, m)
      else (case files conf_path of
              None \<Rightarrow> (QCONF_ERR_OPEN, m)
            | Some content \<Rightarrow> (QCONF_OK, fold (load_conf_line resolve) (fgets_lines QCONF_LINE_MAX_LEN content) m)))"

definition load_localidc_conf :: "(string \<Rightarrow> string option) \<Rightarrow> string \<Rightarrow> conf_maps \<Rightarrow> int \<times> conf_maps" where
  "load_localidc_conf files localidc_path m =
     (if localidc_path = [] then (QCONF_ERR_PARAM, m)
      else (case files localidc_path of
              None \<Rightarrow> (QCONF_ERR_OPEN, m)
            | Some content \<Rightarrow>
                (let n = fgets_len QCONF_MAX_BUF_LEN content; idc_buf = cstr (take n content) in
                 if n = 0 then (QCONF_ERR_READ, m)
                 else if idc_buf = [] then (QCONF_ERR_NULL_LOCAL_IDC, m)
                 else
                   (let idc = (if last idc_buf = NL then butlast idc_buf else idc_buf)
                    in (QCONF_OK, m\<lparr>agent_conf_map := map_insert ''local_idc'' idc (agent_conf_map m)\<rparr>)))))"

definition qconf_load_conf ::
  "(string \<Rightarrow> string option) \<Rightarrow> (string \<Rightarrow> string option) \<Rightarrow> string \<Rightarrow> string \<Rightarrow> conf_maps \<Rightarrow> int \<times> conf_maps" where
  "qconf_load_conf resolve files agent_dir localidc m =
     (case load_conf resolve files (agent_dir @ ''/conf/agent.conf'') m of (ret, m1) \<Rightarrow>
        if ret \<noteq> QCONF_OK then (ret, m1)
        else (case load_conf resolve files (agent_dir @ ''/conf/idc.conf'') m1 of (ret, m2) \<Rightarrow>
          if ret \<noteq> QCONF_OK then (ret, m2)
          else if localidc = [] then load_localidc_conf files (agent_dir @ ''/conf/localidc'') m2
          else (QCONF_OK, m2\<lparr>agent_conf_map := map_insert ''local_idc'' localidc (agent_conf_map m2)\<rparr>)))"

definition get_agent_conf :: "conf_maps \<Rightarrow> string \<Rightarrow> string \<Rightarrow> int \<times> string" where
  "get_agent_conf m key val =
     (if key = [] then (QCONF_ERR_PARAM, val)
      else (case agent_conf_map m key of None \<Rightarrow> (QCONF_ERR_NOT_FOUND, val) | Some v \<Rightarrow> (QCONF_OK, v)))"

definition get_idc_conf :: "conf_maps \<Rightarrow> string \<Rightarrow> string \<Rightarrow> int \<times> string" where
  "get_idc_conf m idc val =
     (if idc = [] then (QCONF_ERR_PARAM, val)
      else (case idc_conf_map m idc of None \<Rightarrow> (QCONF_ERR_NOT_FOUND, val) | Some v \<Rightarrow> (QCONF_OK, v)))"

definition qconf_destroy_conf_map :: "conf_maps \<Rightarrow> conf_maps" where
  "qconf_destroy_conf_map m = \<lparr>agent_conf_map = Map.empty, idc_conf_map = Map.empty\<rparr>"

section \<open>Reading numbers\<close>

lemma digit_val_char: "d < 10 \<Longrightarrow> digit_val (digit_char d) = Some d"
proof -
  assume d: "d < 10"
  then have "of_char (digit_char d) = (48 + d :: nat)" by (simp add: digit_char_def)
  then show ?thesis using d by (simp add: digit_val_def Let_def)
qed

lemma digits_value_snoc: "digits_value b (ds @ [c]) = digits_value b ds * b + the (digit_val c)"
  by (simp add: digits_value_def)

lemma show_nat_digits: "digits_value 10 (show_nat n) = n \<and> (\<forall>c\<in>set (show_nat n). is_digit_of 10 c) \<and> show_nat n \<noteq> []"
proof (induction n rule: show_nat.induct)
  case (1 n)
  show ?case
  proof (cases "n < 10")
    case True
    then show ?thesis by (subst (1 2 3) show_nat.simps) (simp add: digits_value_def digit_val_char is_digit_of_def)
  next
    case False
    then have "show_nat n = show_nat (n div 10) @ [digit_char (n mod 10)]" by (subst show_nat.simps) simp
    then show ?thesis using 1 [OF False] by (auto simp: digits_value_snoc digit_val_char is_digit_of_def)
  qed
qed

lemma digit_not_special:
  assumes "is_digit_of 10 c"
  shows "c \<noteq> NUL" "\<not> is_space c" "c \<noteq> CHR ''-''" "c \<noteq> CHR ''+''" "c \<noteq> CHR ''x''" "c \<noteq> CHR ''X''"
  using assms by (auto simp: is_digit_of_def digit_val_def is_space_def NUL_def Let_def split: if_splits)

lemma show_nat_inj: "show_nat m = show_nat n \<Longrightarrow> m = n"
  by (metis show_nat_digits)

lemma show_nat_hd: "0 < n \<Longrightarrow> hd (show_nat n) \<noteq> CHR ''0''"
proof (induction n rule: show_nat.induct)
  case (1 n)
  show ?case
  proof (cases "n < 10")
    case True
    then have "hd (show_nat n) = digit_char n" by (subst show_nat.simps) simp
    moreover have "digit_val (digit_char n) = Some n" "digit_val (CHR ''0'') = Some 0"
      using True by (simp_all add: digit_val_char) (simp add: digit_val_def)
    ultimately show ?thesis using 1(2) by auto
  next
    case False
    then have "hd (show_nat n) = hd (show_nat (n div 10))"
      using show_nat_digits [of "n div 10"] by (subst show_nat.simps) (simp add: hd_append)
    then show ?thesis using 1(1) [OF False] False by simp
  qed
qed

lemma get_integer_show_nat:
  assumes "0 < n" "int n \<le> LONG_MAX"
  shows "get_integer (show_nat n) old = (QCONF_OK, int n)"
proof -
  let ?s = "show_nat n"
  have ds: "digits_value 10 ?s = n" "\<forall>c\<in>set ?s. is_digit_of 10 c" "?s \<noteq> []" using show_nat_digits [of n] by auto
  have h: "hd ?s \<in> set ?s" using ds(3) by simp
  have c: "cstr ?s = ?s" using ds(2) digit_not_special(1) by (intro cstr_id) auto
  have w: "dropWhile is_space ?s = ?s" using ds h digit_not_special(2) by (cases ?s) auto
  have z: "hd ?s \<noteq> CHR ''0''" "hd ?s \<noteq> CHR ''-''" "hd ?s \<noteq> CHR ''+''"
    using show_nat_hd [OF assms(1)] ds(2) h digit_not_special(3,4) by auto
  have "?s ! 0 \<noteq> CHR ''0''" using z(1) ds(3) by (simp add: hd_conv_nth)
  then have "strtol0 ?s = (int n, False, [])"
    using ds w z assms(2) by (simp add: strtol0_def Let_def takeWhile_eq_all_conv [THEN iffD2])
  then show ?thesis using c ds(3) by (simp add: get_integer_def)
qed

section \<open>Reading configuration lines\<close>

definition blank :: "nat \<Rightarrow> string" where "blank n = replicate n (CHR '' '')"

lemma strtrim_blank:
  assumes "strtrim s = s"
  shows "strtrim (blank a @ s @ blank b) = s"
proof -
  have pre: "dropWhile (\<lambda>c. c = CHR '' '') (blank n @ t) = dropWhile (\<lambda>c. c = CHR '' '') t" for n t
    by (induction n) (auto simp: blank_def)
  have rb: "rev (blank b) = blank b" by (simp add: blank_def)
  show ?thesis
  proof (cases "\<forall>c\<in>set s. c = CHR '' ''")
    case True
    then have "s = []" using assms by (simp add: strtrim_def dropWhile_eq_Nil_conv [THEN iffD2])
    then show ?thesis by (auto simp: strtrim_def blank_def dest: set_dropWhileD)
  next
    case False
    then obtain x where "x \<in> set s" "x \<noteq> CHR '' ''" by blast
    then show ?thesis using assms by (simp add: strtrim_def pre dropWhile_append1 rb)
  qed
qed

text \<open>A setting that the syntax of the configuration file can express.\<close>

definition plain_setting :: "string \<Rightarrow> string \<Rightarrow> bool" where
  "plain_setting key val \<longleftrightarrow> key \<noteq> [] \<and> val \<noteq> [] \<and> strtrim key = key \<and> strtrim val = val
     \<and> set key \<inter> {NUL, NL, CHR ''=''} = {} \<and> set val \<inter> {NUL, NL} = {} \<and> hd key \<noteq> CHR ''#''
     \<and> take 10 key \<noteq> ''zookeeper.''"

lemma split_at_char:
  "c \<notin> set p \<Longrightarrow> takeWhile (\<lambda>x. x \<noteq> c) (p @ c # w) = p \<and> dropWhile (\<lambda>x. x \<noteq> c) (p @ c # w) = c # w"
  by (induction p) auto

lemma load_conf_line_body:
  assumes "plain_setting key v" "NUL \<notin> set line" "line \<noteq> []" "hd line \<noteq> CHR ''#''" "hd line \<noteq> NL"
    and "butlast line = blank a @ key @ blank b @ ''='' @ w"
  shows "load_conf_line resolve line m =
    (if strtrim w = [] then m else m\<lparr>agent_conf_map := map_insert key (strtrim w) (agent_conf_map m)\<rparr>)"
proof -
  have k: "CHR ''='' \<notin> set (blank a @ key @ blank b)" "strtrim (blank a @ key @ blank b) = key" "key \<noteq> []" "take 10 key \<noteq> ''zookeeper.''"
    using assms(1) strtrim_blank [of key a b] by (auto simp: plain_setting_def blank_def)
  have tw: "takeWhile (\<lambda>c. c \<noteq> CHR ''='') (butlast line) = blank a @ key @ blank b"
    and dw: "dropWhile (\<lambda>c. c \<noteq> CHR ''='') (butlast line) = CHR ''='' # w"
    using split_at_char [OF k(1), of w] unfolding assms(6) by simp_all
  have "CHR ''='' \<in> set (butlast line)" unfolding assms(6) by simp
  then show ?thesis
    using assms(2-5) k tw dw by (simp add: load_conf_line_def Let_def is_valid_conf_def)
qed

lemma setting_hd:
  assumes "plain_setting key val"
  shows "hd (blank a @ key @ w) \<noteq> CHR ''#''" "hd (blank a @ key @ w) \<noteq> NL"
  using assms by (cases a; cases key; auto simp: plain_setting_def blank_def)+

lemma load_conf_line_setting:
  assumes "plain_setting key val"
  shows "load_conf_line resolve (blank a @ key @ blank b @ ''='' @ blank c @ val @ blank d @ [NL]) m =
    m\<lparr>agent_conf_map := map_insert key val (agent_conf_map m)\<rparr>"
proof -
  have "NUL \<notin> set (blank a @ key @ blank b @ ''='' @ blank c @ val @ blank d @ [NL])"
    using assms by (auto simp: plain_setting_def blank_def NUL_def)
  moreover have "strtrim (blank c @ val @ blank d) = val" "val \<noteq> []"
    using assms strtrim_blank [of val c d] by (auto simp: plain_setting_def)
  ultimately show ?thesis
    using setting_hd [OF assms, of a "blank b @ ''='' @ blank c @ val @ blank d @ [NL]"]
      load_conf_line_body [OF assms, of "blank a @ key @ blank b @ ''='' @ blank c @ val @ blank d @ [NL]" a b "blank c @ val @ blank d"]
    by (simp add: butlast_append)
qed

lemma load_conf_line_cut:
  assumes "plain_setting key val"
  shows "load_conf_line resolve (key @ ''='' @ val) m =
    (if strtrim (butlast val) = [] then m
     else m\<lparr>agent_conf_map := map_insert key (strtrim (butlast val)) (agent_conf_map m)\<rparr>)"
proof -
  have "NUL \<notin> set (key @ ''='' @ val)" "val \<noteq> []" using assms by (auto simp: plain_setting_def NUL_def)
  then show ?thesis
    using setting_hd [OF assms, of 0 "''='' @ val"] load_conf_line_body [OF assms, of "key @ ''='' @ val" 0 0 "butlast val"]
    by (simp add: butlast_append blank_def)
qed

lemma fgets_len_line:
  assumes "NL \<notin> set l" "length l + 1 < n"
  shows "fgets_len n (l @ NL # s) = length l + 1" "fgets_len n l = length l"
proof -
  have tw: "takeWhile (\<lambda>c. c \<noteq> NL) l = l" using assms(1) by (auto simp: takeWhile_eq_all_conv)
  show "fgets_len n l = length l" using assms(2) by (simp add: fgets_len_def tw)
  show "fgets_len n (l @ NL # s) = length l + 1"
    using assms(2) split_at_char [OF assms(1), of s] by (simp add: fgets_len_def)
qed

lemma fgets_lines_Cons:
  assumes "NL \<notin> set l" "length l + 1 < n"
  shows "fgets_lines n (l @ NL # s) = (l @ [NL]) # fgets_lines n s"
  using fgets_len_line(1) [OF assms, of s] by (subst fgets_lines.simps) simp

lemma fgets_lines_last:
  assumes "NL \<notin> set l" "length l + 1 < n" "l \<noteq> []"
  shows "fgets_lines n l = [l]"
proof -
  have "fgets_lines n [] = []" by (subst fgets_lines.simps) (simp add: fgets_len_def)
  then show ?thesis using fgets_len_line(2) [OF assms(1,2)] assms(3) by (subst fgets_lines.simps) simp
qed

definition setting_line :: "string \<times> string \<Rightarrow> string" where
  "setting_line kv = fst kv @ ''='' @ snd kv @ [NL]"

text \<open>
  C33: Every setting of a configuration file whose lines fit the line buffer and end with a newline
  is read; of several settings of a key the first counts.
\<close>

theorem load_conf_settings:
  assumes "path \<noteq> []" and "files path = Some (concat (map setting_line ss))"
    and "\<forall>kv\<in>set ss. plain_setting (fst kv) (snd kv) \<and> length (fst kv) + length (snd kv) < 1022"
  shows "load_conf resolve files path m =
    (QCONF_OK, m\<lparr>agent_conf_map := fold (\<lambda>kv. map_insert (fst kv) (snd kv)) ss (agent_conf_map m)\<rparr>)"
proof -
  have "fold (load_conf_line resolve) (fgets_lines 1024 (concat (map setting_line ss))) m =
      m\<lparr>agent_conf_map := fold (\<lambda>kv. map_insert (fst kv) (snd kv)) ss (agent_conf_map m)\<rparr>"
    using assms(3)
  proof (induction ss arbitrary: m)
    case Nil
    then show ?case by (subst fgets_lines.simps) (simp add: fgets_len_def)
  next
    case (Cons kv ss)
    let ?l = "fst kv @ ''='' @ snd kv"
    have p: "plain_setting (fst kv) (snd kv)" "length (fst kv) + length (snd kv) < 1022" using Cons.prems by auto
    then have "NL \<notin> set ?l" "length ?l + 1 < 1024" by (auto simp: plain_setting_def)
    from fgets_lines_Cons [OF this, of "concat (map setting_line ss)"]
    have "fgets_lines 1024 (concat (map setting_line (kv # ss))) =
        setting_line kv # fgets_lines 1024 (concat (map setting_line ss))" by (simp add: setting_line_def)
    moreover have "load_conf_line resolve (setting_line kv) m =
        m\<lparr>agent_conf_map := map_insert (fst kv) (snd kv) (agent_conf_map m)\<rparr>"
      using load_conf_line_setting [OF p(1), of resolve 0 0 0 0] by (simp add: setting_line_def blank_def)
    ultimately show ?case using Cons by simp
  qed
  then show ?thesis using assms(1,2) by (simp add: load_conf_def)
qed

lemma plain_example: "plain_setting ''log_level'' ''4''"
  by (simp add: plain_setting_def strtrim_def NUL_def)

theorem load_conf_settings_witness:
  "load_conf (\<lambda>_. None) (\<lambda>_. Some (concat (map setting_line [(''log_level'', ''4''), (''log_level'', ''4'')]))) ''f''
      \<lparr>agent_conf_map = Map.empty, idc_conf_map = Map.empty\<rparr>
    = (QCONF_OK, \<lparr>agent_conf_map = [''log_level'' \<mapsto> ''4''], idc_conf_map = Map.empty\<rparr>)"
  using load_conf_settings [of "''f''" "\<lambda>_. Some (concat (map setting_line [(''log_level'', ''4''), (''log_level'', ''4'')]))"
      "[(''log_level'', ''4''), (''log_level'', ''4'')]"] plain_example
  by (simp add: map_insert_def)

text \<open>
  C34: A configuration file of one setting that does not end with a newline loses the last character
  of the value, and the setting is dropped when its value has one character.
\<close>

theorem load_conf_unterminated:
  assumes "path \<noteq> []" and "files path = Some (key @ ''='' @ val)" and "plain_setting key val"
    and "length key + length val < 1022"
  shows "load_conf resolve files path m =
    (QCONF_OK, if strtrim (butlast val) = [] then m
               else m\<lparr>agent_conf_map := map_insert key (strtrim (butlast val)) (agent_conf_map m)\<rparr>)"
proof -
  have "fgets_lines 1024 (key @ ''='' @ val) = [key @ ''='' @ val]"
    using assms(3,4) by (intro fgets_lines_last) (auto simp: plain_setting_def)
  then show ?thesis using assms(1,2) load_conf_line_cut [OF assms(3), of resolve m] by (simp add: load_conf_def)
qed

theorem load_conf_unterminated_witness:
  "load_conf (\<lambda>_. None) (\<lambda>_. Some ''log_level=4'') ''f'' \<lparr>agent_conf_map = Map.empty, idc_conf_map = Map.empty\<rparr>
    = (QCONF_OK, \<lparr>agent_conf_map = Map.empty, idc_conf_map = Map.empty\<rparr>)"
  using load_conf_unterminated [of "''f''" "\<lambda>_. Some ''log_level=4''" "''log_level''" "''4''"] plain_example
  by (simp add: strtrim_def)

end
