(* ===== verification/QZoo.thy ===== *)
theory QZoo
  imports QConfig QFormat "HOL-Library.Multiset"
begin

text \<open>
  Access to ZooKeeper: \<open>src/agent/qconf_zoo.cc\<close>.

  The ZooKeeper client library is a parameter: a record of functions that give the outcome of the
  \<open>n\<close>-th call of the process, so that the server may change between two calls.  Every function returns
  the number of calls made.  Watches have no result and are not represented.
\<close>

type_synonym zhandle = "nat option"

record zk_env =
  zoo_get :: "nat \<Rightarrow> zhandle \<Rightarrow> string \<Rightarrow> int \<times> string option"
  zoo_get_children :: "nat \<Rightarrow> zhandle \<Rightarrow> string \<Rightarrow> int \<times> string_vector_t"
  zoo_exists :: "nat \<Rightarrow> zhandle \<Rightarrow> string \<Rightarrow> int"
  zoo_create :: "nat \<Rightarrow> zhandle \<Rightarrow> string \<Rightarrow> string \<Rightarrow> int \<Rightarrow> int"
  zookeeper_init :: "nat \<Rightarrow> string \<Rightarrow> zhandle"
  zoo_state :: "nat \<Rightarrow> zhandle \<Rightarrow> int"
  zk_node_buf :: bool

abbreviation (input) ZOK :: int where "ZOK \<equiv> 0"
abbreviation (input) ZNONODE :: int where "ZNONODE \<equiv> -101"
abbreviation (input) ZINVALIDSTATE :: int where "ZINVALIDSTATE \<equiv> -9"
abbreviation (input) ZMARSHALLINGERROR :: int where "ZMARSHALLINGERROR \<equiv> -5"
abbreviation (input) ZBADARGUMENTS :: int where "ZBADARGUMENTS \<equiv> -8"
abbreviation (input) ZNODEEXISTS :: int where "ZNODEEXISTS \<equiv> -110"
abbreviation (input) ZNOCHILDRENFOREPHEMERALS :: int where "ZNOCHILDRENFOREPHEMERALS \<equiv> -108"
abbreviation (input) ZOO_EPHEMERAL :: int where "ZOO_EPHEMERAL \<equiv> 1"

text \<open>
  The \<open>for\<close> loop around every call: \<open>verdict\<close> is the \<open>switch\<close> on its result, \<open>None\<close> for \<open>continue\<close>.
\<close>

function zk_retry :: "(nat \<Rightarrow> 'r) \<Rightarrow> ('r \<Rightarrow> int option) \<Rightarrow> nat \<Rightarrow> nat \<Rightarrow> int \<times> 'r option \<times> nat" where
  "zk_retry call verdict n i =
     (if i < QCONF_GET_RETRIES then
        (case verdict (call n) of
           Some c \<Rightarrow> (c, Some (call n), n + 1)
         | None \<Rightarrow> zk_retry call verdict (n + 1) (i + 1))
      else (QCONF_ERR_ZOO_FAILED, None, n))"
  by pat_completeness auto
termination
  by (relation "measure (\<lambda>(call, verdict, n, i). QCONF_GET_RETRIES - i)") auto

declare zk_retry.simps [simp del]

definition read_verdict :: "int \<Rightarrow> int option" where
  "read_verdict ret =
     (if ret = ZOK then Some QCONF_OK
      else if ret = ZNONODE then Some QCONF_NODE_NOT_EXIST
      else if ret = ZINVALIDSTATE \<or> ret = ZMARSHALLINGERROR then None
      else Some QCONF_ERR_ZOO_FAILED)"

definition create_verdict :: "int \<Rightarrow> int option" where
  "create_verdict ret =
     (if ret = ZOK then Some QCONF_OK
      else if ret = ZNODEEXISTS then Some QCONF_NODE_EXIST
      else if ret = ZNONODE \<or> ret = ZNOCHILDRENFOREPHEMERALS \<or> ret = ZBADARGUMENTS then Some QCONF_ERR_ZOO_FAILED
      else None)"

text \<open>A node without data (\<open>buffer_len\<close> -1) gives the empty value.  \<open>zoo_get\<close> gives what arrives in the
  buffer of \<open>QCONF_MAX_VALUE_SIZE\<close> bytes.\<close>

definition zk_get_node :: "zk_env \<Rightarrow> nat \<Rightarrow> zhandle \<Rightarrow> string \<Rightarrow> string \<Rightarrow> int \<times> string \<times> nat" where
  "zk_get_node en n zh path buf =
     (if \<not> zk_node_buf en then (QCONF_ERR_MEM, buf, n)
      else (case zk_retry (\<lambda>i. zoo_get en i zh (cstr path)) (\<lambda>r. read_verdict (fst r)) n 0 of (ret, r, n') \<Rightarrow>
              (ret, if ret = QCONF_OK then (case r of Some (_, Some d) \<Rightarrow> d | _ \<Rightarrow> []) else buf, n')))"

definition zk_create_node :: "zk_env \<Rightarrow> nat \<Rightarrow> zhandle \<Rightarrow> string \<Rightarrow> string \<Rightarrow> int \<Rightarrow> int \<times> nat" where
  "zk_create_node en n zh path val flags =
     (case zk_retry (\<lambda>i. zoo_create en i zh (cstr path) val flags) create_verdict n 0 of (ret, r, n') \<Rightarrow> (ret, n'))"

definition zk_exists :: "zk_env \<Rightarrow> nat \<Rightarrow> zhandle \<Rightarrow> string \<Rightarrow> int \<times> nat" where
  "zk_exists en n zh path =
     (case zk_retry (\<lambda>i. zoo_exists en i zh (cstr path)) read_verdict n 0 of (ret, r, n') \<Rightarrow> (ret, n'))"

text \<open>\<open>qsort\<close> with \<open>strcmp\<close>: ascending order of the names as C strings.\<close>

definition sort_nodes :: "string_vector_t \<Rightarrow> string_vector_t" where
  "sort_nodes nodes = sort_key sv_str nodes"

definition zk_get_chdnodes :: "zk_env \<Rightarrow> nat \<Rightarrow> zhandle \<Rightarrow> string \<Rightarrow> string_vector_t \<Rightarrow> int \<times> string_vector_t \<times> nat" where
  "zk_get_chdnodes en n zh path nodes =
     (if zh = None \<or> path = [] then (QCONF_ERR_PARAM, nodes, n)
      else (case zk_retry (\<lambda>i. zoo_get_children en i zh (cstr path)) (\<lambda>r. read_verdict (fst r)) n 0 of (ret, r, n') \<Rightarrow>
              (ret, if ret = QCONF_OK then (case r of Some (_, ns) \<Rightarrow> sort_nodes ns | None \<Rightarrow> nodes) else nodes, n')))"

definition zk_get_service_status :: "zk_env \<Rightarrow> nat \<Rightarrow> zhandle \<Rightarrow> string \<Rightarrow> int \<Rightarrow> int \<times> int \<times> nat" where
  "zk_get_service_status en n zh path status =
     (if zh = None \<or> path = [] then (QCONF_ERR_PARAM, status, n)
      else (case zk_get_node en n zh path [] of (ret, buf, n') \<Rightarrow>
              if ret = QCONF_OK then
                (let val = snd (get_integer buf STATUS_UNKNOWN) in
                 if val = STATUS_UP \<or> val = STATUS_DOWN \<or> val = STATUS_OFFLINE then (QCONF_OK, val, n')
                 else (QCONF_ERR_OTHER, status, n'))
              else (QCONF_ERR_OTHER, status, n')))"

text \<open>The loop over the children; a failure of one child ends it.\<close>

fun status_loop :: "zk_env \<Rightarrow> nat \<Rightarrow> zhandle \<Rightarrow> string \<Rightarrow> string_vector_t \<Rightarrow> int list \<Rightarrow> int \<times> int list \<times> nat" where
  "status_loop en n zh path [] acc = (QCONF_OK, acc, n)"
| "status_loop en n zh path (node # nodes) acc =
     (case zk_get_service_status en n zh (path @ ''/'' @ sv_str node) 0 of (ret, s, n') \<Rightarrow>
        if ret \<noteq> QCONF_OK then (QCONF_ERR_OTHER, acc, n')
        else status_loop en n' zh path nodes (acc @ [s]))"

definition zk_get_chdnodes_with_status ::
  "zk_env \<Rightarrow> nat \<Rightarrow> zhandle \<Rightarrow> string \<Rightarrow> string_vector_t \<Rightarrow> int \<times> string_vector_t \<times> int list \<times> nat" where
  "zk_get_chdnodes_with_status en n zh path nodes =
     (if zh = None \<or> path = [] then (QCONF_ERR_PARAM, nodes, [], n)
      else (case zk_get_chdnodes en n zh path nodes of (ret, nodes', n') \<Rightarrow>
              if ret = QCONF_OK then
                (case status_loop en n' zh path nodes' [] of (ret', status, n'') \<Rightarrow> (ret', nodes', status, n''))
              else (ret, nodes', [], n')))"

text \<open>The ancestors that \<open>zk_register_ephemeral\<close> creates: the path up to every delimiter after the first.\<close>

definition path_parents :: "string \<Rightarrow> string list" where
  "path_parents path = map (\<lambda>pos. take pos path) (filter (\<lambda>pos. path ! pos = CHR ''/'') [1..<length path])"

fun create_parents :: "zk_env \<Rightarrow> nat \<Rightarrow> zhandle \<Rightarrow> string list \<Rightarrow> int \<times> nat" where
  "create_parents en n zh [] = (QCONF_OK, n)"
| "create_parents en n zh (p # ps) =
     (case zk_create_node en n zh p [] 0 of (ret, n') \<Rightarrow>
        if ret \<noteq> QCONF_OK \<and> ret \<noteq> QCONF_NODE_EXIST then (QCONF_ERR_ZOO_FAILED, n')
        else create_parents en n' zh ps)"

definition zk_register_ephemeral :: "zk_env \<Rightarrow> nat \<Rightarrow> zhandle \<Rightarrow> string \<Rightarrow> string \<Rightarrow> int \<times> nat" where
  "zk_register_ephemeral en n zh path val =
     (if zh = None \<or> path = [] \<or> val = [] then (QCONF_ERR_PARAM, n)
      else (case create_parents en n zh (path_parents path) of (ret, n1) \<Rightarrow>
              if ret \<noteq> QCONF_OK then (ret, n1)
              else (case zk_create_node en n1 zh path val ZOO_EPHEMERAL of (ret, n2) \<Rightarrow>
                      (if ret = QCONF_NODE_EXIST then QCONF_OK else ret, n2))))"

section \<open>Retrying\<close>

lemma zk_retry_from:
  assumes "\<forall>j<k. verdict (call (n + j)) = None" "i + k < QCONF_GET_RETRIES" "verdict (call (n + k)) = Some c"
  shows "zk_retry call verdict n i = (c, Some (call (n + k)), n + k + 1)"
  using assms
proof (induction k arbitrary: n i)
  case 0
  then show ?case by (subst zk_retry.simps) simp
next
  case (Suc k)
  have "verdict (call n) = None" using Suc.prems(1) by (metis add_0_right zero_less_Suc)
  moreover have "zk_retry call verdict (n + 1) (i + 1) = (c, Some (call (n + 1 + k)), n + 1 + k + 1)"
    using Suc.prems by (intro Suc.IH) auto
  ultimately show ?case using Suc.prems(2) by (subst zk_retry.simps) simp
qed

lemma zk_retry_exhausted:
  assumes "\<forall>j<3. verdict (call (n + j)) = None"
  shows "zk_retry call verdict n 0 = (QCONF_ERR_ZOO_FAILED, None, n + 3)"
proof -
  have "verdict (call n) = None" "verdict (call (Suc n)) = None" "verdict (call (Suc (Suc n))) = None"
    using assms [rule_format, of 0] assms [rule_format, of 1] assms [rule_format, of 2] by simp_all
  then show ?thesis
    by (simp add: zk_retry.simps [of _ _ _ 0] zk_retry.simps [of _ _ _ "Suc 0"] zk_retry.simps [of _ _ _ "Suc (Suc 0)"]
        zk_retry.simps [of _ _ _ "Suc (Suc (Suc 0))"])
qed

text \<open>Either one of three attempts is decisive, or all three are transient.\<close>

lemma zk_retry_cases:
  obtains (decided) k c where "k < 3" "\<forall>j<k. verdict (call (n + j)) = None" "verdict (call (n + k)) = Some c"
      "zk_retry call verdict n 0 = (c, Some (call (n + k)), n + k + 1)"
  | (transient) "\<forall>j<3. verdict (call (n + j)) = None" "zk_retry call verdict n 0 = (QCONF_ERR_ZOO_FAILED, None, n + 3)"
proof (cases "\<forall>j<3. verdict (call (n + j)) = None")
  case True
  then show thesis using transient zk_retry_exhausted by blast
next
  case False
  define k where "k = (LEAST j. verdict (call (n + j)) \<noteq> None)"
  from False obtain j where j: "j < 3" "verdict (call (n + j)) \<noteq> None" by blast
  have "verdict (call (n + k)) \<noteq> None" unfolding k_def using j(2) by (rule LeastI)
  moreover have "k \<le> j" unfolding k_def using j(2) by (rule Least_le)
  moreover have "\<forall>j<k. verdict (call (n + j)) = None" unfolding k_def using not_less_Least by blast
  ultimately show thesis using decided zk_retry_from [of k verdict call n 0] j(1) by auto
qed

text \<open>The \<open>k\<close>-th of the attempts that start at call \<open>n\<close> answers \<open>rc\<close>, after transient failures only.\<close>

definition get_answers :: "zk_env \<Rightarrow> nat \<Rightarrow> zhandle \<Rightarrow> string \<Rightarrow> nat \<Rightarrow> int \<Rightarrow> bool" where
  "get_answers en n zh path k rc \<longleftrightarrow> fst (zoo_get en (n + k) zh (cstr path)) = rc
     \<and> (\<forall>j<k. fst (zoo_get en (n + j) zh (cstr path)) \<in> {ZINVALIDSTATE, ZMARSHALLINGERROR})"

lemma read_verdict_None: "read_verdict r = None \<longleftrightarrow> r \<in> {ZINVALIDSTATE, ZMARSHALLINGERROR}"
  by (simp add: read_verdict_def)

lemma get_answers_unique:
  "get_answers en n zh path k rc \<Longrightarrow> get_answers en n zh path k' rc' \<Longrightarrow>
    rc \<notin> {ZINVALIDSTATE, ZMARSHALLINGERROR} \<Longrightarrow> rc' \<notin> {ZINVALIDSTATE, ZMARSHALLINGERROR} \<Longrightarrow> k' = k \<and> rc' = rc"
  unfolding get_answers_def by (metis linorder_neqE_nat)

lemma zk_get_node_cases:
  assumes "zk_node_buf en"
  obtains (answer) k rc where "k < 3" "get_answers en n zh path k rc" "rc \<notin> {ZINVALIDSTATE, ZMARSHALLINGERROR}"
      "zk_get_node en n zh path old = (the (read_verdict rc),
         if rc = ZOK then (case snd (zoo_get en (n + k) zh (cstr path)) of Some d \<Rightarrow> d | None \<Rightarrow> []) else old, n + k + 1)"
  | (transient) "zk_get_node en n zh path old = (QCONF_ERR_ZOO_FAILED, old, n + 3)"
      "\<forall>j<3. fst (zoo_get en (n + j) zh (cstr path)) \<in> {ZINVALIDSTATE, ZMARSHALLINGERROR}"
proof (cases rule: zk_retry_cases [of "\<lambda>r. read_verdict (fst r)" "\<lambda>i. zoo_get en i zh (cstr path)" n])
  case (decided k c)
  let ?rc = "fst (zoo_get en (n + k) zh (cstr path))"
  have c: "read_verdict ?rc = Some c" and j: "\<forall>j<k. read_verdict (fst (zoo_get en (n + j) zh (cstr path))) = None"
    using decided by auto
  have "c = QCONF_OK \<longleftrightarrow> ?rc = ZOK" using c by (auto simp: read_verdict_def split: if_splits)
  moreover have "?rc \<notin> {ZINVALIDSTATE, ZMARSHALLINGERROR}" using c read_verdict_None [of ?rc] by simp
  ultimately show thesis
    using answer [of k ?rc] decided(1,4) c j assms
    by (auto simp: zk_get_node_def get_answers_def read_verdict_None split: option.splits prod.splits)
next
  case transient
  then show thesis using that(2) assms by (simp add: zk_get_node_def read_verdict_None)
qed

text \<open>
  Reading a node makes at most three attempts, and its outcome is decided by the first attempt
  that does not fail transiently: the data, the absence of the node, or a failure; three
  transient failures are a failure.
\<close>

lemma zk_get_node_outcome:
  assumes "zk_node_buf en" and "zk_get_node en n zh path old = (ret, v, n')"
  shows "n < n' \<and> n' \<le> n + 3 \<and> ret \<in> {QCONF_OK, QCONF_NODE_NOT_EXIST, QCONF_ERR_ZOO_FAILED}
    \<and> (ret = QCONF_OK \<longleftrightarrow> (\<exists>k<3. get_answers en n zh path k ZOK))
    \<and> (ret = QCONF_NODE_NOT_EXIST \<longleftrightarrow> (\<exists>k<3. get_answers en n zh path k ZNONODE))
    \<and> (\<forall>k d. get_answers en n zh path k ZOK \<and> k < 3 \<and> snd (zoo_get en (n + k) zh (cstr path)) = Some d \<longrightarrow> v = d)"
  using assms(1)
proof (cases rule: zk_get_node_cases [of en n zh path old])
  case (answer k rc)
  have r: "ret = the (read_verdict rc)" and n: "n' = n + k + 1"
    and v: "rc = ZOK \<Longrightarrow> v = (case snd (zoo_get en (n + k) zh (cstr path)) of Some d \<Rightarrow> d | None \<Rightarrow> [])"
    using answer(4) assms(2) by auto
  have u: "get_answers en n zh path k' rc' \<Longrightarrow> rc' \<notin> {ZINVALIDSTATE, ZMARSHALLINGERROR} \<Longrightarrow> k' = k \<and> rc' = rc" for k' rc'
    using get_answers_unique answer(2,3) by blast
  have z: "ZOK \<notin> {ZINVALIDSTATE, ZMARSHALLINGERROR}" "ZNONODE \<notin> {ZINVALIDSTATE, ZMARSHALLINGERROR}" by simp_all
  have ex: "(\<exists>k<3. get_answers en n zh path k q) \<longleftrightarrow> rc = q" if q: "q \<notin> {ZINVALIDSTATE, ZMARSHALLINGERROR}" for q
  proof
    assume "\<exists>k<3. get_answers en n zh path k q"
    then show "rc = q" using u [OF _ q] by metis
  next
    assume "rc = q"
    then show "\<exists>k<3. get_answers en n zh path k q" using answer(1,2) by metis
  qed
  have rets: "ret = QCONF_OK \<longleftrightarrow> rc = ZOK" "ret = QCONF_NODE_NOT_EXIST \<longleftrightarrow> rc = ZNONODE"
    "ret \<in> {QCONF_OK, QCONF_NODE_NOT_EXIST, QCONF_ERR_ZOO_FAILED}"
    using r answer(3) by (auto simp: read_verdict_def)
  have "v = d" if a: "get_answers en n zh path k' ZOK" and d: "snd (zoo_get en (n + k') zh (cstr path)) = Some d" for k' d
    using u [OF a z(1)] d v by simp
  then show ?thesis unfolding ex [OF z(1)] ex [OF z(2)] rets(1,2) using answer(1) n rets(3) by auto
next
  case transient
  have "\<not> get_answers en n zh path k rc" if "k < 3" "rc \<notin> {ZINVALIDSTATE, ZMARSHALLINGERROR}" for k rc
    using transient(2) that by (auto simp: get_answers_def)
  then have "\<not> (\<exists>k<3. get_answers en n zh path k ZOK)" "\<not> (\<exists>k<3. get_answers en n zh path k ZNONODE)" by auto
  then show ?thesis using transient(1) assms(2) by auto
qed

text \<open>A server that always answers, with a fixed tree, for the witnesses.\<close>

definition zk_static :: "(string \<rightharpoonup> string) \<Rightarrow> (string \<rightharpoonup> string list) \<Rightarrow> zk_env" where
  "zk_static data kids =
     \<lparr>zoo_get = \<lambda>_ _ p. (case data p of None \<Rightarrow> (ZNONODE, None) | Some d \<Rightarrow> (ZOK, Some d)),
      zoo_get_children = \<lambda>_ _ p. (case kids p of None \<Rightarrow> (ZNONODE, []) | Some ks \<Rightarrow> (ZOK, map Some ks)),
      zoo_exists = \<lambda>_ _ p. if data p = None then ZNONODE else ZOK,
      zoo_create = \<lambda>_ _ _ _ _. ZOK, zookeeper_init = \<lambda>_ _. Some 1, zoo_state = \<lambda>_ _. 3, zk_node_buf = True\<rparr>"

lemma zk_get_node_outcome_example:
  "zk_get_node (zk_static [''/p'' \<mapsto> ''v''] Map.empty) 0 (Some 1) ''/p'' [] = (QCONF_OK, ''v'', 1) \<and> 1 \<le> (0::nat) + 3"
proof -
  have b: "zk_node_buf (zk_static [''/p'' \<mapsto> ''v''] Map.empty)" by (simp add: zk_static_def)
  have g: "zk_get_node (zk_static [''/p'' \<mapsto> ''v''] Map.empty) 0 (Some 1) ''/p'' [] = (QCONF_OK, ''v'', 1)"
    by (simp add: zk_get_node_def zk_static_def zk_retry.simps [of _ _ _ 0] read_verdict_def cstr_def NUL_def)
  from zk_get_node_outcome [OF b g] g show ?thesis by simp
qed

section \<open>Children\<close>

lemma sort_nodes_perm:
  assumes "mset xs = mset ys" "\<forall>p\<in>set xs. \<exists>s. p = Some s \<and> NUL \<notin> set s"
  shows "sort_nodes xs = sort_nodes ys"
proof -
  have srt: "map sv_str (sort_key sv_str zs) = sort (map sv_str zs)" for zs :: string_vector_t
    by (rule properties_for_sort [symmetric]) simp_all
  have st: "set xs = set ys" using assms(1) by (rule mset_eq_setD)
  have "sort (map sv_str xs) = sort (map sv_str ys)"
    using assms(1) by (intro properties_for_sort) simp_all
  then have eq: "map sv_str (sort_key sv_str xs) = map sv_str (sort_key sv_str ys)" by (simp add: srt)
  have "inj_on sv_str (set (sort_key sv_str xs) \<union> set (sort_key sv_str ys))"
  proof (rule inj_onI)
    fix x y assume "x \<in> set (sort_key sv_str xs) \<union> set (sort_key sv_str ys)" "y \<in> set (sort_key sv_str xs) \<union> set (sort_key sv_str ys)"
      and e: "sv_str x = sv_str y"
    then have "x \<in> set xs" "y \<in> set xs" using st by auto
    then obtain s t where "x = Some s" "NUL \<notin> set s" "y = Some t" "NUL \<notin> set t" using assms(2) by meson
    then show "x = y" using e by simp
  qed
  then show ?thesis unfolding sort_nodes_def using eq by (simp add: inj_on_map_eq_map)
qed

text \<open>
  The children that the agent works with do not depend on the order in which ZooKeeper lists
  them: equal sets of names give the same, sorted, list, and hence the same table value.
\<close>

lemma zk_get_chdnodes_order:
  assumes "\<forall>i. fst (zoo_get_children en2 i zh (cstr path)) = fst (zoo_get_children en1 i zh (cstr path))
      \<and> mset (snd (zoo_get_children en2 i zh (cstr path))) = mset (snd (zoo_get_children en1 i zh (cstr path)))"
    and "\<forall>i. \<forall>p\<in>set (snd (zoo_get_children en1 i zh (cstr path))). \<exists>s. p = Some s \<and> NUL \<notin> set s"
  shows "zk_get_chdnodes en2 n zh path nodes = zk_get_chdnodes en1 n zh path nodes
    \<and> (\<forall>ns n'. zk_get_chdnodes en1 n zh path nodes = (QCONF_OK, ns, n') \<longrightarrow> sorted (map sv_str ns))"
proof (cases "zh = None \<or> path = []")
  case True
  then show ?thesis by (auto simp: zk_get_chdnodes_def)
next
  case False
  let ?c1 = "\<lambda>i. zoo_get_children en1 i zh (cstr path)" and ?c2 = "\<lambda>i. zoo_get_children en2 i zh (cstr path)"
  let ?v = "\<lambda>r :: int \<times> string_vector_t. read_verdict (fst r)"
  have same: "?v (?c2 i) = ?v (?c1 i)" for i using assms(1) by simp
  have srt: "sort_nodes (snd (?c2 i)) = sort_nodes (snd (?c1 i))" for i
    using assms by (intro sort_nodes_perm [symmetric]) auto
  have sorted: "sorted (map sv_str (sort_nodes ns))" for ns by (simp add: sort_nodes_def)
  show ?thesis
  proof (cases rule: zk_retry_cases [of ?v ?c1 n])
    case (decided k c)
    have "zk_retry ?c2 ?v n 0 = (c, Some (?c2 (n + k)), n + k + 1)"
      using decided(1-3) by (intro zk_retry_from) (simp_all add: same)
    then show ?thesis
      using decided(4) False srt [of "n + k"] sorted by (auto simp: zk_get_chdnodes_def split: prod.splits)
  next
    case transient
    have "zk_retry ?c2 ?v n 0 = (QCONF_ERR_ZOO_FAILED, None, n + 3)"
      using transient(1) by (intro zk_retry_exhausted) (simp add: same)
    then show ?thesis using transient(2) False by (simp add: zk_get_chdnodes_def)
  qed
qed

lemma zk_get_chdnodes_order_example:
  "zk_get_chdnodes (zk_static Map.empty [''/s'' \<mapsto> [''b'', ''a'']]) 0 (Some 1) ''/s'' []
    = zk_get_chdnodes (zk_static Map.empty [''/s'' \<mapsto> [''a'', ''b'']]) 0 (Some 1) ''/s'' []"
proof -
  have c: "cstr ''/s'' = ''/s''" by (simp add: cstr_def NUL_def)
  show ?thesis
    using zk_get_chdnodes_order [of "zk_static Map.empty [''/s'' \<mapsto> [''b'', ''a'']]" "Some 1" "''/s''"
        "zk_static Map.empty [''/s'' \<mapsto> [''a'', ''b'']]" 0 "[]"]
    by (simp add: c) (simp add: zk_static_def add_mset_commute NUL_def)
qed

end
