(* ===== verification/QGray.thy ===== *)
theory QGray
  imports QZoo
begin

text \<open>
  Gray releases: \<open>src/agent/qconf_gray.cc\<close>.

  A \<open>std::map\<close> that is iterated is an association list in ascending order of its keys
  (\<open>omap\<close>).  The name of the host is a parameter.  The loop that collects the pieces of a
  notification runs until a piece is missing, so \<open>read_notify_content\<close> may not return.
\<close>

section \<open>Ordered maps\<close>

type_synonym ('k, 'v) omap = "('k \<times> 'v) list"

definition omap_erase :: "'k \<Rightarrow> ('k, 'v) omap \<Rightarrow> ('k, 'v) omap" where
  "omap_erase k m = filter (\<lambda>p. fst p \<noteq> k) m"

definition omap_update :: "'k :: linorder \<Rightarrow> 'v \<Rightarrow> ('k, 'v) omap \<Rightarrow> ('k, 'v) omap" where
  "omap_update k v m = insort_key fst (k, v) (omap_erase k m)"

text \<open>\<open>insert\<close> keeps the value of a key that is present.\<close>

definition omap_insert :: "'k :: linorder \<Rightarrow> 'v \<Rightarrow> ('k, 'v) omap \<Rightarrow> ('k, 'v) omap" where
  "omap_insert k v m = (if map_of m k = None then omap_update k v m else m)"

definition omap_ok :: "('k :: linorder, 'v) omap \<Rightarrow> bool" where
  "omap_ok m \<longleftrightarrow> sorted (map fst m) \<and> distinct (map fst m)"

lemma omap_ok_Nil [simp]: "omap_ok []"
  by (simp add: omap_ok_def)

lemma map_of_erase [simp]: "map_of (omap_erase k m) = (map_of m)(k := None)"
  by (induction m) (auto simp: omap_erase_def)

lemma keys_erase [simp]: "fst ` set (omap_erase k m) = fst ` set m - {k}"
  by (auto simp: omap_erase_def image_iff)

lemma map_of_insort:
  "k \<notin> fst ` set m \<Longrightarrow> map_of (insort_key fst (k, v) m) = (map_of m)(k \<mapsto> v)"
  by (induction m) (auto simp: fun_upd_twist)

lemma map_of_omap_update [simp]: "map_of (omap_update k v m) = (map_of m)(k \<mapsto> v)"
  by (simp add: omap_update_def map_of_insort)

lemma map_of_omap_insert: "map_of (omap_insert k v m) = map_insert k v (map_of m)"
  by (auto simp: omap_insert_def map_insert_def)

lemma omap_ok_erase [intro]: "omap_ok m \<Longrightarrow> omap_ok (omap_erase k m)"
  by (simp add: omap_ok_def omap_erase_def sorted_filter distinct_map_filter)

lemma distinct_insort_fst: "k \<notin> fst ` set m \<Longrightarrow> distinct (map fst m) \<Longrightarrow> distinct (map fst (insort_key fst (k, v) m))"
  by (induction m) (auto simp: set_insort_key)

lemma omap_ok_update [intro]: "omap_ok m \<Longrightarrow> omap_ok (omap_update k v m)"
  using omap_ok_erase [of m k] distinct_insort_fst [of k "omap_erase k m" v]
  by (simp add: omap_ok_def omap_update_def sorted_insort_key)

lemma omap_ok_insert [intro]: "omap_ok m \<Longrightarrow> omap_ok (omap_insert k v m)"
  by (auto simp: omap_insert_def)

section \<open>The gray nodes\<close>

record gray_state =
  notify_node :: string
  gray_nodes :: "(string, string) omap"

abbreviation (input) QCONF_NOTIFY_CLIENT_PREFIX :: string where
  "QCONF_NOTIFY_CLIENT_PREFIX \<equiv> ''/qconf/__qconf_notify/client''"

abbreviation (input) QCONF_NOTIFY_CONTENT_PREFIX :: string where
  "QCONF_NOTIFY_CONTENT_PREFIX \<equiv> ''/qconf/__qconf_notify/content''"

abbreviation (input) QCONF_ERR_GRAY_GET_NOTIFY_NODE :: int where "QCONF_ERR_GRAY_GET_NOTIFY_NODE \<equiv> 119"
abbreviation (input) QCONF_ERR_GRAY_GET_NOTIFY_CONTENT :: int where "QCONF_ERR_GRAY_GET_NOTIFY_CONTENT \<equiv> 120"

definition is_notify_node :: "string \<Rightarrow> gray_state \<Rightarrow> bool" where
  "is_notify_node node_path g \<longleftrightarrow> node_path = notify_node g"

text \<open>The result \<open>Some\<close> is the value that \<open>mval\<close> receives.\<close>

definition is_gray_node :: "string \<Rightarrow> gray_state \<Rightarrow> string option" where
  "is_gray_node mkey g = map_of (gray_nodes g) mkey"

definition get_notify_path :: "string \<Rightarrow> gray_state \<Rightarrow> gray_state" where
  "get_notify_path hostname g = g\<lparr>notify_node := QCONF_NOTIFY_CLIENT_PREFIX @ ''/'' @ cstr hostname\<rparr>"

definition with_notify_path :: "string \<Rightarrow> gray_state \<Rightarrow> gray_state" where
  "with_notify_path hostname g = (if notify_node g = [] then get_notify_path hostname g else g)"

definition watch_notify_node :: "zk_env \<Rightarrow> string \<Rightarrow> nat \<Rightarrow> zhandle \<Rightarrow> gray_state \<Rightarrow> int \<times> gray_state \<times> nat" where
  "watch_notify_node en hostname n zh g =
     (let g1 = with_notify_path hostname g in
      case zk_exists en n zh (notify_node g1) of (ret, n1) \<Rightarrow> (ret, g1, n1))"

definition gray_nodes_set :: "(string \<times> string) list \<Rightarrow> gray_state \<Rightarrow> gray_state" where
  "gray_nodes_set nodes g = g\<lparr>gray_nodes := fold (\<lambda>(k, v). omap_insert k v) nodes (gray_nodes g)\<rparr>"

definition gray_nodes_get :: "(string \<times> string) list \<Rightarrow> gray_state \<Rightarrow> (string \<times> string) list" where
  "gray_nodes_get nodes g = nodes @ gray_nodes g"

definition gray_nodes_clear :: "gray_state \<Rightarrow> gray_state" where
  "gray_nodes_clear g = g\<lparr>gray_nodes := []\<rparr>"

section \<open>Reading a notification\<close>

definition content_node :: "string \<Rightarrow> nat \<Rightarrow> string" where
  "content_node pfx index = pfx @ ''_'' @ show_nat index"

partial_function (option) content_loop ::
  "zk_env \<Rightarrow> nat \<Rightarrow> zhandle \<Rightarrow> string \<Rightarrow> nat \<Rightarrow> string \<Rightarrow> (int \<times> string \<times> nat) option" where
  "content_loop en n zh pfx index content =
     (case zk_get_node en n zh (content_node pfx index) [] of (ret, tmp_content, n1) \<Rightarrow>
        if ret = QCONF_OK then content_loop en n1 zh pfx (index + 1) (content @ tmp_content)
        else if ret = QCONF_NODE_NOT_EXIST then Some (QCONF_OK, content, n1)
        else Some (QCONF_ERR_OTHER, content, n1))"

text \<open>The loop over the set of encoded nodes, which moves every node to the key of \<open>idc\<close>.\<close>

fun notify_nodes :: "string \<Rightarrow> string list \<Rightarrow> (string \<times> string) list \<Rightarrow> int \<times> (string \<times> string) list" where
  "notify_nodes idc [] nodes = (QCONF_OK, nodes)"
| "notify_nodes idc (v # vs) nodes =
     (case tblval_to_nodeval_path v ([], [], []) of (ret, gray_val, gray_idc, gray_path) \<Rightarrow>
        if ret \<noteq> QCONF_OK then (QCONF_ERR_OTHER, nodes)
        else
          (let tblkey = snd (serialize_to_tblkey QCONF_DATA_TYPE_NODE idc gray_path) in
           notify_nodes idc vs (nodes @ [(tblkey, snd (nodeval_to_tblval tblkey gray_val))])))"

definition read_notify_content ::
  "zk_env \<Rightarrow> nat \<Rightarrow> zhandle \<Rightarrow> string \<Rightarrow> string \<Rightarrow> (string \<times> string) list \<Rightarrow> (int \<times> (string \<times> string) list \<times> nat) option" where
  "read_notify_content en n zh notify_id idc nodes =
     (if notify_id = [] then Some (QCONF_ERR_PARAM, nodes, n)
      else
        (case content_loop en n zh (QCONF_NOTIFY_CONTENT_PREFIX @ ''/'' @ notify_id) 0 [] of
           None \<Rightarrow> None
         | Some (ret, content, n1) \<Rightarrow>
             if ret \<noteq> QCONF_OK then Some (QCONF_ERR_OTHER, nodes, n1)
             else
               (case tblval_to_graynodeval content of (ret, vnodes) \<Rightarrow>
                  if ret \<noteq> QCONF_OK then Some (QCONF_ERR_OTHER, nodes, n1)
                  else (case notify_nodes idc (sorted_list_of_set vnodes) nodes of (ret, nodes') \<Rightarrow> Some (ret, nodes', n1)))))"

definition gray_process ::
  "zk_env \<Rightarrow> string \<Rightarrow> nat \<Rightarrow> zhandle \<Rightarrow> string \<Rightarrow> (string \<times> string) list \<Rightarrow> gray_state
    \<Rightarrow> (int \<times> (string \<times> string) list \<times> gray_state \<times> nat) option" where
  "gray_process en hostname n zh idc nodes g =
     (if zh = None \<or> idc = [] then Some (QCONF_ERR_PARAM, nodes, g, n)
      else
        (let g1 = with_notify_path hostname g in
         case zk_get_node en n zh (notify_node g1) [] of (ret, notify_id, n1) \<Rightarrow>
           if ret = QCONF_OK then
             (case read_notify_content en n1 zh notify_id idc nodes of
                None \<Rightarrow> None
              | Some (ret, nodes', n2) \<Rightarrow>
                  if ret \<noteq> QCONF_OK then Some (QCONF_ERR_GRAY_GET_NOTIFY_CONTENT, nodes', g1, n2)
                  else Some (QCONF_OK, nodes', gray_nodes_set nodes' g1, n2))
           else if ret = QCONF_NODE_NOT_EXIST then
             (case watch_notify_node en hostname n1 zh g1 of (_, g2, n2) \<Rightarrow>
                Some (QCONF_OK, gray_nodes_get nodes g2, gray_nodes_clear g2, n2))
           else Some (QCONF_ERR_GRAY_GET_NOTIFY_NODE, nodes, g1, n1)))"

section \<open>Laws\<close>

lemma gray_nodes_set_map:
  "map_of (gray_nodes (gray_nodes_set nodes g)) = fold (\<lambda>(k, v). map_insert k v) nodes (map_of (gray_nodes g))"
proof -
  have "map_of (fold (\<lambda>(k, v). omap_insert k v) nodes m) = fold (\<lambda>(k, v). map_insert k v) nodes (map_of m)" for m
    by (induction nodes arbitrary: m) (auto simp: map_of_omap_insert)
  then show ?thesis by (simp add: gray_nodes_set_def)
qed

lemma fold_map_insert:
  "fold (\<lambda>(k, v). map_insert k v) nodes m k = (case m k of Some v \<Rightarrow> Some v | None \<Rightarrow> map_of nodes k)"
proof (induction nodes arbitrary: m)
  case Nil
  then show ?case by (simp split: option.split)
next
  case (Cons p nodes)
  show ?case
    unfolding fold_simps comp_apply Cons.IH
    by (cases p, cases "m k") (auto simp: map_insert_def split: if_splits option.splits)
qed

lemma gray_set_lookup:
  "is_gray_node k (gray_nodes_set nodes g) = (case is_gray_node k g of Some v \<Rightarrow> Some v | None \<Rightarrow> map_of nodes k)"
  by (simp add: is_gray_node_def gray_nodes_set_map fold_map_insert)

lemma get_node_at_once:
  assumes "zk_node_buf en" "zoo_get en n zh (cstr path) = (ZOK, Some d)"
  shows "zk_get_node en n zh path old = (QCONF_OK, d, n + 1)"
  using assms by (simp add: zk_get_node_def zk_retry.simps [of _ _ _ 0] read_verdict_def)

lemma get_node_absent:
  assumes "zk_node_buf en" "fst (zoo_get en n zh (cstr path)) = ZNONODE"
  shows "zk_get_node en n zh path old = (QCONF_NODE_NOT_EXIST, old, n + 1)"
  using assms by (simp add: zk_get_node_def zk_retry.simps [of _ _ _ 0] read_verdict_def)

lemma content_loop_pieces:
  assumes "zk_node_buf en"
    and "\<forall>i<length cs. \<forall>m. zoo_get en m zh (cstr (content_node pfx (index + i))) = (ZOK, Some (cs ! i))"
    and "\<forall>m. fst (zoo_get en m zh (cstr (content_node pfx (index + length cs)))) = ZNONODE"
  shows "content_loop en n zh pfx index acc = Some (QCONF_OK, acc @ concat cs, n + length cs + 1)"
  using assms(2,3)
proof (induction cs arbitrary: index n acc)
  case Nil
  then show ?case using get_node_absent [OF assms(1)] by (subst content_loop.simps) simp
next
  case (Cons c cs)
  have "zoo_get en n zh (cstr (content_node pfx index)) = (ZOK, Some c)"
    using Cons.prems(1) by (metis add_0_right length_greater_0_conv list.discI nth_Cons_0)
  then have "zk_get_node en n zh (content_node pfx index) [] = (QCONF_OK, c, n + 1)"
    by (rule get_node_at_once [OF assms(1)])
  moreover have "content_loop en (n + 1) zh pfx (index + 1) (acc @ c) = Some (QCONF_OK, (acc @ c) @ concat cs, n + 1 + length cs + 1)"
  proof (rule Cons.IH)
    show "\<forall>i<length cs. \<forall>m. zoo_get en m zh (cstr (content_node pfx (index + 1 + i))) = (ZOK, Some (cs ! i))"
    proof (intro allI impI)
      fix i m assume "i < length cs"
      then show "zoo_get en m zh (cstr (content_node pfx (index + 1 + i))) = (ZOK, Some (cs ! i))"
        using Cons.prems(1) [rule_format, of "Suc i" m] by simp
    qed
    show "\<forall>m. fst (zoo_get en m zh (cstr (content_node pfx (index + 1 + length cs)))) = ZNONODE"
      using Cons.prems(2) by simp
  qed
  ultimately show ?case by (subst content_loop.simps) simp
qed

abbreviation node_tblkey :: "string \<Rightarrow> string \<Rightarrow> string" where
  "node_tblkey idc path \<equiv> snd (serialize_to_tblkey QCONF_DATA_TYPE_NODE idc path)"

definition gray_target :: "string \<Rightarrow> string \<times> string \<Rightarrow> string \<times> string" where
  "gray_target idc = (\<lambda>(path, v). (node_tblkey idc path, snd (nodeval_to_tblval (node_tblkey idc path) v)))"

definition gray_source :: "string \<Rightarrow> string \<times> string \<Rightarrow> string" where
  "gray_source idc = (\<lambda>(path, v). snd (nodeval_to_tblval (node_tblkey idc path) v))"

definition sizes_ok :: "string \<times> string \<Rightarrow> bool" where
  "sizes_ok = (\<lambda>(path, v). length path < 65536 \<and> length v < 4294967296)"

lemma source_decodes:
  assumes "length idc < 256" "sizes_ok pv"
  shows "tblval_to_nodeval_path (gray_source idc pv) outs = (QCONF_OK, snd pv, idc, fst pv)"
  using nodeval_rt [of idc "fst pv" "snd pv" outs] assms by (auto simp: gray_source_def sizes_ok_def Let_def split: prod.splits)

lemma notify_nodes_sources:
  assumes "length idc0 < 256" "\<forall>pv\<in>set pvs. sizes_ok pv"
  shows "notify_nodes idc (map (gray_source idc0) pvs) acc = (QCONF_OK, acc @ map (gray_target idc) pvs)"
  using assms(2)
proof (induction pvs arbitrary: acc)
  case (Cons pv pvs)
  have "tblval_to_nodeval_path (gray_source idc0 pv) ([], [], []) = (QCONF_OK, snd pv, idc0, fst pv)"
    using Cons.prems by (intro source_decodes assms) simp
  then show ?case using Cons by (simp add: gray_target_def Let_def split: prod.splits)
qed simp

lemma sources_list:
  assumes "length idc0 < 256" "\<forall>pv\<in>R. sizes_ok pv" "finite R"
  obtains pvs where "sorted_list_of_set (gray_source idc0 ` R) = map (gray_source idc0) pvs" "set pvs = R"
proof -
  define dec where "dec s = (let r = tblval_to_nodeval_path s ([], [], []) in (snd (snd (snd r)), fst (snd r)))" for s
  have dec: "dec (gray_source idc0 pv) = pv" if "pv \<in> R" for pv
    using source_decodes [OF assms(1), of pv "([], [], [])"] assms(2) that by (simp add: dec_def)
  let ?l = "sorted_list_of_set (gray_source idc0 ` R)"
  have sl: "set ?l = gray_source idc0 ` R" using assms(3) by simp
  have "map (gray_source idc0) (map dec ?l) = ?l"
    unfolding map_map by (rule map_idI) (auto simp: sl dec assms(3))
  moreover have "set (map dec ?l) = R" by (simp add: sl image_image dec assms(3))
  ultimately show thesis using that by metis
qed

lemma read_notify_content_release:
  assumes "zk_node_buf en" and id: "notify_id \<noteq> []"
    and "\<forall>i<length cs. \<forall>m. zoo_get en m zh (cstr (content_node (QCONF_NOTIFY_CONTENT_PREFIX @ ''/'' @ notify_id) i)) = (ZOK, Some (cs ! i))"
    and "\<forall>m. fst (zoo_get en m zh (cstr (content_node (QCONF_NOTIFY_CONTENT_PREFIX @ ''/'' @ notify_id) (length cs)))) = ZNONODE"
    and cs: "concat cs = snd (graynodeval_to_tblval (gray_source idc0 ` R))"
    and R: "finite R" "card R < 65536" "\<forall>pv\<in>R. sizes_ok pv \<and> length (gray_source idc0 pv) < 4294967296" "length idc0 < 256"
  shows "\<exists>pvs. set pvs = R \<and> read_notify_content en n zh notify_id idc nodes
      = Some (QCONF_OK, nodes @ map (gray_target idc) pvs, n + length cs + 1)"
proof -
  have "content_loop en n zh (QCONF_NOTIFY_CONTENT_PREFIX @ ''/'' @ notify_id) 0 [] = Some (QCONF_OK, [] @ concat cs, n + length cs + 1)"
    by (rule content_loop_pieces) (use assms in simp_all)
  moreover have "card (gray_source idc0 ` R) < 65536" using card_image_le [OF R(1)] R(2) le_less_trans by blast
  then have "tblval_to_graynodeval (concat cs) = (QCONF_OK, gray_source idc0 ` R)"
    unfolding cs using R by (intro graynode_rt) auto
  moreover obtain pvs where p: "sorted_list_of_set (gray_source idc0 ` R) = map (gray_source idc0) pvs" "set pvs = R"
    using sources_list [of idc0 R] R by blast
  moreover have "notify_nodes idc (map (gray_source idc0) pvs) nodes = (QCONF_OK, nodes @ map (gray_target idc) pvs)"
    using R p(2) by (intro notify_nodes_sources) auto
  ultimately have "read_notify_content en n zh notify_id idc nodes
      = Some (QCONF_OK, nodes @ map (gray_target idc) pvs, n + length cs + 1)"
    using id by (simp add: read_notify_content_def)
  then show ?thesis using p(2) by blast
qed

lemma node_tblkey_inject:
  assumes "length idc < 256" "length p < 65536" "length q < 65536" "node_tblkey idc p = node_tblkey idc q"
  shows "p = q"
proof -
  have "deserialize_from_tblkey (node_tblkey idc r) (NUL, [], []) = (QCONF_OK, QCONF_DATA_TYPE_NODE, idc, r)"
    if "length r < 65536" for r using that assms(1) by (intro tblkey_rt) simp_all
  then show ?thesis using assms(2-4) by (metis prod.inject)
qed

lemma target_lookup:
  assumes "length idc < 256" "\<forall>pv\<in>set pvs. sizes_ok pv" "(p, v) \<in> set pvs"
    and "\<forall>p v v'. (p, v) \<in> set pvs \<longrightarrow> (p, v') \<in> set pvs \<longrightarrow> v = v'"
  shows "map_of (map (gray_target idc) pvs) (node_tblkey idc p) = Some (gray_source idc (p, v))"
proof -
  have "fst (gray_target idc (p, v)) \<in> fst ` set (map (gray_target idc) pvs)"
    unfolding set_map by (rule imageI, rule imageI, rule assms(3))
  then have "map_of (map (gray_target idc) pvs) (node_tblkey idc p) \<noteq> None"
    unfolding map_of_eq_None_iff by (simp add: gray_target_def)
  then obtain w where w: "map_of (map (gray_target idc) pvs) (node_tblkey idc p) = Some w" by blast
  from map_of_SomeD [OF this] obtain q u where q: "(q, u) \<in> set pvs" "(node_tblkey idc p, w) = gray_target idc (q, u)" by auto
  have e: "node_tblkey idc p = node_tblkey idc q" using q(2) by (simp add: gray_target_def)
  have "p = q" using assms(2,3) q(1) by (intro node_tblkey_inject [OF assms(1) _ _ e]) (auto simp: sizes_ok_def)
  then have "u = v" using assms(3,4) q(1) by blast
  then show ?thesis using w q(2) \<open>p = q\<close> by (simp add: gray_target_def gray_source_def)
qed

text \<open>
  A gray release: when the host has a notification and its content, spread over the pieces
  \<open>cs\<close>, encodes a set of nodes, the loop over the pieces ends, every node is handed out under the
  key of the requesting data centre for an update of the table, and is a gray node from then on with
  the released value; a node that already was gray keeps the value that it had.
\<close>

lemma gray_process_rt:
  assumes "zk_node_buf en" and "zh \<noteq> None" and "idc \<noteq> []" and "length idc < 256" and "length idc0 < 256"
    and "\<forall>m. zoo_get en m zh (cstr (notify_node (with_notify_path hostname g))) = (ZOK, Some notify_id)" and "notify_id \<noteq> []"
    and "\<forall>i<length cs. \<forall>m. zoo_get en m zh (cstr (content_node (QCONF_NOTIFY_CONTENT_PREFIX @ ''/'' @ notify_id) i)) = (ZOK, Some (cs ! i))"
    and "\<forall>m. fst (zoo_get en m zh (cstr (content_node (QCONF_NOTIFY_CONTENT_PREFIX @ ''/'' @ notify_id) (length cs)))) = ZNONODE"
    and "concat cs = snd (graynodeval_to_tblval (gray_source idc0 ` R))"
    and "finite R" and "card R < 65536" and "\<forall>pv\<in>R. sizes_ok pv \<and> length (gray_source idc0 pv) < 4294967296"
    and "\<forall>p v v'. (p, v) \<in> R \<longrightarrow> (p, v') \<in> R \<longrightarrow> v = v'"
  shows "\<exists>ns g'. gray_process en hostname n zh idc [] g = Some (QCONF_OK, ns, g', n + length cs + 2)
    \<and> set ns = gray_target idc ` R
    \<and> (\<forall>(p, v)\<in>R. is_gray_node (node_tblkey idc p) g' =
          (case is_gray_node (node_tblkey idc p) g of Some old \<Rightarrow> Some old | None \<Rightarrow> Some (gray_source idc (p, v))))"
proof -
  let ?g = "with_notify_path hostname g"
  have id: "zk_get_node en n zh (notify_node ?g) [] = (QCONF_OK, notify_id, n + 1)"
    using get_node_at_once [OF assms(1)] assms(6) by blast
  obtain pvs where p: "set pvs = R"
    "read_notify_content en (n + 1) zh notify_id idc [] = Some (QCONF_OK, [] @ map (gray_target idc) pvs, n + 1 + length cs + 1)"
    using read_notify_content_release [OF assms(1,7,8,9,10,11,12,13,5)] by blast
  define g' where "g' = gray_nodes_set (map (gray_target idc) pvs) ?g"
  have "gray_process en hostname n zh idc [] g = Some (QCONF_OK, map (gray_target idc) pvs, g', n + length cs + 2)"
    using assms(2,3) id p(2) by (simp add: gray_process_def Let_def g'_def)
  moreover have "is_gray_node k ?g = is_gray_node k g" for k
    by (simp add: with_notify_path_def get_notify_path_def is_gray_node_def)
  moreover have "map_of (map (gray_target idc) pvs) (node_tblkey idc p) = Some (gray_source idc (p, v))" if "(p, v) \<in> R" for p v
    using that assms(4,13,14) by (intro target_lookup) (auto simp: p(1))
  ultimately show ?thesis using p(1) by (auto simp: g'_def gray_set_lookup split: option.split)
qed

definition one_release :: "string list" where
  "one_release = [snd (graynodeval_to_tblval {gray_source ''i'' (''/p'', ''v'')})]"

lemma gray_process_rt_example:
  "\<exists>ns g'. gray_process (zk_static [''/qconf/__qconf_notify/client/h'' \<mapsto> ''7'',
       ''/qconf/__qconf_notify/content/7_0'' \<mapsto> hd one_release] Map.empty)
     ''h'' 0 (Some 1) ''i'' [] \<lparr>notify_node = [], gray_nodes = []\<rparr>
   = Some (QCONF_OK, ns, g', 3) \<and> set ns = {gray_target ''i'' (''/p'', ''v'')}
   \<and> is_gray_node (node_tblkey ''i'' ''/p'') g' = Some (gray_source ''i'' (''/p'', ''v''))"
proof -
  let ?en = "zk_static [''/qconf/__qconf_notify/client/h'' \<mapsto> ''7'', ''/qconf/__qconf_notify/content/7_0'' \<mapsto> hd one_release] Map.empty"
  let ?g = "\<lparr>notify_node = [], gray_nodes = []\<rparr>"
  have len: "length (gray_source ''i'' (''/p'', ''v'')) < 4294967296"
    by (simp add: gray_source_def nodeval_to_tblval_def qconf_append_nodeval_def qconf_string_append_def Let_def
        serialize_to_tblkey_def qconf_append_path_def qconf_append_idc_def)
  have n: "zk_node_buf ?en" "\<forall>m. zoo_get ?en m (Some 1) (cstr (notify_node (with_notify_path ''h'' ?g))) = (ZOK, Some ''7'')"
    by (simp_all add: zk_static_def with_notify_path_def get_notify_path_def cstr_def NUL_def)
  have ch: "char_of (48 :: nat) = CHR ''0''" "char_of (49 :: nat) = CHR ''1''" by code_simp+
  have one: "length one_release = 1" "one_release ! 0 = hd one_release" "concat one_release = snd (graynodeval_to_tblval (gray_source ''i'' ` {(''/p'', ''v'')}))"
    by (simp_all add: one_release_def)
  have c: "\<forall>i<length one_release. \<forall>m. zoo_get ?en m (Some 1) (cstr (content_node (QCONF_NOTIFY_CONTENT_PREFIX @ ''/'' @ ''7'') i)) = (ZOK, Some (one_release ! i))"
    "\<forall>m. fst (zoo_get ?en m (Some 1) (cstr (content_node (QCONF_NOTIFY_CONTENT_PREFIX @ ''/'' @ ''7'') (length one_release)))) = ZNONODE"
    unfolding one(1) by (simp_all add: one zk_static_def content_node_def show_nat.simps digit_char_def cstr_def NUL_def ch)
  have s: "\<forall>pv\<in>{(''/p'', ''v'')}. sizes_ok pv \<and> length (gray_source ''i'' pv) < 4294967296"
    using len by (simp add: sizes_ok_def)
  have h: "Some (1 :: nat) \<noteq> None" "''i'' \<noteq> []" "length ''i'' < 256" "''7'' \<noteq> []"
    "finite {(''/p'', ''v'')}" "card {(''/p'', ''v'')} < 65536"
    "\<forall>p v v'. (p, v) \<in> {(''/p'', ''v'')} \<longrightarrow> (p, v') \<in> {(''/p'', ''v'')} \<longrightarrow> v = v'" by simp_all
  obtain ns g' where g: "gray_process ?en ''h'' 0 (Some 1) ''i'' [] ?g = Some (QCONF_OK, ns, g', 0 + length one_release + 2)"
    "set ns = gray_target ''i'' ` {(''/p'', ''v'')}"
    and v: "\<forall>(p, v)\<in>{(''/p'', ''v'')}. is_gray_node (node_tblkey ''i'' p) g' =
          (case is_gray_node (node_tblkey ''i'' p) ?g of Some old \<Rightarrow> Some old | None \<Rightarrow> Some (gray_source ''i'' (p, v)))"
    using gray_process_rt [OF n(1) h(1-3) h(3) n(2) h(4) c one(3) h(5,6) s h(7), of 0] by blast
  have "is_gray_node (node_tblkey ''i'' ''/p'') g' = Some (gray_source ''i'' (''/p'', ''v''))"
    using v by (simp add: is_gray_node_def)
  moreover have "gray_process ?en ''h'' 0 (Some 1) ''i'' [] ?g = Some (QCONF_OK, ns, g', 3)" using g(1) by (simp add: one(1))
  moreover have "set ns = {gray_target ''i'' (''/p'', ''v'')}" using g(2) by simp
  ultimately show ?thesis by blast
qed

end
