(* ===== verification/QTrigger.thy ===== *)
theory QTrigger
  imports QZoo QHash
begin

text \<open>
  What a change triggers outside the agent: the scripts of \<open>src/agent/qconf_script.cc\<close> and the feedback
  of \<open>src/agent/qconf_feedback.cc\<close>.

  The file system, \<open>select\<close>, the HTTP client, the clock and the socket are parameters.
\<close>

section \<open>Finding a script\<close>

abbreviation (input) QCONF_SCRIPT_DIR :: string where "QCONF_SCRIPT_DIR \<equiv> ''/script/''"
abbreviation (input) QCONF_SCRIPT_SEPARATOR :: char where "QCONF_SCRIPT_SEPARATOR \<equiv> CHR ''#''"
abbreviation (input) QCONF_SCRIPT_SUFFIX :: string where "QCONF_SCRIPT_SUFFIX \<equiv> ''.sh''"
abbreviation (input) QCONF_ERR_FAILED_READ_FILE :: int where "QCONF_ERR_FAILED_READ_FILE \<equiv> 102"
abbreviation (input) QCONF_ERR_FB_TIMEOUT :: int where "QCONF_ERR_FB_TIMEOUT \<equiv> 111"
abbreviation (input) QCONF_ERR_SCRIPT_TIMEOUT :: int where "QCONF_ERR_SCRIPT_TIMEOUT \<equiv> 115"
abbreviation (input) QCONF_ERR_SCRIPT_NOT_EXIST :: int where "QCONF_ERR_SCRIPT_NOT_EXIST \<equiv> 116"
abbreviation (input) QCONF_ERR_SCRIPT_DIR_NOT_INIT :: int where "QCONF_ERR_SCRIPT_DIR_NOT_INIT \<equiv> 117"

definition qconf_init_script_dir :: "string \<Rightarrow> string" where
  "qconf_init_script_dir agent_dir = agent_dir @ QCONF_SCRIPT_DIR"

function script_loop :: "(string \<Rightarrow> bool) \<Rightarrow> string \<Rightarrow> string option" where
  "script_loop readable script_path =
     (let file_path = script_path @ QCONF_SCRIPT_SUFFIX in
      if readable file_path then Some file_path
      else (case find_last_of QCONF_SCRIPT_SEPARATOR script_path of
              None \<Rightarrow> None
            | Some index \<Rightarrow> script_loop readable (take index script_path)))"
  by pat_completeness auto
termination
  by (relation "measure (\<lambda>(readable, s). length s)") (auto dest: find_last_of_less)

declare script_loop.simps [simp del]

text \<open>\<open>read_file\<close> is \<open>None\<close> when the file does not open.\<close>

definition script_content_read :: "(string \<Rightarrow> string option) \<Rightarrow> string \<Rightarrow> string \<Rightarrow> int \<times> string" where
  "script_content_read read_file path script =
     (if path = [] then (QCONF_ERR_PARAM, script)
      else (case read_file path of None \<Rightarrow> (QCONF_ERR_OTHER, script) | Some c \<Rightarrow> (QCONF_OK, c)))"

definition script_name :: "string \<Rightarrow> string" where
  "script_name path =
     map (\<lambda>c. if c = CHR ''/'' then QCONF_SCRIPT_SEPARATOR else c) (if hd path = CHR ''/'' then tl path else path)"

definition find_script ::
  "(string \<Rightarrow> bool) \<Rightarrow> (string \<Rightarrow> string option) \<Rightarrow> string \<Rightarrow> string \<Rightarrow> string \<Rightarrow> int \<times> string" where
  "find_script readable read_file script_dir path script =
     (if path = [] then (QCONF_ERR_PARAM, script)
      else if script_dir = [] then (QCONF_ERR_SCRIPT_DIR_NOT_INIT, script)
      else (case script_loop readable (script_dir @ script_name path) of
              None \<Rightarrow> (QCONF_ERR_SCRIPT_NOT_EXIST, script)
            | Some file_path \<Rightarrow>
                (case script_content_read read_file file_path script of (ret, script') \<Rightarrow>
                   if ret \<noteq> QCONF_OK then (QCONF_ERR_FAILED_READ_FILE, script') else (QCONF_OK, script'))))"

section \<open>Running a script\<close>

datatype select_result = Sel_intr | Sel_error | Sel_timeout | Sel_ready

text \<open>
  The \<open>do\<close> loop on \<open>select\<close>: an interrupted wait starts again, so the loop may not return.
\<close>

partial_function (option) select_loop :: "(nat \<Rightarrow> select_result) \<Rightarrow> nat \<Rightarrow> int option" where
  "select_loop sel i =
     (case sel i of
        Sel_intr \<Rightarrow> select_loop sel (i + 1)
      | Sel_error \<Rightarrow> Some QCONF_ERR_OTHER
      | Sel_timeout \<Rightarrow> Some QCONF_ERR_SCRIPT_TIMEOUT
      | Sel_ready \<Rightarrow> Some QCONF_OK)"

definition execute_script :: "bool \<Rightarrow> bool \<Rightarrow> (nat \<Rightarrow> select_result) \<Rightarrow> string \<Rightarrow> int option" where
  "execute_script pipe_ok fork_ok sel script =
     (if script = [] then Some QCONF_ERR_PARAM
      else if \<not> pipe_ok then Some QCONF_ERR_OTHER
      else if \<not> fork_ok then Some QCONF_ERR_OTHER
      else select_loop sel 0)"

section \<open>Feedback\<close>

record fb_val =
  tblval :: string
  fb_chds :: string

abbreviation (input) QCONF_FB_RETRIES :: nat where "QCONF_FB_RETRIES \<equiv> 3"
abbreviation (input) QCONF_FB_RESULT :: string where "QCONF_FB_RESULT \<equiv> ''0''"

text \<open>
  \<open>curl i\<close> is the outcome of the \<open>i\<close>-th transfer: whether it succeeded, and the bytes that
  \<open>write_callback\<close> received.  The buffer is not cleared between two transfers.
\<close>

function curl_loop :: "(nat \<Rightarrow> bool \<times> string) \<Rightarrow> nat \<Rightarrow> string \<Rightarrow> int \<times> string" where
  "curl_loop curl i buf =
     (if i < QCONF_FB_RETRIES then
        (case curl i of (ok, body) \<Rightarrow>
           let buf' = buf @ body in
           if ok then (if buf' \<noteq> QCONF_FB_RESULT then QCONF_ERR_OTHER else QCONF_OK, buf')
           else curl_loop curl (i + 1) buf')
      else (QCONF_ERR_FB_TIMEOUT, buf))"
  by pat_completeness auto
termination
  by (relation "measure (\<lambda>(curl, i, buf). QCONF_FB_RETRIES - i)") auto

declare curl_loop.simps [simp del]

definition feedback_process :: "bool \<Rightarrow> (nat \<Rightarrow> bool \<times> string) \<Rightarrow> int \<times> string" where
  "feedback_process curl_ready curl = (if \<not> curl_ready then (QCONF_ERR_OTHER, []) else curl_loop curl 0 [])"

text \<open>\<open>ss >> content\<close> reads up to the first blank.\<close>

definition feedback_generate_content ::
  "string option \<Rightarrow> nat \<Rightarrow> string \<Rightarrow> char \<Rightarrow> string \<Rightarrow> string \<Rightarrow> fb_val \<Rightarrow> string \<Rightarrow> int \<times> string" where
  "feedback_generate_content hostname now ip data_type idc path fbval content =
     (if ip = [] \<or> idc = [] \<or> path = [] then (QCONF_ERR_PARAM, content)
      else (case hostname of
              None \<Rightarrow> (QCONF_ERR_OTHER, content)
            | Some h \<Rightarrow>
                if data_type \<notin> {QCONF_DATA_TYPE_NODE, QCONF_DATA_TYPE_SERVICE, QCONF_DATA_TYPE_BATCH_NODE}
                then (QCONF_ERR_PARAM, content)
                else
                  (let value = if data_type = QCONF_DATA_TYPE_NODE then snd (tblval_to_nodeval (tblval fbval) [])
                               else fb_chds fbval;
                       ss = ''hostname='' @ cstr h @ ''&ip='' @ ip @ ''&node_whole='' @ path
                            @ ''&value_md5='' @ qhashmd5_bin_to_hex (qhashmd5 value) @ ''&idc='' @ idc
                            @ ''&update_time='' @ show_nat now @ ''&data_type='' @ [data_type]
                   in (QCONF_OK, takeWhile (\<lambda>c. \<not> is_space c) ss))))"

definition drop_last :: "string \<Rightarrow> string" where
  "drop_last value = (if value \<noteq> [] then butlast value else value)"

text \<open>\<open>zip\<close> ends with the shorter list; the source indexes \<open>status\<close> by the children, one per child.\<close>

definition feedback_generate_chdval :: "string_vector_t \<Rightarrow> int list \<Rightarrow> string \<Rightarrow> string" where
  "feedback_generate_chdval chdnodes status value =
     drop_last (fold (\<lambda>(node, s) value. value @ sv_str node @ ''#'' @ [char_of (nat (s + 48))] @ '','') (zip chdnodes status) value)"

definition feedback_generate_batchval :: "string_vector_t \<Rightarrow> string \<Rightarrow> string" where
  "feedback_generate_batchval batchnodes value =
     drop_last (fold (\<lambda>node value. value @ sv_str node @ '','') batchnodes value)"

text \<open>\<open>sock zh\<close> is the address of the socket of the handle, \<open>None\<close> when either call on it fails.\<close>

definition get_feedback_ip :: "(zhandle \<Rightarrow> string option) \<Rightarrow> zhandle \<Rightarrow> string \<Rightarrow> int \<times> string" where
  "get_feedback_ip sock zh ip_str =
     (if zh = None then (QCONF_ERR_PARAM, ip_str)
      else (case sock zh of None \<Rightarrow> (QCONF_ERR_OTHER, ip_str) | Some ip \<Rightarrow> (QCONF_OK, cstr ip)))"

section \<open>The script of the nearest ancestor\<close>

text \<open>The path of the elements \<open>es\<close>, and the name of its script.\<close>

definition slash_path :: "string list \<Rightarrow> string" where
  "slash_path es = concat (map (\<lambda>e. CHR ''/'' # e) es)"

definition hash_name :: "string list \<Rightarrow> string" where
  "hash_name es = tl (concat (map (\<lambda>e. CHR ''#'' # e) es))"

lemma hash_name_snoc: "es \<noteq> [] \<Longrightarrow> hash_name (es @ [e]) = hash_name es @ CHR ''#'' # e"
  by (cases es) (simp_all add: hash_name_def)

lemma script_name_path:
  assumes "es \<noteq> []" "\<forall>e\<in>set es. CHR ''/'' \<notin> set e"
  shows "script_name (slash_path es) = hash_name es"
proof -
  let ?sub = "\<lambda>c. if c = CHR ''/'' then CHR ''#'' else c"
  have e: "map ?sub e = e" if "e \<in> set es" for e using assms(2) that by (intro map_idI) auto
  have "map ?sub (slash_path es) = concat (map (\<lambda>e. CHR ''#'' # e) es)"
    using e by (induction es) (simp_all add: slash_path_def)
  moreover have "hd (slash_path es) = CHR ''/''" using assms(1) by (cases es) (simp_all add: slash_path_def)
  ultimately show ?thesis by (simp add: script_name_def hash_name_def map_tl)
qed

lemma map_find_cong:
  assumes "\<And>x. x \<in> set xs \<Longrightarrow> P x = Q x" "\<And>x. x \<in> set xs \<Longrightarrow> f x = g x"
  shows "map_option f (find P xs) = map_option g (find Q xs)"
  using assms by (induction xs) simp_all

lemma script_loop_ancestors:
  assumes "CHR ''#'' \<notin> set dir" "\<forall>e\<in>set es. CHR ''#'' \<notin> set e" "es \<noteq> []"
  shows "script_loop readable (dir @ hash_name es) =
    map_option (\<lambda>k. dir @ hash_name (take k es) @ ''.sh'')
      (find (\<lambda>k. readable (dir @ hash_name (take k es) @ ''.sh'')) (rev [1..<length es + 1]))"
  using assms(2,3)
proof (induction es rule: rev_induct)
  case (snoc e es)
  let ?full = "dir @ hash_name (es @ [e]) @ ''.sh''"
  have upto: "rev [1..<length (es @ [e]) + 1] = (length es + 1) # rev [1..<length es + 1]" by simp
  show ?case
  proof (cases "readable ?full")
    case True
    then show ?thesis unfolding upto by (subst script_loop.simps) (simp add: Let_def)
  next
    case False
    show ?thesis
    proof (cases "es = []")
      case True
      have "find_last_of (CHR ''#'') (dir @ hash_name [e]) = None"
        using assms(1) snoc.prems(1) by (simp add: find_last_of_def hash_name_def)
      then show ?thesis using False True by (subst script_loop.simps) (simp add: Let_def)
    next
      case ne: False
      have nm: "dir @ hash_name (es @ [e]) = (dir @ hash_name es) @ CHR ''#'' # e" by (simp add: hash_name_snoc ne)
      have "find_last_of (CHR ''#'') (dir @ hash_name (es @ [e])) = Some (length (dir @ hash_name es))"
        unfolding nm using snoc.prems(1) by (intro find_last_of_split) simp
      then have "script_loop readable (dir @ hash_name (es @ [e])) = script_loop readable (dir @ hash_name es)"
        using False nm by (subst script_loop.simps) (simp add: Let_def)
      also have "\<dots> = map_option (\<lambda>k. dir @ hash_name (take k es) @ ''.sh'')
          (find (\<lambda>k. readable (dir @ hash_name (take k es) @ ''.sh'')) (rev [1..<length es + 1]))"
        using snoc ne by simp
      also have "\<dots> = map_option (\<lambda>k. dir @ hash_name (take k (es @ [e])) @ ''.sh'')
          (find (\<lambda>k. readable (dir @ hash_name (take k (es @ [e])) @ ''.sh'')) (rev [1..<length es + 1]))"
        by (rule map_find_cong) auto
      finally show ?thesis unfolding upto using False by simp
    qed
  qed
qed simp

text \<open>
  C36: The script that a change of a node runs is that of the nearest ancestor: among the node and
  its ancestors, the most specific one that has a readable script in the script directory; there is
  no script when none has one.  The directory and the path elements must not contain the
  separator \<open>#\<close>.
\<close>

theorem find_script_nearest:
  assumes "CHR ''#'' \<notin> set dir" and "dir \<noteq> []" and "es \<noteq> []"
    and "\<forall>e\<in>set es. CHR ''#'' \<notin> set e \<and> CHR ''/'' \<notin> set e"
    and "\<forall>f. readable f \<longrightarrow> (\<exists>c. read_file f = Some c)"
  shows "find_script readable read_file dir (slash_path es) old =
    (case find (\<lambda>k. readable (dir @ hash_name (take k es) @ ''.sh'')) (rev [1..<length es + 1]) of
       None \<Rightarrow> (QCONF_ERR_SCRIPT_NOT_EXIST, old)
     | Some k \<Rightarrow> (QCONF_OK, the (read_file (dir @ hash_name (take k es) @ ''.sh''))))"
proof -
  have ne: "slash_path es \<noteq> []" using assms(3) by (cases es) (simp_all add: slash_path_def)
  have nm: "script_name (slash_path es) = hash_name es" using assms by (intro script_name_path) auto
  have loop: "script_loop readable (dir @ hash_name es) =
      map_option (\<lambda>k. dir @ hash_name (take k es) @ ''.sh'')
        (find (\<lambda>k. readable (dir @ hash_name (take k es) @ ''.sh'')) (rev [1..<length es + 1]))"
    using assms by (intro script_loop_ancestors) auto
  show ?thesis
  proof (cases "find (\<lambda>k. readable (dir @ hash_name (take k es) @ ''.sh'')) (rev [1..<length es + 1])")
    case None
    then show ?thesis unfolding None find_script_def nm loop using ne assms(2) by simp
  next
    case (Some k)
    obtain c where "read_file (dir @ hash_name (take k es) @ ''.sh'') = Some c"
      using assms(5) find_SomeD(1) [OF Some] by blast
    then show ?thesis
      unfolding Some find_script_def nm loop using ne assms(2) by (simp add: script_content_read_def)
  qed
qed

theorem find_script_nearest_witness:
  "find_script (\<lambda>f. f = ''/s/a.sh'') (\<lambda>f. if f = ''/s/a.sh'' then Some ''x'' else None) ''/s/'' (slash_path [''a'', ''b'']) []
    = (QCONF_OK, ''x'')"
  using find_script_nearest [of "''/s/''" "[''a'', ''b'']" "\<lambda>f. f = ''/s/a.sh''" "\<lambda>f. if f = ''/s/a.sh'' then Some ''x'' else None" "[]"]
  by (simp add: hash_name_def)

text \<open>With the separator in the directory of the agent, the search leaves the script directory.\<close>

lemma find_script_leaves_dir:
  "find_script (\<lambda>f. f = ''/a.sh'') (\<lambda>f. Some f) (qconf_init_script_dir ''/a#b'') ''/p'' [] = (QCONF_OK, ''/a.sh'')"
  by (simp add: find_script_def qconf_init_script_dir_def script_name_def script_loop.simps find_last_of_def
      script_content_read_def)

end
