(* ===== verification/QWatcher.thy ===== *)
theory QWatcher
  imports QDump QGray QTrigger QMsg
begin

text \<open>
  The watcher of the agent: \<open>src/agent/qconf_watcher.cc\<close>.

  The static variables of the file, of \<open>qconf_dump.cc\<close> and of \<open>qconf_gray.cc\<close>, with the shared table,
  are one record \<open>agent\<close>; the operating system and the libraries are the record \<open>agent_env\<close>.  Every
  thread function is the body of its loop: one round.  A critical section is one step; the condition
  variables have no counterpart, since a round that finds its queue empty does nothing.
  \<open>zk_calls\<close> numbers the calls of the ZooKeeper library.
\<close>

section \<open>State\<close>

record agent_env =
  ae_mem :: "nat \<Rightarrow> bool"
  ae_zk :: zk_env
  ae_gdbm :: gdbm
  ae_conf :: conf_maps
  ae_host :: string
  ae_readable :: "string \<Rightarrow> bool"
  ae_read_file :: "string \<Rightarrow> string option"
  ae_script_dir :: string
  ae_sock :: "zhandle \<Rightarrow> string option"
  ae_now :: nat
  ae_curl_ready :: bool
  ae_curl :: "string \<Rightarrow> nat \<Rightarrow> bool \<times> string"
  ae_internal :: bool

record agent =
  shm_tbl :: "qhasharr_s option"
  lru :: LRU
  dump :: dbf
  register_node_path :: string
  stop_watcher_setting :: bool
  fb_enable :: bool
  finish_process_tbl_sleep_setting :: bool
  local_idc :: string
  ht_idchost_handle :: "(string, zhandle) omap"
  ht_handle_idchost :: "(nat, string) omap"
  need_watch_nodes :: "string list"
  exist_watch_nodes :: "string set"
  pending_nodes :: "string set"
  need_gray_idcs :: "string list"
  exist_gray_idcs :: "string set"
  need_trigger_nodes :: "string list"
  exist_trigger_nodes :: "string \<rightharpoonup> fb_val"
  gray :: gray_state
  feedback_ip :: string
  zk_calls :: nat
  scripts_run :: "string list"
  feedback_sent :: "string list"

abbreviation (input) QCONF_TRIGGER_TYPE_ADD_OR_MODIFY :: char where "QCONF_TRIGGER_TYPE_ADD_OR_MODIFY \<equiv> CHR ''0''"
abbreviation (input) QCONF_TRIGGER_TYPE_REMOVE :: char where "QCONF_TRIGGER_TYPE_REMOVE \<equiv> CHR ''2''"
abbreviation (input) QCONF_TRIGGER_TYPE_RESET :: char where "QCONF_TRIGGER_TYPE_RESET \<equiv> CHR ''3''"
abbreviation (input) QCONF_ERR_GRAY_FAKE_SHM_FAILED :: int where "QCONF_ERR_GRAY_FAKE_SHM_FAILED \<equiv> 121"
abbreviation (input) QCONF_AGENT_VERSION :: string where "QCONF_AGENT_VERSION \<equiv> ''1.0.2''"
abbreviation (input) CONNECTED_STATE_DEF :: int where "CONNECTED_STATE_DEF \<equiv> 3"
abbreviation (input) ZOO_EXPIRED_SESSION_STATE :: int where "ZOO_EXPIRED_SESSION_STATE \<equiv> -112"
abbreviation (input) ZOO_CONNECTED_STATE :: int where "ZOO_CONNECTED_STATE \<equiv> 3"
abbreviation (input) CREATED_EVENT_DEF :: int where "CREATED_EVENT_DEF \<equiv> 1"
abbreviation (input) DELETED_EVENT_DEF :: int where "DELETED_EVENT_DEF \<equiv> 2"
abbreviation (input) CHANGED_EVENT_DEF :: int where "CHANGED_EVENT_DEF \<equiv> 3"
abbreviation (input) CHILD_EVENT_DEF :: int where "CHILD_EVENT_DEF \<equiv> 4"
abbreviation (input) SESSION_EVENT_DEF :: int where "SESSION_EVENT_DEF \<equiv> -1"

section \<open>Queues\<close>

definition add_watcher_node :: "string \<Rightarrow> agent \<Rightarrow> agent" where
  "add_watcher_node key a =
     (if key = [] then a
      else if key \<in> exist_watch_nodes a then a
      else a\<lparr>need_watch_nodes := need_watch_nodes a @ [key], exist_watch_nodes := insert key (exist_watch_nodes a)\<rparr>)"

definition add_gray_idc :: "string \<Rightarrow> agent \<Rightarrow> agent" where
  "add_gray_idc key a =
     (if key = [] then a
      else if key \<in> exist_gray_idcs a then a
      else a\<lparr>need_gray_idcs := need_gray_idcs a @ [key], exist_gray_idcs := insert key (exist_gray_idcs a)\<rparr>)"

definition push_trigger :: "string \<Rightarrow> fb_val \<Rightarrow> agent \<Rightarrow> agent" where
  "push_trigger mkey mval a =
     (if exist_trigger_nodes a mkey = None
      then a\<lparr>need_trigger_nodes := need_trigger_nodes a @ [mkey], exist_trigger_nodes := (exist_trigger_nodes a)(mkey \<mapsto> mval)\<rparr>
      else a)"

definition add_change_trigger_node :: "string \<Rightarrow> string \<Rightarrow> char \<Rightarrow> string \<Rightarrow> agent \<Rightarrow> int \<times> agent" where
  "add_change_trigger_node tblkey val trigger_type chds a =
     (if tblkey = [] then (QCONF_ERR_OTHER, a)
      else (QCONF_OK, push_trigger (trigger_type # tblkey) \<lparr>tblval = val, fb_chds = chds\<rparr> a))"

definition add_pending_node :: "string \<Rightarrow> agent \<Rightarrow> agent" where
  "add_pending_node tblkey a = a\<lparr>pending_nodes := insert tblkey (pending_nodes a)\<rparr>"

definition del_pending_node :: "string \<Rightarrow> agent \<Rightarrow> agent" where
  "del_pending_node tblkey a = a\<lparr>pending_nodes := pending_nodes a - {tblkey}\<rparr>"

definition pending_node_exist :: "string \<Rightarrow> agent \<Rightarrow> bool" where
  "pending_node_exist tblkey a \<longleftrightarrow> tblkey \<in> pending_nodes a"

text \<open>What a round takes from its queue under the lock; the key stays empty when the queue is empty.\<close>

definition take_watch :: "agent \<Rightarrow> string \<times> agent" where
  "take_watch a =
     (case need_watch_nodes a of
        [] \<Rightarrow> ([], a)
      | k # ks \<Rightarrow> (k, a\<lparr>need_watch_nodes := ks, exist_watch_nodes := exist_watch_nodes a - {k}\<rparr>))"

definition take_gray :: "agent \<Rightarrow> string \<times> agent" where
  "take_gray a =
     (case need_gray_idcs a of
        [] \<Rightarrow> ([], a)
      | k # ks \<Rightarrow> (k, a\<lparr>need_gray_idcs := ks, exist_gray_idcs := exist_gray_idcs a - {k}\<rparr>))"

text \<open>
  \<open>_exist_trigger_nodes.find(mkey)->second\<close> has no value when the key is missing: the result is then
  \<open>None\<close>.
\<close>

definition take_trigger :: "agent \<Rightarrow> (string \<times> fb_val \<times> agent) option" where
  "take_trigger a =
     (case need_trigger_nodes a of
        [] \<Rightarrow> Some ([], \<lparr>tblval = [], fb_chds = []\<rparr>, a)
      | k # ks \<Rightarrow>
          (case exist_trigger_nodes a k of
             None \<Rightarrow> None
           | Some mval \<Rightarrow> Some (k, mval, a\<lparr>need_trigger_nodes := ks, exist_trigger_nodes := (exist_trigger_nodes a)(k := None)\<rparr>)))"

section \<open>Connections\<close>

definition agent_watch_notify :: "agent_env \<Rightarrow> nat \<Rightarrow> string \<Rightarrow> agent \<Rightarrow> agent" where
  "agent_watch_notify e zh idc a =
     (case watch_notify_node (ae_zk e) (ae_host e) (zk_calls a) (Some zh) (gray a) of (ret, g, n) \<Rightarrow>
        let a1 = a\<lparr>gray := g, zk_calls := n\<rparr> in if ret = QCONF_OK then add_gray_idc idc a1 else a1)"

definition init_env_for_zk :: "agent_env \<Rightarrow> nat \<Rightarrow> string \<Rightarrow> string \<Rightarrow> agent \<Rightarrow> agent" where
  "init_env_for_zk e zh idc_host idc a =
     (let a1 = a\<lparr>ht_handle_idchost := omap_update zh idc_host (ht_handle_idchost a),
                 ht_idchost_handle := omap_update idc_host (Some zh) (ht_idchost_handle a)\<rparr>;
          state = zoo_state (ae_zk e) (zk_calls a1) (Some zh);
          a2 = a1\<lparr>zk_calls := zk_calls a1 + 1\<rparr>
      in if state \<noteq> CONNECTED_STATE_DEF then a2
         else
           (case zk_register_ephemeral (ae_zk e) (zk_calls a2) (Some zh) (register_node_path a2) QCONF_AGENT_VERSION of (_, n) \<Rightarrow>
              agent_watch_notify e zh idc (a2\<lparr>zk_calls := n\<rparr>)))"

definition get_zhandle_by_idc :: "agent_env \<Rightarrow> string \<Rightarrow> agent \<Rightarrow> zhandle \<times> agent" where
  "get_zhandle_by_idc e idc a =
     (if idc = [] then (None, a)
      else
        (case get_idc_conf (ae_conf e) idc [] of (ret, host) \<Rightarrow>
           if ret \<noteq> QCONF_OK then (None, a)
           else
             (let idc_host = serialize_to_idc_host idc host in
              case (case map_of (ht_idchost_handle a) idc_host of None \<Rightarrow> None | Some zh \<Rightarrow> zh) of
                Some zh \<Rightarrow> (Some zh, a)
              | None \<Rightarrow>
                  (let a1 = a\<lparr>zk_calls := zk_calls a + 1\<rparr> in
                   case zookeeper_init (ae_zk e) (zk_calls a) (cstr host) of
                     None \<Rightarrow> (None, a1)
                   | Some zh \<Rightarrow> (Some zh, init_env_for_zk e zh idc_host idc a1)))))"

definition get_idc_by_zhandle :: "nat \<Rightarrow> agent \<Rightarrow> int \<times> string \<times> string" where
  "get_idc_by_zhandle zh a =
     (case map_of (ht_handle_idchost a) zh of
        None \<Rightarrow> (QCONF_ERR_OTHER, [], [])
      | Some idc_host \<Rightarrow> (QCONF_OK, snd (deserialize_from_idc_host idc_host ([], []))))"

text \<open>The caller passes the handle of an event, which is not NULL.\<close>

definition watcher_reconnect_to_zookeeper :: "agent_env \<Rightarrow> nat \<Rightarrow> agent \<Rightarrow> int \<times> agent" where
  "watcher_reconnect_to_zookeeper e zh a =
     (case map_of (ht_handle_idchost a) zh of
        None \<Rightarrow> (QCONF_ERR_OTHER, a)
      | Some idc_host \<Rightarrow>
          (let a1 = a\<lparr>ht_handle_idchost := omap_erase zh (ht_handle_idchost a),
                      ht_idchost_handle := omap_erase idc_host (ht_idchost_handle a), zk_calls := zk_calls a + 1\<rparr> in
           case snd (deserialize_from_idc_host idc_host ([], [])) of (idc, host) \<Rightarrow>
             (case zookeeper_init (ae_zk e) (zk_calls a) (cstr host) of
                None \<Rightarrow> (QCONF_ERR_OTHER, a1)
              | Some zh' \<Rightarrow>
                  (QCONF_OK, (init_env_for_zk e zh' idc_host idc a1)\<lparr>finish_process_tbl_sleep_setting := True\<rparr>))))"

definition qconf_destroy_zk :: "agent \<Rightarrow> agent" where
  "qconf_destroy_zk a = a\<lparr>ht_idchost_handle := map (\<lambda>(k, zh). (k, None)) (ht_idchost_handle a)\<rparr>"

section \<open>Bringing a key up to date\<close>

definition store_value :: "agent_env \<Rightarrow> string \<Rightarrow> string \<Rightarrow> agent \<Rightarrow> int \<times> agent" where
  "store_value e tblkey val a =
     (case hash_tbl_set (ae_mem e) (shm_tbl a) (lru a) tblkey val of (ret, t, l) \<Rightarrow> (ret, a\<lparr>shm_tbl := t, lru := l\<rparr>))"

text \<open>The two outcomes of a ZooKeeper read that \<open>process_node\<close>, \<open>process_service\<close> and \<open>process_batch\<close> share.\<close>

definition update_key :: "agent_env \<Rightarrow> string \<Rightarrow> string \<Rightarrow> string \<Rightarrow> agent \<Rightarrow> int \<times> agent" where
  "update_key e tblkey val chds a =
     (case store_value e tblkey val a of (ret, a1) \<Rightarrow>
        let a2 = (if ret = QCONF_OK then snd (add_change_trigger_node tblkey val QCONF_TRIGGER_TYPE_ADD_OR_MODIFY chds a1) else a1)
        in (if ret = QCONF_ERR_SAME_VALUE then QCONF_OK else ret, a2))"

definition remove_key :: "string \<Rightarrow> agent \<Rightarrow> int \<times> agent" where
  "remove_key tblkey a =
     (case hash_tbl_remove (shm_tbl a) tblkey of (ret, t) \<Rightarrow>
        (ret, snd (add_change_trigger_node tblkey [] QCONF_TRIGGER_TYPE_REMOVE [] (a\<lparr>shm_tbl := t\<rparr>))))"

definition process_node :: "agent_env \<Rightarrow> zhandle \<Rightarrow> string \<Rightarrow> string \<Rightarrow> agent \<Rightarrow> int \<times> agent" where
  "process_node e zh tblkey path a =
     (case zk_get_node (ae_zk e) (zk_calls a) zh path [] of (ret, val, n) \<Rightarrow>
        let a1 = a\<lparr>zk_calls := n\<rparr> in
        if ret = QCONF_OK then update_key e tblkey (snd (nodeval_to_tblval tblkey val)) [] a1
        else if ret = QCONF_NODE_NOT_EXIST then remove_key tblkey a1
        else (ret, a1))"

definition process_service :: "agent_env \<Rightarrow> zhandle \<Rightarrow> string \<Rightarrow> string \<Rightarrow> agent \<Rightarrow> int \<times> agent" where
  "process_service e zh tblkey path a =
     (case zk_get_chdnodes_with_status (ae_zk e) (zk_calls a) zh path [] of (ret, chdnodes, status, n) \<Rightarrow>
        let a1 = a\<lparr>zk_calls := n\<rparr> in
        if ret = QCONF_OK then
          update_key e tblkey (snd (chdnodeval_to_tblval tblkey chdnodes status))
            (if fb_enable a then feedback_generate_chdval chdnodes status [] else []) a1
        else if ret = QCONF_NODE_NOT_EXIST then remove_key tblkey a1
        else (ret, a1))"

definition process_batch :: "agent_env \<Rightarrow> zhandle \<Rightarrow> string \<Rightarrow> string \<Rightarrow> agent \<Rightarrow> int \<times> agent" where
  "process_batch e zh tblkey path a =
     (case zk_get_chdnodes (ae_zk e) (zk_calls a) zh path [] of (ret, nodes, n) \<Rightarrow>
        let a1 = a\<lparr>zk_calls := n\<rparr> in
        if ret = QCONF_OK then
          update_key e tblkey (snd (batchnodeval_to_tblval tblkey nodes))
            (if fb_enable a then feedback_generate_batchval nodes [] else []) a1
        else if ret = QCONF_NODE_NOT_EXIST then remove_key tblkey a1
        else (ret, a1))"

text \<open>The part of \<open>set_watcher_and_update_tbl\<close> from the decoded key to the dump.\<close>

definition read_dump :: "agent_env \<Rightarrow> string \<Rightarrow> agent \<Rightarrow> int \<times> agent" where
  "read_dump e tblkey a =
     (case qconf_dump_get (ae_gdbm e) (dump a) tblkey [] of (ret, val) \<Rightarrow>
        if ret \<noteq> QCONF_OK then (QCONF_ERR_OTHER, a)
        else (case store_value e tblkey val a of (ret, a1) \<Rightarrow> (if ret = QCONF_ERR_SAME_VALUE then QCONF_OK else ret, a1)))"

definition set_watcher_and_update_tbl :: "agent_env \<Rightarrow> string \<Rightarrow> agent \<Rightarrow> int \<times> agent" where
  "set_watcher_and_update_tbl e tblkey a =
     (case is_gray_node tblkey (gray a) of
        Some gray_value \<Rightarrow>
          (case store_value e tblkey gray_value a of (ret, a1) \<Rightarrow>
             let a2 = (if ret = QCONF_OK then snd (add_change_trigger_node tblkey gray_value QCONF_TRIGGER_TYPE_ADD_OR_MODIFY [] a1) else a1)
             in (if ret \<noteq> QCONF_OK \<and> ret \<noteq> QCONF_ERR_SAME_VALUE then QCONF_ERR_GRAY_FAKE_SHM_FAILED else QCONF_OK, a2))
      | None \<Rightarrow>
          (case deserialize_from_tblkey tblkey (QCONF_DATA_TYPE_UNKNOWN, [], []) of (_, data_type, idc, path) \<Rightarrow>
           case get_zhandle_by_idc e idc a of (zh, a1) \<Rightarrow>
             if zh \<noteq> None \<and> data_type \<notin> {QCONF_DATA_TYPE_NODE, QCONF_DATA_TYPE_SERVICE, QCONF_DATA_TYPE_BATCH_NODE}
             then (QCONF_ERR_DATA_TYPE, a1)
             else
               (case (if zh = None then (QCONF_ERR_OTHER, a1)
                      else if data_type = QCONF_DATA_TYPE_NODE then process_node e zh tblkey path a1
                      else if data_type = QCONF_DATA_TYPE_SERVICE then process_service e zh tblkey path a1
                      else process_batch e zh tblkey path a1) of (ret, a2) \<Rightarrow>
                  if ret = QCONF_ERR_ZOO_FAILED then read_dump e tblkey a2 else (ret, a2))))"

text \<open>\<open>deque_process\<close>: one round of its loop, taking a key and the work on it.  The test of
  \<open>_stop_watcher_setting\<close> that ends the loop is outside the round.\<close>

definition deque_take :: "agent \<Rightarrow> string \<times> agent" where
  "deque_take a = (case take_watch a of (tblkey, a1) \<Rightarrow> (tblkey, add_pending_node tblkey a1))"

definition deque_work :: "agent_env \<Rightarrow> string \<Rightarrow> agent \<Rightarrow> agent" where
  "deque_work e tblkey a =
     del_pending_node tblkey (if tblkey \<noteq> [] then snd (set_watcher_and_update_tbl e tblkey a) else a)"

definition deque_process :: "agent_env \<Rightarrow> agent \<Rightarrow> agent" where
  "deque_process e a = (case deque_take a of (tblkey, a1) \<Rightarrow> deque_work e tblkey a1)"

section \<open>The periodic scan\<close>

definition diff_with_zk :: "agent_env \<Rightarrow> string \<Rightarrow> string \<Rightarrow> agent \<Rightarrow> bool \<times> agent" where
  "diff_with_zk e tblkey val a =
     (case deserialize_from_tblkey tblkey (QCONF_DATA_TYPE_UNKNOWN, [], []) of (_, data_type, idc, path) \<Rightarrow>
        if data_type = QCONF_DATA_TYPE_ZK_HOST \<or> data_type = QCONF_DATA_TYPE_LOCAL_IDC then (False, a)
        else
          (case get_zhandle_by_idc e idc a of (zh, a1) \<Rightarrow>
             if zh = None then (False, a1)
             else if data_type = QCONF_DATA_TYPE_NODE then
               (case zk_get_node (ae_zk e) (zk_calls a1) zh path [] of (ret, zkval, n) \<Rightarrow>
                  (ret = QCONF_NODE_NOT_EXIST \<or> ret = QCONF_OK \<and> val \<noteq> snd (nodeval_to_tblval tblkey zkval), a1\<lparr>zk_calls := n\<rparr>))
             else if data_type = QCONF_DATA_TYPE_SERVICE then
               (case zk_get_chdnodes_with_status (ae_zk e) (zk_calls a1) zh path [] of (ret, chdnodes, status, n) \<Rightarrow>
                  (ret = QCONF_NODE_NOT_EXIST \<or> ret = QCONF_OK \<and> val \<noteq> snd (chdnodeval_to_tblval tblkey chdnodes status),
                   a1\<lparr>zk_calls := n\<rparr>))
             else if data_type = QCONF_DATA_TYPE_BATCH_NODE then
               (case zk_get_chdnodes (ae_zk e) (zk_calls a1) zh path [] of (ret, nodes, n) \<Rightarrow>
                  (ret = QCONF_NODE_NOT_EXIST \<or> ret = QCONF_OK \<and> val \<noteq> snd (batchnodeval_to_tblval tblkey nodes),
                   a1\<lparr>zk_calls := n\<rparr>))
             else (False, a1)))"

definition scan_entry :: "agent_env \<Rightarrow> string \<Rightarrow> string \<Rightarrow> agent \<Rightarrow> agent" where
  "scan_entry e tblkey val a =
     (let a1 = a\<lparr>dump := snd (qconf_dump_set (ae_gdbm e) (dump a) tblkey val)\<rparr> in
      case diff_with_zk e tblkey val a1 of (diff, a2) \<Rightarrow> if diff then add_watcher_node tblkey a2 else a2)"

text \<open>The loop over the table \<open>t\<close>.  Its body does not change the table; a change that another thread makes
  during the scan is not seen by it.\<close>

function scan_loop :: "agent_env \<Rightarrow> qhasharr_s \<Rightarrow> nat \<Rightarrow> nat \<Rightarrow> string \<Rightarrow> string \<Rightarrow> agent \<Rightarrow> agent" where
  "scan_loop e t max_slots idx tblkey val a =
     (if idx < max_slots \<and> \<not> stop_watcher_setting a then
        (case hash_tbl_getnext (ae_mem e) (Some t) tblkey val idx of (ret, tblkey', val', idx') \<Rightarrow>
           scan_loop e t max_slots idx' tblkey' val' (if ret = QCONF_OK then scan_entry e tblkey' val' a else a))
      else a)"
  by pat_completeness auto
termination
  by (relation "measure (\<lambda>(e, t, max_slots, idx, tblkey, val, a). max_slots - idx)")
     (auto dest!: hash_tbl_getnext_mono [OF sym])

declare scan_loop.simps [simp del]

text \<open>The loop over the connections hands \<open>add_gray_idc\<close> the key of the map, IDC and host in one string.\<close>

fun notify_loop :: "agent_env \<Rightarrow> string list \<Rightarrow> agent \<Rightarrow> agent" where
  "notify_loop e [] a = a"
| "notify_loop e (cidc # idcs) a =
     notify_loop e idcs
       (case map_of (ht_idchost_handle a) cidc of
          Some (Some zh) \<Rightarrow> agent_watch_notify e zh cidc a
        | _ \<Rightarrow> a)"

definition process_tbl :: "agent_env \<Rightarrow> agent \<Rightarrow> agent" where
  "process_tbl e a =
     (let a1 = (case shm_tbl a of None \<Rightarrow> a | Some t \<Rightarrow> scan_loop e t (maxslots t) 0 [] [] a)
      in notify_loop e (map fst (ht_idchost_handle a1)) a1)"

text \<open>A round of \<open>assist_watcher_process\<close>: \<open>msleep_interval\<close> leaves its flag reset.\<close>

definition assist_watcher_process :: "agent_env \<Rightarrow> agent \<Rightarrow> agent" where
  "assist_watcher_process e a =
     (let a1 = a\<lparr>finish_process_tbl_sleep_setting := False\<rparr>
      in if stop_watcher_setting a1 then a1 else process_tbl e a1)"

section \<open>Events\<close>

text \<open>\<open>if (pending_node_exist(tblkey) || hash_tbl_exist(_shm_tbl, tblkey)) add_watcher_node(...)\<close>.\<close>

definition wake :: "string \<Rightarrow> string \<Rightarrow> agent \<Rightarrow> agent" where
  "wake pending tblkey a =
     (if pending_node_exist pending a \<or> hash_tbl_exist (shm_tbl a) tblkey then add_watcher_node tblkey a else a)"

definition process_deleted_event :: "string \<Rightarrow> string \<Rightarrow> agent \<Rightarrow> agent" where
  "process_deleted_event idc path a =
     (let node = snd (serialize_to_tblkey QCONF_DATA_TYPE_NODE idc path);
          service = snd (serialize_to_tblkey QCONF_DATA_TYPE_SERVICE idc path);
          batch = snd (serialize_to_tblkey QCONF_DATA_TYPE_BATCH_NODE idc path)
      in wake batch batch (wake service service (wake node node a)))"

definition process_created_event :: "string \<Rightarrow> string \<Rightarrow> agent \<Rightarrow> agent" where
  "process_created_event idc path a = a"

text \<open>The test for the parent asks whether the node, not the parent, is pending.\<close>

definition process_changed_event :: "string \<Rightarrow> string \<Rightarrow> agent \<Rightarrow> agent" where
  "process_changed_event idc path a =
     (let node = snd (serialize_to_tblkey QCONF_DATA_TYPE_NODE idc path); a1 = wake node node a in
      case find_last_of (CHR ''/'') path of
        None \<Rightarrow> a1
      | Some pos \<Rightarrow> wake node (snd (serialize_to_tblkey QCONF_DATA_TYPE_SERVICE idc (take pos path))) a1)"

definition process_child_event :: "string \<Rightarrow> string \<Rightarrow> agent \<Rightarrow> agent" where
  "process_child_event idc path a =
     (let service = snd (serialize_to_tblkey QCONF_DATA_TYPE_SERVICE idc path);
          batch = snd (serialize_to_tblkey QCONF_DATA_TYPE_BATCH_NODE idc path)
      in wake batch batch (wake service service a))"

definition session_event :: "agent_env \<Rightarrow> nat \<Rightarrow> int \<Rightarrow> agent \<Rightarrow> agent" where
  "session_event e zh state a =
     (if state = ZOO_EXPIRED_SESSION_STATE then snd (watcher_reconnect_to_zookeeper e zh a)
      else if state = ZOO_CONNECTED_STATE then
        (case map_of (ht_handle_idchost a) zh of
           None \<Rightarrow> a
         | Some idc_host \<Rightarrow>
             (case snd (deserialize_from_idc_host idc_host ([], [])) of (idc, host) \<Rightarrow>
                (init_env_for_zk e zh idc_host idc a)\<lparr>finish_process_tbl_sleep_setting := True\<rparr>))
      else a)"

definition global_watcher :: "agent_env \<Rightarrow> nat \<Rightarrow> int \<Rightarrow> int \<Rightarrow> string \<Rightarrow> agent \<Rightarrow> agent" where
  "global_watcher e zh type state path a =
     (case get_idc_by_zhandle zh a of (ret, idc, host) \<Rightarrow>
        if ret \<noteq> QCONF_OK then a
        else
          (let a1 = (if (type = CREATED_EVENT_DEF \<or> type = DELETED_EVENT_DEF) \<and> is_notify_node path (gray a)
                     then add_gray_idc idc a else a)
           in if type = SESSION_EVENT_DEF then session_event e zh state a1
              else if type = CHILD_EVENT_DEF then process_child_event idc path a1
              else if type = CREATED_EVENT_DEF then process_created_event idc path a1
              else if type = DELETED_EVENT_DEF then process_deleted_event idc path a1
              else if type = CHANGED_EVENT_DEF then process_changed_event idc path a1
              else a1))"

section \<open>Triggers\<close>

definition trigger_dump :: "agent_env \<Rightarrow> string \<Rightarrow> string \<Rightarrow> char \<Rightarrow> agent \<Rightarrow> agent" where
  "trigger_dump e tblkey val trigger_type a =
     (if tblkey = [] then a
      else if trigger_type = QCONF_TRIGGER_TYPE_ADD_OR_MODIFY then
        a\<lparr>dump := snd (qconf_dump_set (ae_gdbm e) (dump a) tblkey val)\<rparr>
      else if trigger_type = QCONF_TRIGGER_TYPE_REMOVE then
        a\<lparr>dump := snd (qconf_dump_delete (ae_gdbm e) (dump a) tblkey)\<rparr>
      else a)"

text \<open>
  The result of \<open>execute_script\<close> is only logged: \<open>scripts_run\<close> records the commands given to it, and
  \<open>feedback_sent\<close> the contents given to \<open>feedback_process\<close>.  \<open>ae_internal\<close> is the build option
  \<open>QCONF_INTERNAL\<close>.
\<close>

abbreviation (input) QCONF_PREFIX :: string where "QCONF_PREFIX \<equiv> ''/qconf/''"

definition trigger_script :: "agent_env \<Rightarrow> char \<Rightarrow> string \<Rightarrow> string \<Rightarrow> char \<Rightarrow> agent \<Rightarrow> agent" where
  "trigger_script e data_type idc path trigger_type a =
     (if idc = [] \<or> path = [] then a
      else
        (let path_no_prefix =
               (if ae_internal e \<and> take (length QCONF_PREFIX) path = QCONF_PREFIX then drop (length QCONF_PREFIX) path else path);
             head = ''qconf_path='' @ path_no_prefix @ '';qconf_idc='' @ idc @ '';qconf_type='' @ [data_type]
                    @ '';qconf_event='' @ [trigger_type] @ '';''
         in case find_script (ae_readable e) (ae_read_file e) (ae_script_dir e) path_no_prefix [] of (ret, content) \<Rightarrow>
              if ret \<noteq> QCONF_OK then a else a\<lparr>scripts_run := scripts_run a @ [head @ content]\<rparr>))"

definition trigger_feedback ::
  "agent_env \<Rightarrow> char \<Rightarrow> string \<Rightarrow> string \<Rightarrow> string \<Rightarrow> fb_val \<Rightarrow> agent \<Rightarrow> agent" where
  "trigger_feedback e data_type idc path tblkey mval a =
     (if idc = [] \<or> path = [] then a
      else
        (case get_zhandle_by_idc e idc a of (zh, a1) \<Rightarrow>
           if zh = None then a1
           else
             (case (if feedback_ip a1 = [] then get_feedback_ip (ae_sock e) zh (feedback_ip a1) else (QCONF_OK, feedback_ip a1)) of
                (ipret, ip) \<Rightarrow>
                  let a2 = a1\<lparr>feedback_ip := ip\<rparr> in
                  if ipret \<noteq> QCONF_OK then a2
                  else
                    (case feedback_generate_content (Some (ae_host e)) (ae_now e) ip data_type idc path mval [] of (ret, content) \<Rightarrow>
                       if ret \<noteq> QCONF_OK then a2
                       else
                         (let fret = fst (feedback_process (ae_curl_ready e) (ae_curl e content));
                              a3 = a2\<lparr>feedback_sent := feedback_sent a2 @ [content]\<rparr>
                          in if fret = QCONF_ERR_FB_TIMEOUT
                             then snd (add_change_trigger_node tblkey (tblval mval) QCONF_TRIGGER_TYPE_RESET (fb_chds mval) a3)
                             else a3)))))"

definition change_trigger_process :: "agent_env \<Rightarrow> agent \<Rightarrow> agent option" where
  "change_trigger_process e a =
     (case take_trigger a of
        None \<Rightarrow> None
      | Some (mkey, mval, a1) \<Rightarrow>
          if mkey = [] then Some a1
          else
            (let trigger_type = hd mkey; tblkey = tl mkey in
             case deserialize_from_tblkey tblkey (NUL, [], []) of (_, data_type, idc, path) \<Rightarrow>
               (let a2 = (if trigger_type = QCONF_TRIGGER_TYPE_ADD_OR_MODIFY \<or> trigger_type = QCONF_TRIGGER_TYPE_REMOVE
                          then trigger_dump e tblkey (tblval mval) trigger_type (trigger_script e data_type idc path trigger_type a1)
                          else a1)
                in Some (if trigger_type \<noteq> QCONF_TRIGGER_TYPE_REMOVE \<and> fb_enable a2
                         then trigger_feedback e data_type idc path tblkey mval a2 else a2))))"

section \<open>Gray releases and messages\<close>

text \<open>A round of the gray thread does not return when the pieces of a notification never end.\<close>

definition do_gray_process :: "agent_env \<Rightarrow> agent \<Rightarrow> agent option" where
  "do_gray_process e a =
     (case take_gray a of (gray_idc, a1) \<Rightarrow>
        if gray_idc = [] then Some a1
        else
          (case get_zhandle_by_idc e gray_idc a1 of (zh, a2) \<Rightarrow>
             case gray_process (ae_zk e) (ae_host e) (zk_calls a2) zh gray_idc [] (gray a2) of
               None \<Rightarrow> None
             | Some (_, nodes, g, n) \<Rightarrow>
                 Some (fold (\<lambda>(k, v). add_watcher_node k) nodes (a2\<lparr>gray := g, zk_calls := n\<rparr>))))"

text \<open>A round of \<open>msg_process\<close>: \<open>None\<close> is \<open>exit(-1)\<close>, when a removed queue cannot be created again.\<close>

definition msg_process :: "int + string \<Rightarrow> (int \<Rightarrow> bool \<Rightarrow> int option) \<Rightarrow> int \<Rightarrow> string \<Rightarrow> agent \<Rightarrow> (string \<times> agent) option" where
  "msg_process msgrcv msgget msgkey key a =
     (case receive_msg msgrcv key of (ret, key') \<Rightarrow>
        if stop_watcher_setting a then Some (key', a)
        else if ret = QCONF_OK then Some (key', add_watcher_node key' a)
        else if ret = QCONF_ERR_MSGIDRM then
          (if fst (create_msg_queue msgget msgkey) \<noteq> QCONF_OK then None else Some (key', a))
        else Some (key', a))"

section \<open>Setting up\<close>

definition qconf_init_shm_tbl ::
  "agent_env \<Rightarrow> (int \<Rightarrow> 64 word \<Rightarrow> bool \<Rightarrow> int + int) \<Rightarrow> (int \<Rightarrow> int \<Rightarrow> qhasharr_s option) \<Rightarrow> int \<Rightarrow> int \<Rightarrow> agent \<Rightarrow> int \<times> agent" where
  "qconf_init_shm_tbl e shmget shmat maxSlotsNum shmkey a =
     (case create_hash_tbl shmget shmat maxSlotsNum shmkey of (ret, t) \<Rightarrow>
        let a1 = a\<lparr>shm_tbl := t\<rparr> in
        if ret = QCONF_OK then
          (case initLruMem (ae_mem e) t (lru a) of (ok, l) \<Rightarrow> (if ok then QCONF_OK else QCONF_ERR_MEM, a1\<lparr>lru := l\<rparr>))
        else (ret, a1))"

definition qconf_clear_shm_tbl :: "agent \<Rightarrow> agent" where
  "qconf_clear_shm_tbl a = a\<lparr>shm_tbl := snd (hash_tbl_clear (shm_tbl a))\<rparr>"

definition qconf_init_rgs_node_pfx :: "string \<Rightarrow> string \<Rightarrow> agent \<Rightarrow> agent" where
  "qconf_init_rgs_node_pfx hostname node_prefix a = a\<lparr>register_node_path := node_prefix @ ''/'' @ cstr hostname\<rparr>"

definition qconf_init_recv_timeout :: "int \<Rightarrow> int" where
  "qconf_init_recv_timeout timeout = (if timeout < 1000 then 1000 else timeout)"

definition qconf_init_fb_flg :: "bool \<Rightarrow> agent \<Rightarrow> agent" where
  "qconf_init_fb_flg enable_flags a = a\<lparr>fb_enable := enable_flags\<rparr>"

definition qconf_init_local_idc :: "agent_env \<Rightarrow> string \<Rightarrow> agent \<Rightarrow> int \<times> agent" where
  "qconf_init_local_idc e idc a =
     (case qconf_update_localidc (ae_mem e) (shm_tbl a) (lru a) idc of (ret, t, l) \<Rightarrow>
        (ret, a\<lparr>local_idc := idc, shm_tbl := t, lru := l\<rparr>))"

definition qconf_init_scexec_timeout :: "int \<Rightarrow> int" where
  "qconf_init_scexec_timeout timeout =
     (let t = (if timeout < 500 then 500 else timeout) in if t > 30000 then 30000 else t)"

text \<open>The message wakes the message thread; the second result counts the sends of the process.\<close>

definition qconf_thread_exit :: "(nat \<Rightarrow> string \<Rightarrow> int) \<Rightarrow> nat \<Rightarrow> agent \<Rightarrow> agent \<times> nat" where
  "qconf_thread_exit msgsnd n a = (a\<lparr>stop_watcher_setting := True\<rparr>, snd (send_msg msgsnd n ''__STOP__''))"

definition qconf_init_msg_key :: "(int \<Rightarrow> bool \<Rightarrow> int option) \<Rightarrow> int \<Rightarrow> int \<times> int" where
  "qconf_init_msg_key msgget msgkey = create_msg_queue msgget msgkey"

text \<open>
  \<open>create i\<close> tells whether \<open>pthread_create\<close> of the \<open>i\<close>-th thread succeeds; \<open>run\<close> is what the threads do
  until the loop of \<open>deque_process\<close> ends.  Only the failure of the first thread leaves the others
  without a stop.
\<close>

definition watcher_setting_start ::
  "(nat \<Rightarrow> bool) \<Rightarrow> (agent \<Rightarrow> agent) \<Rightarrow> (nat \<Rightarrow> string \<Rightarrow> int) \<Rightarrow> nat \<Rightarrow> agent \<Rightarrow> int \<times> agent \<times> nat" where
  "watcher_setting_start create run msgsnd n a =
     (if \<not> create 0 then (QCONF_ERR_OTHER, a, n)
      else if \<not> create 1 \<or> \<not> create 2 \<or> \<not> create 3 then (QCONF_ERR_OTHER, qconf_thread_exit msgsnd n a)
      else (QCONF_OK, qconf_thread_exit msgsnd n (run a)))"

end
