(* ===== verification/QWatcherThms.thy ===== *)
theory QWatcherThms
  imports QWatcher "HOL-Library.Sublist"
begin

text \<open>
  The queues and the threads of the agent.

  The three queues of \<open>qconf_watcher.cc\<close>, a deque next to a set or map of its members, have one
  contract (locale \<open>dedup_queue\<close>).  The threads are a step relation whose steps are rounds of the
  thread functions; the invariant of its reachable states says that the queues agree with their sets
  and that the pending set is the key that the main thread works on.
\<close>

section \<open>Queues without duplicates\<close>

locale dedup_queue =
  fixes ok :: "'q \<Rightarrow> bool" and elems :: "'q \<Rightarrow> string list"
    and push :: "string \<Rightarrow> 'v \<Rightarrow> 'q \<Rightarrow> 'q" and pop :: "'q \<Rightarrow> (string \<times> 'q) option"
  assumes ok_elems: "ok q \<Longrightarrow> distinct (elems q) \<and> [] \<notin> set (elems q)"
    and elems_push: "ok q \<Longrightarrow> k \<noteq> [] \<Longrightarrow> elems (push k v q) = (if k \<in> set (elems q) then elems q else elems q @ [k])"
    and ok_push: "ok q \<Longrightarrow> k \<noteq> [] \<Longrightarrow> ok (push k v q)"
    and pop_first: "ok q \<Longrightarrow> elems q = k # ks \<Longrightarrow> \<exists>q'. pop q = Some (k, q') \<and> ok q' \<and> elems q' = ks"
begin

lemma push_mem: "ok q \<Longrightarrow> k \<noteq> [] \<Longrightarrow> k \<in> set (elems (push k v q))"
  by (simp add: elems_push)

lemma push_prefix: "ok q \<Longrightarrow> k \<noteq> [] \<Longrightarrow> prefix (elems q) (elems (push k v q))"
  by (simp add: elems_push)

lemma push_twice: "ok q \<Longrightarrow> k \<noteq> [] \<Longrightarrow> elems (push k w (push k v q)) = elems (push k v q)"
  by (simp add: elems_push ok_push)

lemma pop_defined: "ok q \<Longrightarrow> elems q \<noteq> [] \<Longrightarrow> \<exists>q'. pop q = Some (hd (elems q), q') \<and> ok q' \<and> elems q' = tl (elems q)"
  using pop_first by (cases "elems q") auto

end

definition watch_ok :: "agent \<Rightarrow> bool" where
  "watch_ok a \<longleftrightarrow> distinct (need_watch_nodes a) \<and> [] \<notin> set (need_watch_nodes a) \<and> exist_watch_nodes a = set (need_watch_nodes a)"

definition gray_ok :: "agent \<Rightarrow> bool" where
  "gray_ok a \<longleftrightarrow> distinct (need_gray_idcs a) \<and> [] \<notin> set (need_gray_idcs a) \<and> exist_gray_idcs a = set (need_gray_idcs a)"

definition trigger_ok :: "agent \<Rightarrow> bool" where
  "trigger_ok a \<longleftrightarrow> distinct (need_trigger_nodes a) \<and> [] \<notin> set (need_trigger_nodes a)
     \<and> dom (exist_trigger_nodes a) = set (need_trigger_nodes a)"

interpretation watch_queue: dedup_queue watch_ok need_watch_nodes "\<lambda>k (_ :: unit). add_watcher_node k" "\<lambda>a. Some (take_watch a)"
  by unfold_locales (auto simp: watch_ok_def add_watcher_node_def take_watch_def)

interpretation gray_queue: dedup_queue gray_ok need_gray_idcs "\<lambda>k (_ :: unit). add_gray_idc k" "\<lambda>a. Some (take_gray a)"
  by unfold_locales (auto simp: gray_ok_def add_gray_idc_def take_gray_def)

interpretation trigger_queue: dedup_queue trigger_ok need_trigger_nodes push_trigger
  "\<lambda>a. map_option (\<lambda>(k, v, a'). (k, a')) (take_trigger a)"
proof (unfold_locales, goal_cases)
  case (1 q)
  then show ?case by (simp add: trigger_ok_def)
next
  case (2 q k v)
  then show ?case by (auto simp: trigger_ok_def push_trigger_def)
next
  case (3 q k v)
  then have "exist_trigger_nodes q k = None \<longleftrightarrow> k \<notin> set (need_trigger_nodes q)"
    by (auto simp: trigger_ok_def domIff)
  then show ?case using 3 by (auto simp: trigger_ok_def push_trigger_def)
next
  case (4 q k ks)
  then obtain v where "exist_trigger_nodes q k = Some v" by (auto simp: trigger_ok_def)
  then show ?case using 4 by (auto simp: trigger_ok_def take_trigger_def)
qed

section \<open>What a round may do\<close>

text \<open>
  \<open>evolves\<close> relates the states before and after any piece of work other than taking a key: the
  queues stay consistent, keys to watch are only appended, the maps stay ordered, and the pending set
  and the stop flag do not change.
\<close>

definition maps_ok :: "agent \<Rightarrow> bool" where
  "maps_ok a \<longleftrightarrow> omap_ok (ht_idchost_handle a) \<and> omap_ok (ht_handle_idchost a) \<and> omap_ok (gray_nodes (gray a))"

definition queues_ok :: "agent \<Rightarrow> bool" where
  "queues_ok a \<longleftrightarrow> watch_ok a \<and> gray_ok a \<and> trigger_ok a \<and> maps_ok a"

definition evolves :: "agent \<Rightarrow> agent \<Rightarrow> bool" where
  "evolves a a' \<longleftrightarrow> (queues_ok a \<longrightarrow> queues_ok a' \<and> prefix (need_watch_nodes a) (need_watch_nodes a'))
     \<and> pending_nodes a' = pending_nodes a \<and> stop_watcher_setting a' = stop_watcher_setting a"

named_theorems evo

lemma evolves_refl [evo, simp]: "evolves a a"
  by (simp add: evolves_def)

lemma evolves_trans: "evolves a b \<Longrightarrow> evolves b c \<Longrightarrow> evolves a c"
  by (auto simp: evolves_def)

lemma evolves_fields [simp]:
  "evolves a (b\<lparr>shm_tbl := t\<rparr>) = evolves a b"
  "evolves a (b\<lparr>lru := l\<rparr>) = evolves a b"
  "evolves a (b\<lparr>dump := d\<rparr>) = evolves a b"
  "evolves a (b\<lparr>zk_calls := n\<rparr>) = evolves a b"
  "evolves a (b\<lparr>finish_process_tbl_sleep_setting := f\<rparr>) = evolves a b"
  "evolves a (b\<lparr>feedback_ip := i\<rparr>) = evolves a b"
  "evolves a (b\<lparr>scripts_run := r\<rparr>) = evolves a b"
  "evolves a (b\<lparr>feedback_sent := r\<rparr>) = evolves a b"
  by (simp_all add: evolves_def queues_ok_def watch_ok_def gray_ok_def trigger_ok_def maps_ok_def)

lemma evolves_watch [evo]: "evolves a (add_watcher_node k a)"
  by (auto simp: evolves_def queues_ok_def maps_ok_def add_watcher_node_def watch_ok_def gray_ok_def trigger_ok_def)

lemma evolves_gray [evo]: "evolves a (add_gray_idc k a)"
  by (auto simp: evolves_def queues_ok_def maps_ok_def add_gray_idc_def watch_ok_def gray_ok_def trigger_ok_def)

lemma evolves_push: "k \<noteq> [] \<Longrightarrow> evolves a (push_trigger k v a)"
  using trigger_queue.ok_push [of a k v]
  by (auto simp: evolves_def queues_ok_def maps_ok_def push_trigger_def watch_ok_def gray_ok_def)

lemma evolves_trigger [evo]: "evolves a (snd (add_change_trigger_node k v c f a))"
  by (simp add: add_change_trigger_node_def evolves_push)

lemma evolves_gray_state: "(omap_ok (gray_nodes (gray a)) \<Longrightarrow> omap_ok (gray_nodes g)) \<Longrightarrow> evolves a (a\<lparr>gray := g\<rparr>)"
  by (auto simp: evolves_def queues_ok_def maps_ok_def watch_ok_def gray_ok_def trigger_ok_def)

lemma evolves_handles:
  "(omap_ok (ht_handle_idchost a) \<Longrightarrow> omap_ok h) \<Longrightarrow> (omap_ok (ht_idchost_handle a) \<Longrightarrow> omap_ok i) \<Longrightarrow>
    evolves a (a\<lparr>ht_handle_idchost := h, ht_idchost_handle := i\<rparr>)"
  by (auto simp: evolves_def queues_ok_def maps_ok_def watch_ok_def gray_ok_def trigger_ok_def)

lemma notify_path_nodes [simp]: "gray_nodes (with_notify_path h g) = gray_nodes g"
  by (simp add: with_notify_path_def get_notify_path_def)

lemma watch_notify_nodes: "watch_notify_node en h n zh g = (ret, g', n') \<Longrightarrow> gray_nodes g' = gray_nodes g"
  by (auto simp: watch_notify_node_def Let_def split: prod.splits)

lemma evolves_watch_notify [evo]: "evolves a (agent_watch_notify e zh idc a)"
proof -
  obtain ret g n where w: "watch_notify_node (ae_zk e) (ae_host e) (zk_calls a) (Some zh) (gray a) = (ret, g, n)"
    by (metis prod_cases3)
  have "evolves a (a\<lparr>gray := g, zk_calls := n\<rparr>)"
    using evolves_gray_state [of a g] watch_notify_nodes [OF w] by simp
  then show ?thesis using w evolves_trans evolves_gray by (fastforce simp: agent_watch_notify_def Let_def)
qed

lemma evolves_init_env [evo]: "evolves a (init_env_for_zk e zh idc_host idc a)"
proof -
  have 1: "evolves a (a\<lparr>ht_handle_idchost := omap_update zh idc_host (ht_handle_idchost a),
      ht_idchost_handle := omap_update idc_host (Some zh) (ht_idchost_handle a)\<rparr>)"
    by (intro evolves_handles) auto
  show ?thesis
    using evolves_trans [OF 1] evolves_trans [OF _ evolves_watch_notify]
    by (auto simp: init_env_for_zk_def Let_def 1 split: prod.splits intro!: evolves_trans [OF _ evolves_watch_notify])
qed

lemma evolves_zhandle [evo]: "evolves a (snd (get_zhandle_by_idc e idc a))"
  by (auto simp: get_zhandle_by_idc_def Let_def split: prod.splits option.splits intro!: evolves_trans [OF _ evolves_init_env])

lemma evolves_store [evo]: "evolves a (snd (store_value e k v a))"
  by (simp add: store_value_def split: prod.split)

lemma evolves_update [evo]: "evolves a (snd (update_key e k v c a))"
  using evolves_store [of a e k v]
  by (auto simp: update_key_def Let_def split: prod.splits intro!: evolves_trans [OF _ evolves_trigger])

lemma evolves_remove [evo]: "evolves a (snd (remove_key k a))"
  by (auto simp: remove_key_def split: prod.splits intro!: evolves_trans [OF _ evolves_trigger])

lemma evolves_process [evo]:
  "evolves a (snd (process_node e zh k path a))"
  "evolves a (snd (process_service e zh k path a))"
  "evolves a (snd (process_batch e zh k path a))"
  by (auto simp: process_node_def process_service_def process_batch_def Let_def split: prod.splits
      intro!: evolves_trans [OF _ evolves_update] evolves_trans [OF _ evolves_remove])

lemma evolves_read_dump [evo]: "evolves a (snd (read_dump e k a))"
  using evolves_store [of a e k] by (auto simp: read_dump_def split: prod.splits) (metis snd_conv)

lemma evolves_set_watcher [evo]: "evolves a (snd (set_watcher_and_update_tbl e k a))"
proof (cases "is_gray_node k (gray a)")
  case (Some v)
  then show ?thesis
    using evolves_store [of a e k v]
    by (auto simp: set_watcher_and_update_tbl_def Let_def split: prod.splits intro!: evolves_trans [OF _ evolves_trigger])
next
  case None
  obtain d dt idc path where k: "deserialize_from_tblkey k (QCONF_DATA_TYPE_UNKNOWN, [], []) = (d, dt, idc, path)"
    by (metis prod_cases4)
  obtain zh a1 where z: "get_zhandle_by_idc e idc a = (zh, a1)" by fastforce
  have 1: "evolves a a1" using evolves_zhandle [of a e idc] by (simp add: z)
  define r where "r = (if zh = None then (QCONF_ERR_OTHER, a1) else if dt = QCONF_DATA_TYPE_NODE then process_node e zh k path a1
      else if dt = QCONF_DATA_TYPE_SERVICE then process_service e zh k path a1 else process_batch e zh k path a1)"
  have 2: "evolves a1 (snd r)" by (simp add: r_def evo)
  have "snd (set_watcher_and_update_tbl e k a) \<in> {a1, snd r, snd (read_dump e k (snd r))}"
    using None k z by (simp add: set_watcher_and_update_tbl_def r_def split: prod.split)
  then show ?thesis using evolves_trans [OF 1 2] 1 evolves_trans [OF _ evolves_read_dump] by auto
qed

lemma evolves_diff [evo]: "evolves a (snd (diff_with_zk e k v a))"
  using evolves_zhandle [of a e] by (auto simp: diff_with_zk_def split: prod.splits) (metis snd_conv)+

lemma evolves_scan_entry [evo]: "evolves a (scan_entry e k v a)"
proof -
  let ?a1 = "a\<lparr>dump := snd (qconf_dump_set (ae_gdbm e) (dump a) k v)\<rparr>"
  have "evolves a ?a1" by simp
  then have "evolves a (snd (diff_with_zk e k v ?a1))" using evolves_diff evolves_trans by blast
  then show ?thesis
    using evolves_trans [OF _ evolves_watch] by (auto simp: scan_entry_def Let_def split: prod.splits)
qed

lemma evolves_scan_loop [evo]: "evolves a (scan_loop e t m idx k v a)"
proof (induction e t m idx k v a rule: scan_loop.induct)
  case (1 e t m idx k v a)
  show ?case
  proof (cases "idx < m \<and> \<not> stop_watcher_setting a")
    case True
    obtain ret k' v' idx' where g: "hash_tbl_getnext (ae_mem e) (Some t) k v idx = (ret, k', v', idx')" by (metis prod_cases4)
    define a1 where "a1 = (if ret = QCONF_OK then scan_entry e k' v' a else a)"
    have "evolves a a1" by (simp add: a1_def evo)
    moreover have "evolves a1 (scan_loop e t m idx' k' v' a1)" unfolding a1_def using True g by (intro 1) auto
    moreover have "scan_loop e t m idx k v a = scan_loop e t m idx' k' v' a1"
      unfolding a1_def using True g by (subst scan_loop.simps) simp
    ultimately show ?thesis by (metis evolves_trans)
  next
    case False
    then show ?thesis by (subst scan_loop.simps) auto
  qed
qed

lemma evolves_notify_loop [evo]: "evolves a (notify_loop e cs a)"
proof (induction cs arbitrary: a)
  case (Cons c cs)
  have "evolves a (case map_of (ht_idchost_handle a) c of Some (Some zh) \<Rightarrow> agent_watch_notify e zh c a | _ \<Rightarrow> a)"
    by (auto simp: evo split: option.split)
  then show ?case unfolding notify_loop.simps by (rule evolves_trans [OF _ Cons.IH])
qed simp

lemma evolves_process_tbl [evo]: "evolves a (process_tbl e a)"
  by (auto simp: process_tbl_def Let_def evo split: option.split intro!: evolves_trans [OF _ evolves_notify_loop])

lemma evolves_assist [evo]: "evolves a (assist_watcher_process e a)"
  by (auto simp: assist_watcher_process_def Let_def intro!: evolves_trans [OF _ evolves_process_tbl])

lemma evolves_wake [evo]: "evolves a (wake p k a)"
  by (simp add: wake_def evo)

lemma evolves_events [evo]:
  "evolves a (process_deleted_event idc path a)"
  "evolves a (process_created_event idc path a)"
  "evolves a (process_changed_event idc path a)"
  "evolves a (process_child_event idc path a)"
  by (auto simp: process_deleted_event_def process_created_event_def process_changed_event_def process_child_event_def
      Let_def evo split: option.split intro!: evolves_trans [OF _ evolves_wake])

lemma evolves_reconnect [evo]: "evolves a (snd (watcher_reconnect_to_zookeeper e zh a))"
proof -
  have "evolves a (a\<lparr>ht_handle_idchost := omap_erase zh (ht_handle_idchost a),
      ht_idchost_handle := omap_erase h (ht_idchost_handle a), zk_calls := n\<rparr>)" for h n
    using evolves_handles [of a "omap_erase zh (ht_handle_idchost a)" "omap_erase h (ht_idchost_handle a)"] by auto
  then show ?thesis
    by (auto simp: watcher_reconnect_to_zookeeper_def Let_def split: option.splits prod.splits
        intro!: evolves_trans [OF _ evolves_init_env])
qed

lemma evolves_session [evo]: "evolves a (session_event e zh state a)"
  by (auto simp: session_event_def evo split: option.splits prod.splits)

lemma evolves_global [evo]: "evolves a (global_watcher e zh type state path a)"
proof -
  obtain ret idc host where i: "get_idc_by_zhandle zh a = (ret, idc, host)" by (metis prod_cases3)
  let ?a1 = "if (type = CREATED_EVENT_DEF \<or> type = DELETED_EVENT_DEF) \<and> is_notify_node path (gray a) then add_gray_idc idc a else a"
  have 1: "evolves a ?a1" by (simp add: evo)
  have "evolves ?a1 (session_event e zh state ?a1)" "evolves ?a1 (process_child_event idc path ?a1)"
    "evolves ?a1 (process_created_event idc path ?a1)" "evolves ?a1 (process_deleted_event idc path ?a1)"
    "evolves ?a1 (process_changed_event idc path ?a1)" by (rule evo)+
  note after = this [THEN evolves_trans [OF 1]]
  show ?thesis using 1 after unfolding global_watcher_def i Let_def prod.case by auto
qed

lemma evolves_trigger_dump [evo]: "evolves a (trigger_dump e k v c a)"
  by (simp add: trigger_dump_def)

lemma evolves_trigger_script [evo]: "evolves a (trigger_script e dt idc path c a)"
  by (simp add: trigger_script_def Let_def split: prod.split)

lemma evolves_feedback [evo]: "evolves a (trigger_feedback e dt idc path k v a)"
proof -
  obtain zh a1 where z: "get_zhandle_by_idc e idc a = (zh, a1)" by fastforce
  have "evolves a a1" using evolves_zhandle [of a e idc] by (simp add: z)
  then show ?thesis
    by (auto simp: trigger_feedback_def z Let_def split: prod.split intro!: evolves_trans [OF _ evolves_trigger])
qed

lemma take_trigger_evolves:
  assumes "take_trigger a = Some (k, v, a')"
  shows "evolves a a'"
proof (cases "need_trigger_nodes a")
  case Nil
  then show ?thesis using assms by (simp add: take_trigger_def)
next
  case (Cons k' ks)
  then have a': "a' = a\<lparr>need_trigger_nodes := ks, exist_trigger_nodes := (exist_trigger_nodes a)(k' := None)\<rparr>"
    using assms by (auto simp: take_trigger_def split: option.splits)
  have "trigger_ok a \<Longrightarrow> trigger_ok a'" using Cons a' by (auto simp: trigger_ok_def)
  then show ?thesis using a' by (auto simp: evolves_def queues_ok_def maps_ok_def watch_ok_def gray_ok_def)
qed

lemma evolves_change_trigger: "change_trigger_process e a = Some a' \<Longrightarrow> evolves a a'"
  by (auto simp: change_trigger_process_def Let_def split: option.splits prod.splits if_splits dest!: take_trigger_evolves
      intro!: evolves_trans [OF _ evolves_feedback] evolves_trans [OF _ evolves_trigger_dump]
        evolves_trans [OF _ evolves_trigger_script])

lemma trigger_ok_frame [simp]:
  "trigger_ok (a\<lparr>need_watch_nodes := x\<rparr>) = trigger_ok a" "trigger_ok (a\<lparr>exist_watch_nodes := y\<rparr>) = trigger_ok a"
  "trigger_ok (a\<lparr>need_gray_idcs := x\<rparr>) = trigger_ok a" "trigger_ok (a\<lparr>exist_gray_idcs := y\<rparr>) = trigger_ok a"
  "trigger_ok (a\<lparr>pending_nodes := y\<rparr>) = trigger_ok a"
  by (simp_all add: trigger_ok_def)

lemma take_gray_evolves: "take_gray a = (k, a') \<Longrightarrow> evolves a a'"
  by (auto simp: take_gray_def evolves_def queues_ok_def maps_ok_def watch_ok_def gray_ok_def split: list.splits)

lemma gray_set_ok: "omap_ok (gray_nodes g) \<Longrightarrow> omap_ok (gray_nodes (gray_nodes_set ns g))"
proof -
  have "omap_ok m \<Longrightarrow> omap_ok (fold (\<lambda>(k, v). omap_insert k v) ns m)" for m
    by (induction ns arbitrary: m) auto
  then show "omap_ok (gray_nodes g) \<Longrightarrow> ?thesis" by (simp add: gray_nodes_set_def)
qed

lemma gray_process_ok:
  "gray_process en h n zh idc ns g = Some (ret, ns', g', n') \<Longrightarrow> omap_ok (gray_nodes g) \<Longrightarrow> omap_ok (gray_nodes g')"
  by (auto simp: gray_process_def Let_def gray_nodes_clear_def gray_set_ok split: if_splits prod.splits option.splits
      dest: watch_notify_nodes)

lemma evolves_watch_all: "evolves a (fold (\<lambda>(k, v). add_watcher_node k) ns a)"
proof (induction ns arbitrary: a)
  case (Cons p ns)
  have "evolves a (case p of (k, v) \<Rightarrow> add_watcher_node k a)" by (simp add: evolves_watch split: prod.split)
  then show ?case using evolves_trans [OF _ Cons.IH] by (simp add: case_prod_beta)
qed simp

lemma evolves_gray_process:
  assumes "do_gray_process e a = Some a'"
  shows "evolves a a'"
proof -
  obtain idc a1 where t: "take_gray a = (idc, a1)" by fastforce
  obtain zh a2 where z: "get_zhandle_by_idc e idc a1 = (zh, a2)" by fastforce
  have 2: "evolves a a1" "evolves a1 a2" using take_gray_evolves [OF t] evolves_zhandle [of a1 e idc] by (simp_all add: z)
  show ?thesis
  proof (cases "idc = []")
    case True
    then show ?thesis using assms t 2(1) by (simp add: do_gray_process_def)
  next
    case False
    then obtain ret ns g n where g: "gray_process (ae_zk e) (ae_host e) (zk_calls a2) zh idc [] (gray a2) = Some (ret, ns, g, n)"
      and a': "a' = fold (\<lambda>(k, v). add_watcher_node k) ns (a2\<lparr>gray := g, zk_calls := n\<rparr>)"
      using assms t z by (auto simp: do_gray_process_def split: option.splits)
    have 3: "evolves a2 (a2\<lparr>gray := g, zk_calls := n\<rparr>)"
      using evolves_gray_state [of a2 g] gray_process_ok [OF g] by simp
    show ?thesis unfolding a'
      by (rule evolves_trans [OF evolves_trans [OF evolves_trans [OF 2] 3] evolves_watch_all])
  qed
qed

lemma evolves_msg: "msg_process msgrcv msgget msgkey key a = Some (key', a') \<Longrightarrow> evolves a a'"
  by (auto simp: msg_process_def evo split: prod.splits if_splits)

section \<open>The threads together\<close>

text \<open>
  A state is the key that the main thread works on, if any, and the static variables.  Every rule is
  a step of one thread (or of the ZooKeeper library, which calls \<open>global_watcher\<close>); the environment may
  differ from step to step.  The main thread waits for a key unless it is stopped.
\<close>

type_synonym agent_sys = "string option \<times> agent"

inductive agent_step :: "agent_sys \<Rightarrow> agent_sys \<Rightarrow> bool" where
  step_msg: "msg_process msgrcv msgget msgkey key a = Some (key', a') \<Longrightarrow> agent_step (m, a) (m, a')"
| step_work: "agent_step (Some k, a) (None, deque_work e k a)"
| step_scan: "agent_step (m, a) (m, assist_watcher_process e a)"
| step_event: "agent_step (m, a) (m, global_watcher e zh type state path a)"
| step_trigger: "change_trigger_process e a = Some a' \<Longrightarrow> agent_step (m, a) (m, a')"
| step_gray: "do_gray_process e a = Some a' \<Longrightarrow> agent_step (m, a) (m, a')"
| step_stop: "agent_step (m, a) (m, fst (qconf_thread_exit msgsnd n a))"

inductive agent_take :: "agent_sys \<Rightarrow> string \<Rightarrow> agent_sys \<Rightarrow> bool" where
  take_key: "need_watch_nodes a \<noteq> [] \<or> stop_watcher_setting a \<Longrightarrow> deque_take a = (k, a') \<Longrightarrow> agent_take (None, a) k (Some k, a')"

text \<open>A run, with the keys that the main thread takes.\<close>

inductive agent_run :: "agent_sys \<Rightarrow> string list \<Rightarrow> agent_sys \<Rightarrow> bool" where
  run_start: "agent_run s [] s"
| run_step: "agent_run s ks s1 \<Longrightarrow> agent_step s1 s2 \<Longrightarrow> agent_run s ks s2"
| run_take: "agent_run s ks s1 \<Longrightarrow> agent_take s1 k s2 \<Longrightarrow> agent_run s (if k = [] then ks else ks @ [k]) s2"

definition sys_inv :: "agent_sys \<Rightarrow> bool" where
  "sys_inv = (\<lambda>(m, a). queues_ok a \<and> pending_nodes a = set_option m)"

definition sys_start :: "agent_sys \<Rightarrow> bool" where
  "sys_start = (\<lambda>(m, a). m = None \<and> pending_nodes a = {} \<and> need_watch_nodes a = [] \<and> exist_watch_nodes a = {}
     \<and> need_gray_idcs a = [] \<and> exist_gray_idcs a = {} \<and> need_trigger_nodes a = [] \<and> exist_trigger_nodes a = Map.empty
     \<and> ht_idchost_handle a = [] \<and> ht_handle_idchost a = [] \<and> gray_nodes (gray a) = [])"

lemma start_inv: "sys_start s \<Longrightarrow> sys_inv s"
  by (cases s) (simp add: sys_start_def sys_inv_def queues_ok_def watch_ok_def gray_ok_def trigger_ok_def maps_ok_def)

lemma inv_evolves: "sys_inv (m, a) \<Longrightarrow> evolves a a' \<Longrightarrow> sys_inv (m, a') \<and> prefix (need_watch_nodes a) (need_watch_nodes a')"
  by (auto simp: sys_inv_def evolves_def)

lemma deque_work_evolves:
  obtains b where "deque_work e k a = del_pending_node k b" "evolves a b"
proof -
  have "evolves a (if k \<noteq> [] then snd (set_watcher_and_update_tbl e k a) else a)" by (simp add: evo)
  then show thesis using that by (simp add: deque_work_def)
qed

lemma del_pending_frame [simp]:
  "queues_ok (del_pending_node k a) = queues_ok a" "need_watch_nodes (del_pending_node k a) = need_watch_nodes a"
  "pending_nodes (del_pending_node k a) = pending_nodes a - {k}"
  by (simp_all add: del_pending_node_def queues_ok_def watch_ok_def gray_ok_def trigger_ok_def maps_ok_def)

lemma stop_frame [simp]:
  "queues_ok (fst (qconf_thread_exit msgsnd n a)) = queues_ok a"
  "need_watch_nodes (fst (qconf_thread_exit msgsnd n a)) = need_watch_nodes a"
  "pending_nodes (fst (qconf_thread_exit msgsnd n a)) = pending_nodes a"
  by (simp_all add: qconf_thread_exit_def queues_ok_def watch_ok_def gray_ok_def trigger_ok_def maps_ok_def)

lemma step_inv:
  assumes "agent_step s s'" "sys_inv s"
  shows "sys_inv s' \<and> prefix (need_watch_nodes (snd s)) (need_watch_nodes (snd s'))"
  using assms
proof (cases rule: agent_step.cases)
  case (step_work k a e)
  obtain b where b: "deque_work e k a = del_pending_node k b" "evolves a b" by (rule deque_work_evolves)
  then show ?thesis using step_work assms(2) inv_evolves [of "Some k" a b] by (auto simp: sys_inv_def)
next
  case (step_stop m a msgsnd n)
  then show ?thesis using assms(2) by (simp add: sys_inv_def)
qed (use assms(2) inv_evolves in \<open>auto intro: evo dest: evolves_msg evolves_change_trigger evolves_gray_process\<close>)

lemma take_inv:
  assumes "agent_take s k s'" "sys_inv s"
  shows "sys_inv s' \<and> need_watch_nodes (snd s) = (if k = [] then [] else [k]) @ need_watch_nodes (snd s')
    \<and> fst s' = Some k"
  using assms
proof (cases rule: agent_take.cases)
  case (take_key a a')
  have q: "queues_ok a" "pending_nodes a = {}" using assms(2) take_key by (auto simp: sys_inv_def)
  show ?thesis
  proof (cases "need_watch_nodes a")
    case Nil
    then show ?thesis using take_key q
      by (auto simp: deque_take_def take_watch_def add_pending_node_def sys_inv_def queues_ok_def watch_ok_def gray_ok_def
          maps_ok_def)
  next
    case (Cons k' ks)
    then show ?thesis using take_key q
      by (auto simp: deque_take_def take_watch_def add_pending_node_def sys_inv_def queues_ok_def watch_ok_def gray_ok_def
          maps_ok_def)
  qed
qed

lemma run_inv:
  assumes "agent_run s ks s'" "sys_inv s"
  shows "sys_inv s' \<and> (\<exists>new. need_watch_nodes (snd s) @ new = ks @ need_watch_nodes (snd s'))"
  using assms
proof (induction rule: agent_run.induct)
  case (run_start s)
  then show ?case by simp
next
  case (run_step s ks s1 s2)
  then obtain new where n: "need_watch_nodes (snd s) @ new = ks @ need_watch_nodes (snd s1)" and "sys_inv s1" by blast
  from step_inv [OF run_step.hyps(2) this(2)] obtain more where
    "sys_inv s2" "need_watch_nodes (snd s2) = need_watch_nodes (snd s1) @ more" by (auto simp: prefix_def)
  moreover have "need_watch_nodes (snd s) @ (new @ more) = ks @ (need_watch_nodes (snd s1) @ more)" using n by simp
  ultimately show ?case by metis
next
  case (run_take s ks s1 k s2)
  then obtain new where n: "need_watch_nodes (snd s) @ new = ks @ need_watch_nodes (snd s1)" and i: "sys_inv s1" by blast
  from take_inv [OF run_take.hyps(2) i] n show ?case by (auto intro!: exI [of _ new])
qed

section \<open>Properties of the threads\<close>

lemma run_from_start:
  assumes "sys_start s0" "agent_run s0 hist s"
  shows "sys_inv s"
  using run_inv [OF assms(2) start_inv [OF assms(1)]] by blast

text \<open>
  C11: In every state that the threads of the agent can reach, each queue holds a key at most once and
  agrees with its set of members, and the pending set is the key that the main thread works on; so the
  trigger thread always finds the value of the key that it takes.
\<close>

theorem agent_queues_consistent:
  assumes "sys_start s0" and "agent_run s0 hist (m, a)"
  shows "distinct (need_watch_nodes a) \<and> exist_watch_nodes a = set (need_watch_nodes a)
    \<and> distinct (need_gray_idcs a) \<and> exist_gray_idcs a = set (need_gray_idcs a)
    \<and> distinct (need_trigger_nodes a) \<and> dom (exist_trigger_nodes a) = set (need_trigger_nodes a)
    \<and> pending_nodes a = set_option m
    \<and> change_trigger_process e a \<noteq> None"
proof -
  have i: "queues_ok a" "pending_nodes a = set_option m" using run_from_start [OF assms] by (simp_all add: sys_inv_def)
  have t: "trigger_ok a" using i(1) by (simp add: queues_ok_def)
  have "take_trigger a \<noteq> None"
    using trigger_queue.pop_defined [OF t] by (cases "need_trigger_nodes a") (auto simp: take_trigger_def)
  then have "change_trigger_process e a \<noteq> None"
    by (auto simp: change_trigger_process_def Let_def split: prod.split)
  then show ?thesis using i t by (auto simp: queues_ok_def watch_ok_def gray_ok_def trigger_ok_def)
qed

text \<open>
  C13: Requests are served in order and none is dropped: whatever the threads do, the keys that the main
  thread takes are those of its queue, followed by keys added since; in particular the key at
  position \<open>i\<close> is the \<open>i\<close>-th one taken.
\<close>

theorem requests_served_in_order:
  assumes "sys_start s0" and "agent_run s0 hist (m, a)" and "agent_run (m, a) ks (m', a')"
  shows "(\<exists>new. need_watch_nodes a @ new = ks @ need_watch_nodes a')
    \<and> (\<forall>i < length ks. i < length (need_watch_nodes a) \<longrightarrow> ks ! i = need_watch_nodes a ! i)"
proof -
  obtain new where n: "need_watch_nodes a @ new = ks @ need_watch_nodes a'"
    using run_inv [OF assms(3) run_from_start [OF assms(1,2)]] by auto
  moreover have "ks ! i = need_watch_nodes a ! i" if "i < length ks" "i < length (need_watch_nodes a)" for i
    using that arg_cong [OF n, of "\<lambda>xs. xs ! i"] by (simp add: nth_append)
  ultimately show ?thesis by blast
qed

lemma serialize_nonempty: "snd (serialize_to_tblkey dt idc path) \<noteq> []"
  by (simp add: serialize_to_tblkey_def Let_def qconf_append_path_def qconf_append_idc_def qconf_string_append_def)

lemma evolves_keeps: "evolves a b \<Longrightarrow> queues_ok a \<Longrightarrow> k \<in> set (need_watch_nodes a) \<Longrightarrow> k \<in> set (need_watch_nodes b)"
  by (auto simp: evolves_def prefix_def)

lemma wake_queues:
  assumes "queues_ok a" "k \<noteq> []" "k \<in> pending_nodes a \<or> hash_tbl_exist (shm_tbl a) k"
  shows "k \<in> set (need_watch_nodes (wake k k a))"
  using assms watch_queue.push_mem [of a k] by (auto simp: wake_def pending_node_exist_def queues_ok_def)

lemma wake_frame [simp]: "pending_nodes (wake p k a) = pending_nodes a" "shm_tbl (wake p k a) = shm_tbl a"
  by (simp_all add: wake_def add_watcher_node_def)

lemma gray_idc_frame [simp]: "pending_nodes (add_gray_idc k a) = pending_nodes a" "shm_tbl (add_gray_idc k a) = shm_tbl a"
  by (simp_all add: add_gray_idc_def)

text \<open>The data types that an event of ZooKeeper concerns.\<close>

definition concerns :: "int \<Rightarrow> char \<Rightarrow> bool" where
  "concerns type dt \<longleftrightarrow>
     type = CHANGED_EVENT_DEF \<and> dt = QCONF_DATA_TYPE_NODE
   \<or> type = CHILD_EVENT_DEF \<and> dt \<in> {QCONF_DATA_TYPE_SERVICE, QCONF_DATA_TYPE_BATCH_NODE}
   \<or> type = DELETED_EVENT_DEF \<and> dt \<in> {QCONF_DATA_TYPE_NODE, QCONF_DATA_TYPE_SERVICE, QCONF_DATA_TYPE_BATCH_NODE}"

lemma wake_chain:
  assumes "queues_ok a" "k = snd (serialize_to_tblkey dt idc path)" "k \<in> pending_nodes a \<or> hash_tbl_exist (shm_tbl a) k"
  shows "concerns CHANGED_EVENT_DEF dt \<Longrightarrow> k \<in> set (need_watch_nodes (process_changed_event idc path a))"
    and "concerns CHILD_EVENT_DEF dt \<Longrightarrow> k \<in> set (need_watch_nodes (process_child_event idc path a))"
    and "concerns DELETED_EVENT_DEF dt \<Longrightarrow> k \<in> set (need_watch_nodes (process_deleted_event idc path a))"
proof -
  have ne: "k \<noteq> []" unfolding assms(2) by (rule serialize_nonempty)
  have w: "k \<in> set (need_watch_nodes (wake k k b))" if "evolves a b" "pending_nodes b = pending_nodes a" "shm_tbl b = shm_tbl a" for b
    using that assms(1,3) ne by (intro wake_queues) (auto simp: evolves_def)
  have ok: "queues_ok b" if "evolves a b" for b using that assms(1) by (simp add: evolves_def)
  have step: "k \<in> set (need_watch_nodes (wake p q b))" if "k \<in> set (need_watch_nodes b)" "evolves a b" for p q b
    using evolves_keeps [OF evolves_wake ok] that by blast
  have e: "evolves a (wake p q a)" "evolves a (wake p q (wake p' q' a))" for p q p' q'
    using evolves_wake evolves_trans by blast+
  show "concerns CHANGED_EVENT_DEF dt \<Longrightarrow> k \<in> set (need_watch_nodes (process_changed_event idc path a))"
    using w [of a] step e assms(2) by (auto simp: process_changed_event_def concerns_def Let_def split: option.split)
  show "concerns CHILD_EVENT_DEF dt \<Longrightarrow> k \<in> set (need_watch_nodes (process_child_event idc path a))"
    using w step e assms(2) by (auto simp: process_child_event_def concerns_def Let_def)
  show "concerns DELETED_EVENT_DEF dt \<Longrightarrow> k \<in> set (need_watch_nodes (process_deleted_event idc path a))"
    using w step e assms(2) by (auto simp: process_deleted_event_def concerns_def Let_def)
qed

text \<open>
  C14: When ZooKeeper reports an event that concerns a key which is in the table, or which the main
  thread is just reading, the key is queued (again) and will be read after the event.  (This is about
  the key of the reported node itself.  The service of the parent is not covered: a change of the
  state of a child can be missed while its service is read for the first time.)
\<close>

theorem event_requeues:
  assumes "sys_start s0" and "agent_run s0 hist (m, a)"
    and "get_idc_by_zhandle zh a = (QCONF_OK, idc, host)" and "concerns type dt"
    and "k = snd (serialize_to_tblkey dt idc path)" and "m = Some k \<or> hash_tbl_exist (shm_tbl a) k"
  shows "k \<in> set (need_watch_nodes (global_watcher e zh type state path a))"
proof -
  have i: "queues_ok a" "k \<in> pending_nodes a \<or> hash_tbl_exist (shm_tbl a) k"
    using run_from_start [OF assms(1,2)] assms(6) by (auto simp: sys_inv_def)
  define b where "b = (if (type = CREATED_EVENT_DEF \<or> type = DELETED_EVENT_DEF) \<and> is_notify_node path (gray a) then add_gray_idc idc a else a)"
  have "evolves a b" by (simp add: b_def evo)
  then have b: "queues_ok b" "k \<in> pending_nodes b \<or> hash_tbl_exist (shm_tbl b) k"
    using i by (auto simp: evolves_def b_def)
  show ?thesis
    using wake_chain [OF b(1) assms(5) b(2)] assms(4)
    unfolding global_watcher_def assms(3) prod.case Let_def b_def [symmetric] by (auto simp: concerns_def)
qed

text \<open>An agent and an environment in which nothing has happened yet, for the witnesses.\<close>

definition idle_agent :: "qhasharr_s option \<Rightarrow> agent" where
  "idle_agent t = \<lparr>shm_tbl = t, lru = new_LRU, dump = Map.empty, register_node_path = ''/r/h'', stop_watcher_setting = False,
     fb_enable = False, finish_process_tbl_sleep_setting = True, local_idc = ''i'', ht_idchost_handle = [],
     ht_handle_idchost = [], need_watch_nodes = [], exist_watch_nodes = {}, pending_nodes = {}, need_gray_idcs = [],
     exist_gray_idcs = {}, need_trigger_nodes = [], exist_trigger_nodes = Map.empty,
     gray = \<lparr>notify_node = ''/n/h'', gray_nodes = []\<rparr>, feedback_ip = [], zk_calls = 0, scripts_run = [], feedback_sent = []\<rparr>"

definition plain_env :: "zk_env \<Rightarrow> agent_env" where
  "plain_env zk = \<lparr>ae_mem = \<lambda>_. True, ae_zk = zk, ae_gdbm = mem_gdbm,
     ae_conf = \<lparr>agent_conf_map = Map.empty, idc_conf_map = [''i'' \<mapsto> ''1.1.1.1:1'']\<rparr>, ae_host = ''h'',
     ae_readable = \<lambda>_. False, ae_read_file = \<lambda>_. None, ae_script_dir = ''/script/'', ae_sock = \<lambda>_. None, ae_now = 0,
     ae_curl_ready = False, ae_curl = \<lambda>_ _. (False, []), ae_internal = False\<rparr>"

lemma idle_start: "sys_start (None, idle_agent t)"
  by (simp add: sys_start_def idle_agent_def)

lemma run_msg: "agent_run s ks (m, a) \<Longrightarrow> \<not> stop_watcher_setting a \<Longrightarrow> agent_run s ks (m, add_watcher_node k a)"
  by (erule run_step) (rule step_msg [where msgrcv = "Inr k" and key = "[]"], simp add: msg_process_def receive_msg_def)

lemma run_take_key:
  assumes "agent_run s ks (None, a)" "need_watch_nodes a = k # rest" "k \<noteq> []"
  shows "agent_run s (ks @ [k]) (Some k, snd (deque_take a))"
proof -
  have "deque_take a = (k, snd (deque_take a))" using assms(2) by (simp add: deque_take_def take_watch_def)
  then have "agent_take (None, a) k (Some k, snd (deque_take a))" using assms(2) by (intro take_key) auto
  from run_take [OF assms(1) this] show ?thesis using assms(3) by simp
qed

theorem agent_queues_consistent_witness:
  "change_trigger_process (plain_env (zk_static Map.empty Map.empty)) (add_watcher_node ''2k'' (idle_agent None)) \<noteq> None"
  using agent_queues_consistent [OF idle_start [of None] run_msg [OF run_start, of "idle_agent None" None "''2k''"]]
  by (simp add: idle_agent_def)

theorem requests_served_in_order_witness:
  "\<exists>a'. agent_run (None, add_watcher_node ''2k'' (idle_agent None)) [''2k''] (Some ''2k'', a')
     \<and> [''2k''] ! 0 = need_watch_nodes (add_watcher_node ''2k'' (idle_agent None)) ! 0"
proof -
  let ?a = "add_watcher_node ''2k'' (idle_agent None)"
  have n: "need_watch_nodes ?a = [''2k'']" by (simp add: add_watcher_node_def idle_agent_def)
  have r1: "agent_run (None, idle_agent None) [] (None, ?a)"
    by (rule run_msg [OF run_start]) (simp add: idle_agent_def)
  have r2: "agent_run (None, ?a) ([] @ [''2k'']) (Some ''2k'', snd (deque_take ?a))"
    by (rule run_take_key [OF run_start n]) simp
  show ?thesis using requests_served_in_order [OF idle_start r1 r2] r2 n by (intro exI conjI) simp_all
qed

text \<open>After a first request for a node that does not exist, over a connection that is still being set up.\<close>

definition joining_zk :: zk_env where
  "joining_zk = (zk_static Map.empty Map.empty)\<lparr>zoo_state := \<lambda>_ _. 1\<rparr>"

definition asked_once :: agent where
  "asked_once = deque_process (plain_env joining_zk) (add_watcher_node (node_tblkey ''i'' ''/p'') (idle_agent None))"

lemma idc_host_rt:
  assumes "length idc < 256" "length host < 65536"
  shows "deserialize_from_idc_host (serialize_to_idc_host idc host) outs = (QCONF_OK, idc, host)"
  using idc_hostf.sub_pair [OF assms, of "[]" "[]"]
  by (cases outs) (simp add: deserialize_from_idc_host_def serialize_to_idc_host_def)

lemma asked_once:
  "map_of (ht_handle_idchost asked_once) 1 = Some (serialize_to_idc_host ''i'' ''1.1.1.1:1'')"
  "need_watch_nodes asked_once = []" "exist_watch_nodes asked_once = {}" "\<not> stop_watcher_setting asked_once"
proof -
  let ?k = "node_tblkey ''i'' ''/p''" and ?e = "plain_env joining_zk"
  have d: "deserialize_from_tblkey ?k (QCONF_DATA_TYPE_UNKNOWN, [], []) = (QCONF_OK, QCONF_DATA_TYPE_NODE, ''i'', ''/p'')"
    by (rule tblkey_rt) simp_all
  define a where "a = snd (deque_take (add_watcher_node ?k (idle_agent None)))"
  have a: "deque_take (add_watcher_node ?k (idle_agent None)) = (?k, a)" "ht_idchost_handle a = []" "gray_nodes (gray a) = []" "shm_tbl a = None"
    "need_watch_nodes a = []" "exist_watch_nodes a = {}" "\<not> stop_watcher_setting a"
    using serialize_nonempty
    by (simp_all add: a_def deque_take_def take_watch_def add_watcher_node_def add_pending_node_def idle_agent_def)
  define b where "b = snd (get_zhandle_by_idc ?e ''i'' a)"
  have b: "get_zhandle_by_idc ?e ''i'' a = (Some 1, b)" "map_of (ht_handle_idchost b) 1 = Some (serialize_to_idc_host ''i'' ''1.1.1.1:1'')"
    "shm_tbl b = None" "need_watch_nodes b = []" "exist_watch_nodes b = {}" "\<not> stop_watcher_setting b"
    using a by (simp_all add: b_def get_zhandle_by_idc_def plain_env_def get_idc_conf_def joining_zk_def zk_static_def Let_def
        init_env_for_zk_def)
  have "zk_get_node (ae_zk ?e) n zh ''/p'' [] = (QCONF_NODE_NOT_EXIST, [], n + 1)" for n zh
    by (rule get_node_absent) (simp_all add: plain_env_def joining_zk_def zk_static_def)
  then have p: "process_node ?e (Some 1) ?k ''/p'' b = remove_key ?k (b\<lparr>zk_calls := zk_calls b + 1\<rparr>)"
    by (simp add: process_node_def Let_def)
  define c where "c = snd (process_node ?e (Some 1) ?k ''/p'' b)"
  have c: "process_node ?e (Some 1) ?k ''/p'' b = (QCONF_ERR_PARAM, c)" "ht_handle_idchost c = ht_handle_idchost b"
    "need_watch_nodes c = []" "exist_watch_nodes c = {}" "\<not> stop_watcher_setting c"
    unfolding c_def p using b by (simp_all add: remove_key_def hash_tbl_remove_def add_change_trigger_node_def push_trigger_def)
  have once: "asked_once = del_pending_node ?k c"
    using a b d c(1) serialize_nonempty
    by (simp add: asked_once_def deque_process_def deque_work_def set_watcher_and_update_tbl_def is_gray_node_def)
  show "map_of (ht_handle_idchost asked_once) 1 = Some (serialize_to_idc_host ''i'' ''1.1.1.1:1'')"
    "need_watch_nodes asked_once = []" "exist_watch_nodes asked_once = {}" "\<not> stop_watcher_setting asked_once"
    unfolding once using b c by (simp_all add: del_pending_node_def)
qed

lemma asked_again:
  fixes k :: string
  defines "k \<equiv> node_tblkey ''i'' ''/p''"
  shows "agent_run (None, idle_agent None) [k, k] (Some k, snd (deque_take (add_watcher_node k asked_once)))"
proof -
  have k: "k \<noteq> []" unfolding k_def by (rule serialize_nonempty)
  have r1: "agent_run (None, idle_agent None) [] (None, add_watcher_node k (idle_agent None))"
    by (rule run_msg [OF run_start]) (simp add: idle_agent_def)
  have n1: "need_watch_nodes (add_watcher_node k (idle_agent None)) = [k]" using k by (simp add: add_watcher_node_def idle_agent_def)
  have r2: "agent_run (None, idle_agent None) [k] (None, deque_work (plain_env joining_zk) k (snd (deque_take (add_watcher_node k (idle_agent None)))))"
    using run_step [OF run_take_key [OF r1 n1 k] step_work] by simp
  have "fst (deque_take (add_watcher_node k (idle_agent None))) = k" using n1 by (simp add: deque_take_def take_watch_def)
  then have "agent_run (None, idle_agent None) [k] (None, asked_once)"
    using r2 by (simp add: asked_once_def deque_process_def k_def case_prod_beta)
  then have r3: "agent_run (None, idle_agent None) [k] (None, add_watcher_node k asked_once)"
    using asked_once(4) by (rule run_msg)
  have n3: "need_watch_nodes (add_watcher_node k asked_once) = [k]" using k asked_once by (simp add: add_watcher_node_def)
  show ?thesis using run_take_key [OF r3 n3 k] by simp
qed

theorem event_requeues_witness:
  "node_tblkey ''i'' ''/p'' \<in> set (need_watch_nodes (global_watcher (plain_env joining_zk) 1 CHANGED_EVENT_DEF 3 ''/p''
      (snd (deque_take (add_watcher_node (node_tblkey ''i'' ''/p'') asked_once)))))"
proof -
  let ?a = "snd (deque_take (add_watcher_node (node_tblkey ''i'' ''/p'') asked_once))"
  have "ht_handle_idchost ?a = ht_handle_idchost asked_once"
    by (simp add: deque_take_def take_watch_def add_watcher_node_def add_pending_node_def split: list.split)
  then have "get_idc_by_zhandle 1 ?a = (QCONF_OK, ''i'', ''1.1.1.1:1'')"
    using asked_once(1) idc_host_rt [of "''i''" "''1.1.1.1:1''"] by (simp add: get_idc_by_zhandle_def)
  then show ?thesis
    by (rule event_requeues [OF idle_start asked_again, where dt = QCONF_DATA_TYPE_NODE]) (simp_all add: concerns_def)
qed

end
