(* ===== verification/QAgentThms.thy ===== *)
theory QAgentThms
  imports QWatcherThms
begin

text \<open>
  What the main thread makes of a key, what an event does not reach, and what the dump holds.
\<close>

section \<open>Frames\<close>

lemma watch_notify_frame [simp]:
  "shm_tbl (agent_watch_notify e zh idc a) = shm_tbl a" "lru (agent_watch_notify e zh idc a) = lru a"
  "dump (agent_watch_notify e zh idc a) = dump a"
  "need_trigger_nodes (agent_watch_notify e zh idc a) = need_trigger_nodes a"
  "exist_trigger_nodes (agent_watch_notify e zh idc a) = exist_trigger_nodes a"
  by (simp_all add: agent_watch_notify_def add_gray_idc_def Let_def split: prod.split)

lemma init_env_frame [simp]:
  "shm_tbl (init_env_for_zk e zh h idc a) = shm_tbl a" "lru (init_env_for_zk e zh h idc a) = lru a"
  "dump (init_env_for_zk e zh h idc a) = dump a"
  "need_trigger_nodes (init_env_for_zk e zh h idc a) = need_trigger_nodes a"
  "exist_trigger_nodes (init_env_for_zk e zh h idc a) = exist_trigger_nodes a"
  by (simp_all add: init_env_for_zk_def Let_def split: prod.split)

lemma zhandle_frame:
  assumes "get_zhandle_by_idc e idc a = (zh, a1)"
  shows "shm_tbl a1 = shm_tbl a" "lru a1 = lru a" "dump a1 = dump a" "need_trigger_nodes a1 = need_trigger_nodes a"
    "exist_trigger_nodes a1 = exist_trigger_nodes a"
  using assms by (auto simp: get_zhandle_by_idc_def Let_def split: if_splits prod.splits option.splits)

section \<open>Updating a node\<close>

text \<open>The value can be stored, evicting other keys if necessary: the LRU list tracks every key but the
  local IDC, and the slots beside the entry of the local IDC suffice for the value.\<close>

definition storable :: "qhasharr_s \<Rightarrow> LRU \<Rightarrow> string \<Rightarrow> string \<Rightarrow> bool" where
  "storable t l key val \<longleftrightarrow> set_ok t l key val \<and> covered t l \<and> pinned t + nblocks (frame val) \<le> maxslots t"

lemma hash_tbl_set_table: "hash_tbl_set mem (Some t) l key val = (ret, tbl', l') \<Longrightarrow> \<exists>t'. tbl' = Some t'"
  by (auto simp: hash_tbl_set_def split: if_splits prod.splits)

lemma store_value_get:
  assumes "shm_tbl a = Some t" "\<forall>n. ae_mem e n" "storable t (lru a) key val"
  obtains ret a' where "store_value e key val a = (ret, a')" "ret = QCONF_OK \<or> ret = QCONF_ERR_SAME_VALUE"
    "hash_tbl_get (ae_mem e) (shm_tbl a') key [] = (QCONF_OK, val)"
    "ret = QCONF_ERR_SAME_VALUE \<longrightarrow> hash_tbl_get (ae_mem e) (Some t) key [] = (QCONF_OK, val)"
    "need_trigger_nodes a' = need_trigger_nodes a" "exist_trigger_nodes a' = exist_trigger_nodes a"
proof -
  obtain ret t' l' where s: "hash_tbl_set (ae_mem e) (Some t) (lru a) key val = (ret, Some t', l')"
    using hash_tbl_set_table by (metis prod_cases3)
  have ok: "set_ok t (lru a) key val" using assms(3) by (simp add: storable_def)
  have r: "ret = QCONF_OK \<or> ret = QCONF_ERR_SAME_VALUE"
    using set_always [of t "lru a" key val "ae_mem e"] assms(3) s by (auto simp: storable_def)
  have "hash_tbl_get (ae_mem e) (Some t') key [] = (QCONF_OK, val)"
    using set_get_rt [OF ok assms(2) s r] by blast
  moreover have "ret = QCONF_ERR_SAME_VALUE \<longrightarrow> hash_tbl_get (ae_mem e) (Some t) key [] = (QCONF_OK, val)"
    using s by (auto simp: hash_tbl_set_def hash_tbl_set_raw_def split: if_splits prod.splits sum.splits)
  ultimately show thesis using that [of ret "a\<lparr>shm_tbl := Some t', lru := l'\<rparr>"] r assms(1) s by (simp add: store_value_def)
qed

lemma update_key_get:
  assumes "shm_tbl a = Some t" "\<forall>n. ae_mem e n" "storable t (lru a) key val" "trigger_ok a" "key \<noteq> []"
  obtains a' where "update_key e key val chds a = (QCONF_OK, a')" "hash_tbl_get (ae_mem e) (shm_tbl a') key [] = (QCONF_OK, val)"
    "hash_tbl_get (ae_mem e) (Some t) key [] = (QCONF_OK, val) \<or> QCONF_TRIGGER_TYPE_ADD_OR_MODIFY # key \<in> set (need_trigger_nodes a')"
proof -
  obtain ret a1 where s: "store_value e key val a = (ret, a1)" "ret = QCONF_OK \<or> ret = QCONF_ERR_SAME_VALUE"
    "hash_tbl_get (ae_mem e) (shm_tbl a1) key [] = (QCONF_OK, val)"
    "ret = QCONF_ERR_SAME_VALUE \<longrightarrow> hash_tbl_get (ae_mem e) (Some t) key [] = (QCONF_OK, val)"
    "need_trigger_nodes a1 = need_trigger_nodes a" "exist_trigger_nodes a1 = exist_trigger_nodes a"
    by (rule store_value_get [OF assms(1-3)])
  have t: "trigger_ok a1" using assms(4) s(5,6) by (simp add: trigger_ok_def)
  have "QCONF_TRIGGER_TYPE_ADD_OR_MODIFY # key \<in> set (need_trigger_nodes (push_trigger (QCONF_TRIGGER_TYPE_ADD_OR_MODIFY # key) v a1))" for v
    by (rule trigger_queue.push_mem [OF t]) simp
  moreover have "shm_tbl (push_trigger k v a1) = shm_tbl a1" for k v by (simp add: push_trigger_def)
  ultimately show thesis
    using that s assms(5) by (cases "ret = QCONF_OK") (auto simp: update_key_def add_change_trigger_node_def Let_def)
qed

lemma remove_key_get:
  assumes "shm_tbl a = Some t" "\<forall>n. ae_mem e n" "tbl_inv t" "trigger_ok a" "key \<noteq> []"
  obtains a' where "remove_key key a = (QCONF_OK, a')" "hash_tbl_get (ae_mem e) (shm_tbl a') key [] = (QCONF_ERR_NOT_FOUND, [])"
    "QCONF_TRIGGER_TYPE_REMOVE # key \<in> set (need_trigger_nodes a')"
proof -
  let ?t = "snd (qhasharr_remove t key)"
  let ?a = "a\<lparr>shm_tbl := Some ?t\<rparr>"
  have t: "trigger_ok ?a" using assms(4) by (simp add: trigger_ok_def)
  have r: "hash_tbl_remove (Some t) key = (QCONF_OK, Some ?t)"
    using tbl_remove_ok [OF assms(3,5)] by (simp add: hash_tbl_remove_def)
  have g: "tbl_inv ?t \<and> maxslots ?t = maxslots t \<and> tbl_map (slots ?t) (key_of t key) = None"
    using qhasharr_remove_spec [OF assms(3), of key] assms(3)
    by (cases "tbl_map (slots t) (key_of t key)") (auto simp: removed_def)
  have "hash_tbl_get (ae_mem e) (Some ?t) key [] = (QCONF_ERR_NOT_FOUND, [])"
    using hash_tbl_get_map [of ?t "ae_mem e" key "[]"] g assms(2,5) by (simp add: key_of_id)
  moreover have "QCONF_TRIGGER_TYPE_REMOVE # key \<in> set (need_trigger_nodes (push_trigger (QCONF_TRIGGER_TYPE_REMOVE # key) v ?a))" for v
    by (rule trigger_queue.push_mem [OF t]) simp
  moreover have "shm_tbl (push_trigger k v ?a) = Some ?t" for k v by (simp add: push_trigger_def)
  ultimately show thesis
    using that r assms(1,5) by (auto simp: remove_key_def add_change_trigger_node_def)
qed

lemma read_dump_get:
  assumes "shm_tbl a = Some t" "\<forall>n. ae_mem e n" "gdbm_laws (ae_gdbm e)" "key \<noteq> []"
    and "\<forall>v. dump a key = Some v \<longrightarrow> storable t (lru a) key v"
  obtains ret a' where "read_dump e key a = (ret, a')"
    "case dump a key of
       Some v \<Rightarrow> ret = QCONF_OK \<and> hash_tbl_get (ae_mem e) (shm_tbl a') key [] = (QCONF_OK, v)
     | None \<Rightarrow> ret = QCONF_ERR_OTHER \<and> shm_tbl a' = Some t"
proof (cases "dump a key")
  case None
  then have "read_dump e key a = (QCONF_ERR_OTHER, a)"
    using dump_get_map [OF assms(3,4), of "dump a"] by (simp add: read_dump_def)
  then show thesis using that None assms(1) by simp
next
  case (Some v)
  then obtain ret a' where u: "store_value e key v a = (ret, a')" "ret = QCONF_OK \<or> ret = QCONF_ERR_SAME_VALUE"
    "hash_tbl_get (ae_mem e) (shm_tbl a') key [] = (QCONF_OK, v)"
    using store_value_get [OF assms(1,2)] assms(5) by metis
  then have "read_dump e key a = (QCONF_OK, a')"
    using dump_get_map [OF assms(3,4), of "dump a"] Some by (auto simp: read_dump_def)
  then show thesis using that Some u(3) by simp
qed

text \<open>What ZooKeeper has for a key, as the value that the table should hold.\<close>

definition zk_tblval :: "zk_env \<Rightarrow> nat \<Rightarrow> zhandle \<Rightarrow> char \<Rightarrow> string \<Rightarrow> string \<Rightarrow> int \<times> string" where
  "zk_tblval en n zh dt key path =
     (if dt = QCONF_DATA_TYPE_NODE then
        (case zk_get_node en n zh path [] of (ret, d, _) \<Rightarrow> (ret, snd (nodeval_to_tblval key d)))
      else if dt = QCONF_DATA_TYPE_SERVICE then
        (case zk_get_chdnodes_with_status en n zh path [] of (ret, ns, st, _) \<Rightarrow> (ret, snd (chdnodeval_to_tblval key ns st)))
      else (case zk_get_chdnodes en n zh path [] of (ret, ns, _) \<Rightarrow> (ret, snd (batchnodeval_to_tblval key ns))))"

definition user_type :: "char \<Rightarrow> bool" where
  "user_type dt \<longleftrightarrow> dt = QCONF_DATA_TYPE_NODE \<or> dt = QCONF_DATA_TYPE_SERVICE \<or> dt = QCONF_DATA_TYPE_BATCH_NODE"

definition process_typed :: "agent_env \<Rightarrow> zhandle \<Rightarrow> char \<Rightarrow> string \<Rightarrow> string \<Rightarrow> agent \<Rightarrow> int \<times> agent" where
  "process_typed e zh dt key path a =
     (if dt = QCONF_DATA_TYPE_NODE then process_node e zh key path a
      else if dt = QCONF_DATA_TYPE_SERVICE then process_service e zh key path a
      else process_batch e zh key path a)"

lemma process_typed_outcome:
  assumes "zk_tblval (ae_zk e) (zk_calls a) zh dt key path = (zret, val)"
  obtains n chds where "process_typed e zh dt key path a =
    (if zret = QCONF_OK then update_key e key val chds (a\<lparr>zk_calls := n\<rparr>)
     else if zret = QCONF_NODE_NOT_EXIST then remove_key key (a\<lparr>zk_calls := n\<rparr>)
     else (zret, a\<lparr>zk_calls := n\<rparr>))"
proof (cases "dt = QCONF_DATA_TYPE_NODE")
  case True
  then show thesis using that assms
    by (auto simp: zk_tblval_def process_typed_def process_node_def Let_def split: prod.splits)
next
  case f: False
  show thesis
  proof (cases "dt = QCONF_DATA_TYPE_SERVICE")
    case True
    then show thesis using that assms
      by (auto simp: zk_tblval_def process_typed_def process_service_def Let_def split: prod.splits)
  next
    case False
    then show thesis using that assms f
      by (auto simp: zk_tblval_def process_typed_def process_batch_def Let_def split: prod.splits)
  qed
qed

lemma set_watcher_typed:
  assumes "is_gray_node key (gray a) = None" "user_type dt" "key = snd (serialize_to_tblkey dt idc path)"
    and "length idc < 256" "length path < 65536" "get_zhandle_by_idc e idc a = (Some zh, a1)"
  shows "set_watcher_and_update_tbl e key a =
    (case process_typed e (Some zh) dt key path a1 of (ret, a2) \<Rightarrow>
       if ret = QCONF_ERR_ZOO_FAILED then read_dump e key a2 else (ret, a2))"
proof -
  have "deserialize_from_tblkey key (QCONF_DATA_TYPE_UNKNOWN, [], []) = (QCONF_OK, dt, idc, path)"
    unfolding assms(3) using assms(2,4,5) by (intro tblkey_rt) (auto simp: user_type_def)
  then show ?thesis using assms(1,2,6)
    by (auto simp: set_watcher_and_update_tbl_def process_typed_def user_type_def)
qed

lemma set_watcher_cases:
  assumes "shm_tbl a = Some t" and "tbl_inv t" and "trigger_ok a" and "\<forall>n. ae_mem e n" and "gdbm_laws (ae_gdbm e)"
    and "is_gray_node key (gray a) = None" and "user_type dt" and "key = snd (serialize_to_tblkey dt idc path)"
    and "length idc < 256" and "length path < 65536" and "get_zhandle_by_idc e idc a = (Some zh, a1)"
    and "zk_tblval (ae_zk e) (zk_calls a1) (Some zh) dt key path = (zret, val)"
    and "zret = QCONF_OK \<longrightarrow> storable t (lru a) key val"
    and "zret = QCONF_ERR_ZOO_FAILED \<longrightarrow> (\<forall>v. dump a key = Some v \<longrightarrow> storable t (lru a) key v)"
  shows "\<exists>ret a'. set_watcher_and_update_tbl e key a = (ret, a')
    \<and> (zret = QCONF_OK \<longrightarrow> ret = QCONF_OK \<and> hash_tbl_get (ae_mem e) (shm_tbl a') key [] = (QCONF_OK, val)
         \<and> (hash_tbl_get (ae_mem e) (Some t) key [] = (QCONF_OK, val) \<or> QCONF_TRIGGER_TYPE_ADD_OR_MODIFY # key \<in> set (need_trigger_nodes a')))
    \<and> (zret = QCONF_NODE_NOT_EXIST \<longrightarrow> ret = QCONF_OK \<and> hash_tbl_get (ae_mem e) (shm_tbl a') key [] = (QCONF_ERR_NOT_FOUND, [])
         \<and> QCONF_TRIGGER_TYPE_REMOVE # key \<in> set (need_trigger_nodes a'))
    \<and> (zret = QCONF_ERR_ZOO_FAILED \<longrightarrow>
         (case dump a key of
            Some v \<Rightarrow> ret = QCONF_OK \<and> hash_tbl_get (ae_mem e) (shm_tbl a') key [] = (QCONF_OK, v)
          | None \<Rightarrow> ret = QCONF_ERR_OTHER \<and> shm_tbl a' = Some t))
    \<and> (zret \<notin> {QCONF_OK, QCONF_NODE_NOT_EXIST, QCONF_ERR_ZOO_FAILED} \<longrightarrow> ret = zret \<and> shm_tbl a' = Some t)"
proof -
  note fr = zhandle_frame [OF assms(11)]
  have key: "key \<noteq> []" unfolding assms(8) by (rule serialize_nonempty)
  obtain n chds where p: "process_typed e (Some zh) dt key path a1 =
    (if zret = QCONF_OK then update_key e key val chds (a1\<lparr>zk_calls := n\<rparr>)
     else if zret = QCONF_NODE_NOT_EXIST then remove_key key (a1\<lparr>zk_calls := n\<rparr>)
     else (zret, a1\<lparr>zk_calls := n\<rparr>))"
    by (rule process_typed_outcome [OF assms(12)])
  define b where "b = a1\<lparr>zk_calls := n\<rparr>"
  have b: "shm_tbl b = Some t" "lru b = lru a" "dump b = dump a" "trigger_ok b"
    using assms(1,3) fr by (simp_all add: b_def trigger_ok_def)
  have sw: "set_watcher_and_update_tbl e key a =
    (case process_typed e (Some zh) dt key path a1 of (ret, a2) \<Rightarrow> if ret = QCONF_ERR_ZOO_FAILED then read_dump e key a2 else (ret, a2))"
    by (rule set_watcher_typed [OF assms(6-11)])
  consider "zret = QCONF_OK" | "zret = QCONF_NODE_NOT_EXIST" | "zret = QCONF_ERR_ZOO_FAILED"
    | "zret \<notin> {QCONF_OK, QCONF_NODE_NOT_EXIST, QCONF_ERR_ZOO_FAILED}" by blast
  then show ?thesis
  proof cases
    case 1
    have "storable t (lru b) key val" using assms(13) 1 b(2) by simp
    then obtain a' where u: "update_key e key val chds b = (QCONF_OK, a')" "hash_tbl_get (ae_mem e) (shm_tbl a') key [] = (QCONF_OK, val)"
      "hash_tbl_get (ae_mem e) (Some t) key [] = (QCONF_OK, val) \<or> QCONF_TRIGGER_TYPE_ADD_OR_MODIFY # key \<in> set (need_trigger_nodes a')"
      using update_key_get [OF b(1) assms(4) _ b(4) key] by metis
    have "set_watcher_and_update_tbl e key a = (QCONF_OK, a')" unfolding sw p using 1 u(1) by (simp add: b_def)
    then show ?thesis using 1 u(2,3) by auto
  next
    case 2
    obtain a' where u: "remove_key key b = (QCONF_OK, a')" "hash_tbl_get (ae_mem e) (shm_tbl a') key [] = (QCONF_ERR_NOT_FOUND, [])"
      "QCONF_TRIGGER_TYPE_REMOVE # key \<in> set (need_trigger_nodes a')"
      using remove_key_get [OF b(1) assms(4,2) b(4) key] by metis
    have "set_watcher_and_update_tbl e key a = (QCONF_OK, a')" unfolding sw p using 2 u(1) by (simp add: b_def)
    then show ?thesis using 2 u(2,3) by auto
  next
    case 3
    have sw': "set_watcher_and_update_tbl e key a = read_dump e key b" unfolding sw p using 3 by (simp add: b_def)
    obtain ret a' where "read_dump e key b = (ret, a')"
      "case dump b key of
         Some v \<Rightarrow> ret = QCONF_OK \<and> hash_tbl_get (ae_mem e) (shm_tbl a') key [] = (QCONF_OK, v)
       | None \<Rightarrow> ret = QCONF_ERR_OTHER \<and> shm_tbl a' = Some t"
      using read_dump_get [OF b(1) assms(4,5) key] assms(14) 3 b(2,3) by metis
    then show ?thesis unfolding sw' using 3 b(3) by simp
  next
    case 4
    have "set_watcher_and_update_tbl e key a = (zret, b)" unfolding sw p using 4 by (simp add: b_def)
    then show ?thesis using 4 b(1) by simp
  qed
qed

text \<open>
  C2: What the main thread makes of a key of any data type that is under no gray release, when the
  value can be stored (the LRU list tracks every key but the local IDC, and the slots beside the
  local IDC suffice): the value that ZooKeeper has is in the table afterwards, for every reader, and
  a change is queued for the dump and the scripts; a node that is gone is removed from the table,
  which is queued too; when the read fails with \<open>QCONF_ERR_ZOO_FAILED\<close> the value comes from the dump,
  or, with none there, the table stays as it is and the call fails.  The dump is used for this
  failure only: any other (\<open>QCONF_ERR_OTHER\<close>, when the state of a service node cannot be read) is
  returned and leaves the table as it is.
\<close>

theorem set_watcher_outcome:
  assumes "shm_tbl a = Some t" and "tbl_inv t" and "trigger_ok a" and "\<forall>n. ae_mem e n" and "gdbm_laws (ae_gdbm e)"
    and "is_gray_node key (gray a) = None" and "user_type dt" and "key = snd (serialize_to_tblkey dt idc path)"
    and "length idc < 256" and "length path < 65536" and "get_zhandle_by_idc e idc a = (Some zh, a1)"
    and "zk_tblval (ae_zk e) (zk_calls a1) (Some zh) dt key path = (zret, val)"
    and "zret = QCONF_OK \<longrightarrow> storable t (lru a) key val"
    and "zret = QCONF_ERR_ZOO_FAILED \<longrightarrow> (\<forall>v. dump a key = Some v \<longrightarrow> storable t (lru a) key v)"
  shows "\<exists>ret a'. set_watcher_and_update_tbl e key a = (ret, a')
    \<and> (zret = QCONF_OK \<longrightarrow> ret = QCONF_OK \<and> hash_tbl_get (ae_mem e) (shm_tbl a') key [] = (QCONF_OK, val)
         \<and> (hash_tbl_get (ae_mem e) (Some t) key [] = (QCONF_OK, val) \<or> QCONF_TRIGGER_TYPE_ADD_OR_MODIFY # key \<in> set (need_trigger_nodes a')))
    \<and> (zret = QCONF_NODE_NOT_EXIST \<longrightarrow> ret = QCONF_OK \<and> hash_tbl_get (ae_mem e) (shm_tbl a') key [] = (QCONF_ERR_NOT_FOUND, [])
         \<and> QCONF_TRIGGER_TYPE_REMOVE # key \<in> set (need_trigger_nodes a'))
    \<and> (zret = QCONF_ERR_ZOO_FAILED \<longrightarrow>
         (case dump a key of
            Some v \<Rightarrow> ret = QCONF_OK \<and> hash_tbl_get (ae_mem e) (shm_tbl a') key [] = (QCONF_OK, v)
          | None \<Rightarrow> ret = QCONF_ERR_OTHER \<and> shm_tbl a' = Some t))
    \<and> (zret \<notin> {QCONF_OK, QCONF_NODE_NOT_EXIST, QCONF_ERR_ZOO_FAILED} \<longrightarrow> ret = zret \<and> shm_tbl a' = Some t)"
  using assms by (rule set_watcher_cases)

lemma storable_empty:
  assumes "0 < n" "key \<noteq> []" "length key < 65536" "length val \<le> 40"
  shows "storable (empty_tbl n) new_LRU key val"
  using assms set_ok_empty [of n key val] nblocks_small [of val] covered_empty [of n new_LRU] empty_table(2) [OF assms(1)]
  by (simp add: storable_def pinned_def maxslots_def)

text \<open>An agent that is connected to the data centre \<open>i\<close>, for the witnesses.\<close>

definition connected_agent :: agent where
  "connected_agent = (idle_agent (Some (empty_tbl 4)))\<lparr>ht_idchost_handle := [(serialize_to_idc_host ''i'' ''1.1.1.1:1'', Some 1)]\<rparr>"

definition one_node_env :: agent_env where
  "one_node_env = plain_env (zk_static [''/p'' \<mapsto> ''v''] Map.empty)"

lemma connected:
  "shm_tbl connected_agent = Some (empty_tbl 4)" "lru connected_agent = new_LRU" "trigger_ok connected_agent"
  "is_gray_node k (gray connected_agent) = None" "get_zhandle_by_idc one_node_env ''i'' connected_agent = (Some 1, connected_agent)"
  "need_watch_nodes connected_agent = []" "exist_watch_nodes connected_agent = {}" "need_trigger_nodes connected_agent = []"
  "\<not> stop_watcher_setting connected_agent" "\<not> fb_enable connected_agent" "ae_mem one_node_env n" "ae_gdbm one_node_env = mem_gdbm"
  by (simp_all add: connected_agent_def idle_agent_def trigger_ok_def is_gray_node_def one_node_env_def plain_env_def
      get_zhandle_by_idc_def get_idc_conf_def Let_def)

text \<open>The same agent after start-up, with its local IDC in the table.\<close>

definition started_tbl :: qhasharr_s where
  "started_tbl = the (fst (snd (hash_tbl_set (\<lambda>_. True) (Some (empty_tbl 4)) new_LRU QCONF_KEY_TYPE_LOCAL_IDC
     (snd (localidc_to_tblval QCONF_KEY_TYPE_LOCAL_IDC ''i'')))))"

definition started_agent :: agent where
  "started_agent = connected_agent\<lparr>shm_tbl := Some started_tbl\<rparr>"

lemma started:
  "shm_tbl started_agent = Some started_tbl" "lru started_agent = new_LRU" "trigger_ok started_agent"
  "is_gray_node k (gray started_agent) = None" "get_zhandle_by_idc one_node_env ''i'' started_agent = (Some 1, started_agent)"
  "need_watch_nodes started_agent = []" "\<not> stop_watcher_setting started_agent" "zk_calls started_agent = 0"
  by (simp_all add: started_agent_def connected_agent_def idle_agent_def trigger_ok_def is_gray_node_def one_node_env_def
      plain_env_def get_zhandle_by_idc_def get_idc_conf_def Let_def)

lemma started_table:
  "tbl_inv started_tbl" "maxslots started_tbl = 4"
  "tbl_map (slots started_tbl) = [store_id 4 QCONF_KEY_TYPE_LOCAL_IDC \<mapsto> frame (snd (localidc_to_tblval QCONF_KEY_TYPE_LOCAL_IDC ''i''))]"
  "nblocks (frame (snd (localidc_to_tblval QCONF_KEY_TYPE_LOCAL_IDC ''i''))) = 1"
proof -
  let ?v = "snd (localidc_to_tblval QCONF_KEY_TYPE_LOCAL_IDC ''i'')" and ?e = "empty_tbl 4"
  have l: "length ?v \<le> 40" by (simp add: localidc_to_tblval_def qconf_append_idc_def qconf_string_append_def)
  then show nb: "nblocks (frame ?v) = 1" by (rule nblocks_small)
  have e: "tbl_map (slots ?e) = Map.empty" "maxslots ?e = 4" using empty_table(2) [of 4] by (simp_all add: maxslots_def)
  have ok: "set_ok ?e new_LRU QCONF_KEY_TYPE_LOCAL_IDC ?v" using l by (intro set_ok_empty) simp_all
  obtain t l where "hash_tbl_set (\<lambda>_. True) (Some ?e) new_LRU QCONF_KEY_TYPE_LOCAL_IDC ?v = (QCONF_OK, Some t, l)"
    "tbl_inv t" "maxslots t = 4" "tbl_map (slots t) = [store_id 4 QCONF_KEY_TYPE_LOCAL_IDC \<mapsto> frame ?v]"
    by (rule set_room [OF ok, of "\<lambda>_. True"]) (use e nb in simp_all)
  then show "tbl_inv started_tbl" "maxslots started_tbl = 4"
    "tbl_map (slots started_tbl) = [store_id 4 QCONF_KEY_TYPE_LOCAL_IDC \<mapsto> frame ?v]" by (simp_all add: started_tbl_def)
qed

lemma storable_started:
  assumes "key \<noteq> []" "length key < 65536" "length val \<le> 40"
  shows "storable started_tbl new_LRU key val"
proof -
  note t = started_table
  have "bucket_load (tbl_map (slots started_tbl)) (bucket started_tbl key) < 32767"
    using bucket_load_dom [of "tbl_map (slots started_tbl)" "bucket started_tbl key"] t(3) by simp
  moreover have "lru_inv new_LRU" "lru_keys new_LRU = []" by (simp_all add: lru_inv_def new_LRU_def lru_keys_def)
  moreover have "pinned started_tbl = 1" using t by (simp add: pinned_def)
  moreover have "covered started_tbl new_LRU" using t(2,3) calculation(3) by (auto simp: covered_def split: if_splits)
  ultimately show ?thesis using assms t nblocks_small [OF assms(3)] by (simp add: storable_def set_ok_def)
qed

lemma one_node_value:
  "zk_tblval (ae_zk one_node_env) n zh QCONF_DATA_TYPE_NODE key ''/p'' = (QCONF_OK, snd (nodeval_to_tblval key ''v''))"
proof -
  have "zk_get_node (ae_zk one_node_env) n zh ''/p'' [] = (QCONF_OK, ''v'', n + 1)"
    by (rule get_node_at_once) (simp_all add: one_node_env_def plain_env_def zk_static_def cstr_def NUL_def)
  then show ?thesis by (simp add: zk_tblval_def)
qed

lemma node_value_storable:
  "storable started_tbl new_LRU (node_tblkey ''i'' ''/p'') (snd (nodeval_to_tblval (node_tblkey ''i'' ''/p'') ''v''))"
proof (rule storable_started)
  have l: "length (node_tblkey ''i'' ''/p'') = 7"
    by (simp add: serialize_to_tblkey_def Let_def qconf_append_path_def qconf_append_idc_def qconf_string_append_def)
  then show "length (node_tblkey ''i'' ''/p'') < 65536" by simp
  show "length (snd (nodeval_to_tblval (node_tblkey ''i'' ''/p'') ''v'')) \<le> 40"
    using l by (simp add: nodeval_to_tblval_def qconf_append_nodeval_def qconf_string_append_def Let_def)
qed (simp_all add: serialize_nonempty)

theorem set_watcher_outcome_witness:
  "\<exists>a'. set_watcher_and_update_tbl one_node_env (node_tblkey ''i'' ''/p'') started_agent = (QCONF_OK, a')
    \<and> hash_tbl_get (\<lambda>_. True) (shm_tbl a') (node_tblkey ''i'' ''/p'') []
        = (QCONF_OK, snd (nodeval_to_tblval (node_tblkey ''i'' ''/p'') ''v''))"
proof -
  have m: "\<forall>n. ae_mem one_node_env n" "ae_mem one_node_env = (\<lambda>_. True)" "gdbm_laws (ae_gdbm one_node_env)"
    using connected(11,12) mem_gdbm_laws(1) by auto
  have u: "user_type QCONF_DATA_TYPE_NODE" "length ''i'' < 256" "length ''/p'' < 65536" by (simp_all add: user_type_def)
  have s: "QCONF_OK = QCONF_OK \<longrightarrow> storable started_tbl (lru started_agent) (node_tblkey ''i'' ''/p'')
      (snd (nodeval_to_tblval (node_tblkey ''i'' ''/p'') ''v''))" using node_value_storable started(2) by simp
  have d: "QCONF_OK = QCONF_ERR_ZOO_FAILED \<longrightarrow> (\<forall>v. dump started_agent (node_tblkey ''i'' ''/p'') = Some v \<longrightarrow>
      storable started_tbl (lru started_agent) (node_tblkey ''i'' ''/p'') v)" by simp
  from set_watcher_outcome [OF started(1) started_table(1) started(3) m(1,3) started(4) u(1) refl u(2,3) started(5) one_node_value s d]
  show ?thesis using m(2) by auto
qed

section \<open>An event that is missed\<close>

lemma serialize_hd: "hd (snd (serialize_to_tblkey dt idc path)) = dt"
  by (simp add: serialize_to_tblkey_def Let_def qconf_append_path_def qconf_append_idc_def qconf_string_append_def)

text \<open>
  C37: A change of a service node is missed while the service is read for the first time: when the main
  thread is reading the service of the parent path, which is not in the table yet, a change of the
  state of one of its nodes queues nothing, because the test for the parent asks whether the node
  is pending.
\<close>

theorem changed_event_misses_pending_service:
  assumes "get_idc_by_zhandle zh a = (QCONF_OK, idc, host)" and "CHR ''/'' \<notin> set child"
    and "pending_nodes a = {snd (serialize_to_tblkey QCONF_DATA_TYPE_SERVICE idc parent)}"
    and "\<not> hash_tbl_exist (shm_tbl a) (snd (serialize_to_tblkey QCONF_DATA_TYPE_SERVICE idc parent))"
    and "\<not> hash_tbl_exist (shm_tbl a) (snd (serialize_to_tblkey QCONF_DATA_TYPE_NODE idc (parent @ ''/'' @ child)))"
  shows "global_watcher e zh CHANGED_EVENT_DEF state (parent @ ''/'' @ child) a = a"
proof -
  let ?node = "snd (serialize_to_tblkey QCONF_DATA_TYPE_NODE idc (parent @ ''/'' @ child))"
  have "?node \<noteq> snd (serialize_to_tblkey QCONF_DATA_TYPE_SERVICE idc parent)"
  proof
    assume "?node = snd (serialize_to_tblkey QCONF_DATA_TYPE_SERVICE idc parent)"
    from arg_cong [OF this, of hd] show False unfolding serialize_hd by simp
  qed
  then have np: "\<not> pending_node_exist ?node a" unfolding pending_node_exist_def assms(3) by (simp only: singleton_iff not_False_eq_True)
  have pos: "find_last_of (CHR ''/'') (parent @ ''/'' @ child) = Some (length parent)"
    using find_last_of_split [OF assms(2), of parent] by simp
  have par: "take (length parent) (parent @ ''/'' @ child) = parent" by simp
  have "process_changed_event idc (parent @ ''/'' @ child) a = a"
    unfolding process_changed_event_def Let_def pos option.case par wake_def using np assms(4,5) by (simp only: if_False de_Morgan_disj simp_thms)
  then show ?thesis using assms(1) by (simp add: global_watcher_def)
qed

definition joining_service :: agent where
  "joining_service = (idle_agent None)\<lparr>ht_handle_idchost := [(1, serialize_to_idc_host ''i'' ''1.1.1.1:1'')],
     pending_nodes := {snd (serialize_to_tblkey QCONF_DATA_TYPE_SERVICE ''i'' ''/s'')}\<rparr>"

theorem changed_event_misses_pending_service_witness:
  "global_watcher (plain_env joining_zk) 1 CHANGED_EVENT_DEF 3 (''/s'' @ ''/'' @ ''n'') joining_service = joining_service"
proof (rule changed_event_misses_pending_service)
  show "get_idc_by_zhandle 1 joining_service = (QCONF_OK, ''i'', ''1.1.1.1:1'')"
    using idc_host_rt [of "''i''" "''1.1.1.1:1''" "([], [])"] by (simp add: get_idc_by_zhandle_def joining_service_def)
qed (simp_all add: joining_service_def idle_agent_def hash_tbl_exist_def)

section \<open>A stale dump\<close>

lemma store_value_frame:
  "store_value e key val a = (ret, a') \<Longrightarrow> need_trigger_nodes a' = need_trigger_nodes a
    \<and> exist_trigger_nodes a' = exist_trigger_nodes a \<and> fb_enable a' = fb_enable a \<and> dump a' = dump a"
  by (auto simp: store_value_def split: prod.splits)

lemma update_key_trigger:
  assumes "update_key e key val chds a = (QCONF_OK, a')" "key \<noteq> []"
  shows "fb_enable a' = fb_enable a"
    "\<exists>ret b. store_value e key val a = (ret, b) \<and> (ret = QCONF_OK \<or> ret = QCONF_ERR_SAME_VALUE) \<and> shm_tbl a' = shm_tbl b
       \<and> a' = (if ret = QCONF_OK then push_trigger (QCONF_TRIGGER_TYPE_ADD_OR_MODIFY # key) \<lparr>tblval = val, fb_chds = chds\<rparr> b else b)"
proof -
  obtain ret b where s: "store_value e key val a = (ret, b)" by fastforce
  have a': "a' = (if ret = QCONF_OK then push_trigger (QCONF_TRIGGER_TYPE_ADD_OR_MODIFY # key) \<lparr>tblval = val, fb_chds = chds\<rparr> b else b)"
    and r: "ret = QCONF_OK \<or> ret = QCONF_ERR_SAME_VALUE"
    using assms s by (auto simp: update_key_def add_change_trigger_node_def Let_def split: if_splits)
  show "fb_enable a' = fb_enable a" using a' store_value_frame [OF s] by (simp add: push_trigger_def)
  show "\<exists>ret b. store_value e key val a = (ret, b) \<and> (ret = QCONF_OK \<or> ret = QCONF_ERR_SAME_VALUE) \<and> shm_tbl a' = shm_tbl b
       \<and> a' = (if ret = QCONF_OK then push_trigger (QCONF_TRIGGER_TYPE_ADD_OR_MODIFY # key) \<lparr>tblval = val, fb_chds = chds\<rparr> b else b)"
    using s r a' by (intro exI [of _ ret] exI [of _ b]) (simp add: push_trigger_def)
qed

lemma store_same_value:
  assumes "store_value e key val a = (QCONF_ERR_SAME_VALUE, b)"
  shows "hash_tbl_get (ae_mem e) (shm_tbl a) key [] = (QCONF_OK, val)"
  using assms
  by (auto simp: store_value_def hash_tbl_set_def hash_tbl_set_raw_def split: if_splits prod.splits sum.splits option.splits)

lemma trigger_script_frame [simp]:
  "dump (trigger_script e dt idc path c a) = dump a" "shm_tbl (trigger_script e dt idc path c a) = shm_tbl a"
  "need_trigger_nodes (trigger_script e dt idc path c a) = need_trigger_nodes a"
  "fb_enable (trigger_script e dt idc path c a) = fb_enable a"
  by (simp_all add: trigger_script_def Let_def split: prod.split)

lemma run_add_trigger:
  assumes "need_trigger_nodes a = [QCONF_TRIGGER_TYPE_ADD_OR_MODIFY # key]"
    and "exist_trigger_nodes a (QCONF_TRIGGER_TYPE_ADD_OR_MODIFY # key) = Some v" and "\<not> fb_enable a" and "key \<noteq> []"
    and "gdbm_laws (ae_gdbm e)" and "\<forall>db k v. fst (gdbm_store (ae_gdbm e) db k v) = 0"
  obtains a' where "change_trigger_process e a = Some a'" "dump a' = (dump a)(key \<mapsto> tblval v)" "shm_tbl a' = shm_tbl a"
    "need_trigger_nodes a' = []"
proof -
  let ?b = "a\<lparr>need_trigger_nodes := [], exist_trigger_nodes := (exist_trigger_nodes a)(QCONF_TRIGGER_TYPE_ADD_OR_MODIFY # key := None)\<rparr>"
  have t: "take_trigger a = Some (QCONF_TRIGGER_TYPE_ADD_OR_MODIFY # key, v, ?b)" using assms(1,2) by (simp add: take_trigger_def)
  obtain d dt idc path where k: "deserialize_from_tblkey key (NUL, [], []) = (d, dt, idc, path)" by (metis prod_cases4)
  have s: "qconf_dump_set (ae_gdbm e) db key (tblval v) = (QCONF_OK, db(key \<mapsto> tblval v))" for db
    using dump_set_stores assms(4-6) by blast
  define c where "c = trigger_dump e key (tblval v) QCONF_TRIGGER_TYPE_ADD_OR_MODIFY (trigger_script e dt idc path QCONF_TRIGGER_TYPE_ADD_OR_MODIFY ?b)"
  have c: "dump c = (dump a)(key \<mapsto> tblval v)" "shm_tbl c = shm_tbl a" "need_trigger_nodes c = []" "\<not> fb_enable c"
    using assms(3,4) by (simp_all add: c_def trigger_dump_def s)
  have "change_trigger_process e a = Some c" using c(4) by (simp add: change_trigger_process_def t k Let_def c_def)
  then show thesis using that c by blast
qed

text \<open>
  C38: The dump can fall behind the table: when a key changes twice before the trigger thread takes
  it, the second value reaches the table, but the trigger keeps the first one; afterwards the
  dump holds the first value, and nothing is queued that would correct it.
\<close>

theorem trigger_keeps_first_value:
  assumes "need_trigger_nodes a = []" and "trigger_ok a" and "\<not> fb_enable a" and "key \<noteq> []" and "\<forall>n. ae_mem e n"
    and "gdbm_laws (ae_gdbm e)" and "\<forall>db k v. fst (gdbm_store (ae_gdbm e) db k v) = 0"
    and "update_key e key v1 c1 a = (QCONF_OK, a1)" and "hash_tbl_get (ae_mem e) (shm_tbl a) key [] \<noteq> (QCONF_OK, v1)"
    and "update_key e key v2 c2 a1 = (QCONF_OK, a2)" and "shm_tbl a1 = Some t1" and "set_ok t1 (lru a1) key v2"
  shows "\<exists>a3. change_trigger_process e a2 = Some a3 \<and> dump a3 key = Some v1 \<and> need_trigger_nodes a3 = []
    \<and> hash_tbl_get (ae_mem e) (shm_tbl a3) key [] = (QCONF_OK, v2)"
proof -
  let ?m = "QCONF_TRIGGER_TYPE_ADD_OR_MODIFY # key"
  obtain ret b where s1: "store_value e key v1 a = (ret, b)" "ret = QCONF_OK \<or> ret = QCONF_ERR_SAME_VALUE"
    and a1: "a1 = (if ret = QCONF_OK then push_trigger ?m \<lparr>tblval = v1, fb_chds = c1\<rparr> b else b)"
    using update_key_trigger(2) [OF assms(8,4)] by blast
  have "ret = QCONF_OK" using s1 store_same_value [of e key v1 a b] assms(9) by auto
  moreover have "exist_trigger_nodes a ?m = None" using assms(1,2) by (auto simp: trigger_ok_def)
  ultimately have t1: "need_trigger_nodes a1 = [?m]" "exist_trigger_nodes a1 ?m = Some \<lparr>tblval = v1, fb_chds = c1\<rparr>"
    using a1 store_value_frame [OF s1(1)] assms(1) by (simp_all add: push_trigger_def)
  obtain ret' b' where s2: "store_value e key v2 a1 = (ret', b')" "ret' = QCONF_OK \<or> ret' = QCONF_ERR_SAME_VALUE" "shm_tbl a2 = shm_tbl b'"
    and a2: "a2 = (if ret' = QCONF_OK then push_trigger ?m \<lparr>tblval = v2, fb_chds = c2\<rparr> b' else b')"
    using update_key_trigger(2) [OF assms(10,4)] by blast
  have t2: "need_trigger_nodes a2 = [?m]" "exist_trigger_nodes a2 ?m = Some \<lparr>tblval = v1, fb_chds = c1\<rparr>"
    using t1 a2 store_value_frame [OF s2(1)] by (simp_all add: push_trigger_def)
  have fb: "\<not> fb_enable a2" using assms(3) update_key_trigger(1) [OF assms(8,4)] update_key_trigger(1) [OF assms(10,4)] by simp
  obtain t' l' where st: "hash_tbl_set (ae_mem e) (Some t1) (lru a1) key v2 = (ret', Some t', l')" "shm_tbl b' = Some t'"
    using s2(1) assms(11) hash_tbl_set_table [of "ae_mem e" t1 "lru a1" key v2]
    by (auto simp: store_value_def split: prod.splits)
  have "hash_tbl_get (ae_mem e) (Some t') key [] = (QCONF_OK, v2)" using set_get_rt [OF assms(12,5) st(1) s2(2)] by blast
  moreover obtain a3 where "change_trigger_process e a2 = Some a3" "dump a3 = (dump a2)(key \<mapsto> v1)" "shm_tbl a3 = shm_tbl a2"
    "need_trigger_nodes a3 = []"
    using run_add_trigger [OF t2 fb assms(4,6,7)] by auto
  ultimately show ?thesis using s2(3) st(2) by auto
qed

lemma set_others:
  assumes ok: "set_ok t l key val" and set: "hash_tbl_set mem (Some t) l key val = (QCONF_OK, Some t', l')"
    and i: "i \<noteq> store_id (maxslots t) key" "tbl_map (slots t) i = None"
  shows "tbl_map (slots t') i = None"
  using hash_tbl_set_spec [OF ok set]
proof (elim disjE exE conjE)
  fix t2 ks es
  assume t2: "Some t' = Some t2" and m: "\<forall>i. i \<noteq> store_id (maxslots t) key \<longrightarrow>
       tbl_map (slots t2) i = (if i \<in> store_id (maxslots t) ` set es then None else tbl_map (slots t) i)"
  have "tbl_map (slots t2) i = (if i \<in> store_id (maxslots t) ` set es then None else tbl_map (slots t) i)"
    using spec [OF m, of i] i(1) by (rule mp)
  then show ?thesis using t2 i(2) by simp
qed (simp_all only: simp_thms zero_neq_numeral)

lemma set_twice:
  assumes "length u \<le> 40" "length v \<le> 40" "u \<noteq> v" and key: "key \<noteq> []" "length key < 65536" "key \<noteq> QCONF_KEY_TYPE_LOCAL_IDC"
  obtains t1 l1 t2 l2 where
    "hash_tbl_set (\<lambda>_. True) (Some (empty_tbl 4)) new_LRU key u = (QCONF_OK, Some t1, l1)"
    "set_ok t1 l1 key v" "hash_tbl_set (\<lambda>_. True) (Some t1) l1 key v = (QCONF_OK, Some t2, l2)"
proof -
  let ?e = "empty_tbl 4"
  have st: "storable ?e new_LRU key u" using assms(1) key by (intro storable_empty) simp_all
  then have ok: "set_ok ?e new_LRU key u" "covered ?e new_LRU" by (simp_all add: storable_def)
  obtain t1 l1 where s1: "hash_tbl_set (\<lambda>_. True) (Some ?e) new_LRU key u = (QCONF_OK, Some t1, l1)"
    using set_empty [of 4 key u "\<lambda>_. True"] nblocks_small [of u] assms(1) key by auto
  have c: "covered t1 l1" "maxslots t1 = 4" using covered_set [OF ok(1) s1 ok(2)] by (simp_all add: maxslots_def)
  have g: "hash_tbl_get (\<lambda>_. True) (Some t1) key [] = (QCONF_OK, u)" "tbl_inv t1" "lru_inv l1"
    using set_get_rt [OF ok(1) _ s1] by auto
  have m: "maxslots ?e = 4" "\<And>i. tbl_map (slots ?e) i = None" using empty_table(2) [of 4] by (simp_all add: maxslots_def)
  have sub: "tbl_map (slots t1) i = None" if "i \<noteq> store_id 4 key" for i
    using set_others [OF ok(1) s1, of i] that unfolding m by blast
  have "bucket_load (tbl_map (slots t1)) b \<le> 1" for b
  proof -
    have "q = snd (store_id 4 key)" if q: "tbl_map (slots t1) (b, q) \<noteq> None" for q
      using sub [of "(b, q)"] q by (cases "(b, q) = store_id 4 key") (auto dest: arg_cong [where f = snd])
    then have "{q. tbl_map (slots t1) (b, q) \<noteq> None} \<subseteq> {snd (store_id 4 key)}" by blast
    from card_mono [OF _ this] show ?thesis unfolding bucket_load_def by simp
  qed
  then have ok1: "set_ok t1 l1 key v" using g key assms(2) by (simp add: set_ok_def le_less_trans [of _ 1])
  have "store_id 4 QCONF_KEY_TYPE_LOCAL_IDC \<noteq> store_id 4 key" using key(3) by (auto simp: store_id_def kid_def)
  then have "pinned t1 = 0" using sub c(2) by (simp add: pinned_def)
  then have "fst (hash_tbl_set (\<lambda>_. True) (Some t1) l1 key v) \<in> {QCONF_OK, QCONF_ERR_SAME_VALUE}"
    using c nblocks_small [OF assms(2)] by (intro set_always [OF ok1]) simp_all
  moreover have "fst (hash_tbl_set (\<lambda>_. True) (Some t1) l1 key v) \<noteq> QCONF_ERR_SAME_VALUE"
    using g(1) assms(3) key by (auto simp: hash_tbl_set_def hash_tbl_set_raw_def split: prod.splits sum.splits)
  ultimately obtain tbl2 l2 where s2: "hash_tbl_set (\<lambda>_. True) (Some t1) l1 key v = (QCONF_OK, tbl2, l2)" by (metis insertE prod.collapse singletonD)
  then show thesis using that [OF s1 ok1] hash_tbl_set_table [OF s2] by auto
qed

theorem trigger_keeps_first_value_witness:
  "\<exists>a1 a2 a3. update_key one_node_env ''2k'' ''a'' [] connected_agent = (QCONF_OK, a1)
    \<and> update_key one_node_env ''2k'' ''b'' [] a1 = (QCONF_OK, a2)
    \<and> change_trigger_process one_node_env a2 = Some a3 \<and> dump a3 ''2k'' = Some ''a''
    \<and> hash_tbl_get (\<lambda>_. True) (shm_tbl a3) ''2k'' [] = (QCONF_OK, ''b'')"
proof -
  have m: "ae_mem one_node_env = (\<lambda>_. True)" "\<forall>n. ae_mem one_node_env n" using connected(11) by auto
  have g: "gdbm_laws (ae_gdbm one_node_env)" "\<forall>db k v. fst (gdbm_store (ae_gdbm one_node_env) db k v) = 0"
    using connected(12) mem_gdbm_laws by simp_all
  obtain t1 l1 t2 l2 where s: "hash_tbl_set (\<lambda>_. True) (Some (empty_tbl 4)) new_LRU ''2k'' ''a'' = (QCONF_OK, Some t1, l1)"
    "set_ok t1 l1 ''2k'' ''b''" "hash_tbl_set (\<lambda>_. True) (Some t1) l1 ''2k'' ''b'' = (QCONF_OK, Some t2, l2)"
    by (rule set_twice [of "''a''" "''b''" "''2k''"]) simp_all
  define a1 where "a1 = snd (update_key one_node_env ''2k'' ''a'' [] connected_agent)"
  have a1: "update_key one_node_env ''2k'' ''a'' [] connected_agent = (QCONF_OK, a1)" "shm_tbl a1 = Some t1" "lru a1 = l1"
    using s(1) connected(1,2) m(1)
    by (simp_all add: a1_def update_key_def store_value_def add_change_trigger_node_def push_trigger_def Let_def)
  define a2 where "a2 = snd (update_key one_node_env ''2k'' ''b'' [] a1)"
  have a2: "update_key one_node_env ''2k'' ''b'' [] a1 = (QCONF_OK, a2)"
    using s(3) a1(2,3) m(1) by (simp add: a2_def update_key_def store_value_def Let_def)
  have "hash_tbl_get (ae_mem one_node_env) (shm_tbl connected_agent) ''2k'' [] \<noteq> (QCONF_OK, ''a'')"
    using hash_tbl_get_map [of "empty_tbl 4" "\<lambda>_. True" "''2k''" "[]"] empty_table [of 4] connected(1) m(1) by simp
  from trigger_keeps_first_value [OF connected(8,3,10) _ m(2) g a1(1) this a2 a1(2)] s(2) a1 a2 m(1)
  show ?thesis by auto
qed

end
