(* ===== verification/QManager.thy ===== *)
theory QManager
  imports QDriverThms QGray QTrigger "HOL-Library.Monad_Syntax"
begin

text \<open>
  The manager library that writes configuration into ZooKeeper: \<open>src/manager/src/c/qconf_zk.cc\<close>.
  Its copies of the hash functions and of the formats are those of \<open>QHash\<close> and \<open>QFormat\<close>.

  The server is a parameter: a record of functions that give the outcome of the \<open>n\<close>-th call on the
  current tree of nodes, and the tree that it leaves.  \<open>zk_create\<close> calls itself while a parent is
  missing, and the loops over the pieces of a notification end when a piece is missing; these may not
  return, and their result is \<open>None\<close> then.
\<close>

section \<open>The server\<close>

type_synonym ztree = "string \<rightharpoonup> string"

record zk_server =
  sv_create :: "nat \<Rightarrow> ztree \<Rightarrow> string \<Rightarrow> string \<Rightarrow> int \<times> ztree"
  sv_set :: "nat \<Rightarrow> ztree \<Rightarrow> string \<Rightarrow> string \<Rightarrow> int \<times> ztree"
  sv_delete :: "nat \<Rightarrow> ztree \<Rightarrow> string \<Rightarrow> int \<times> ztree"
  sv_get :: "nat \<Rightarrow> ztree \<Rightarrow> string \<Rightarrow> int \<times> string option"
  sv_exists :: "nat \<Rightarrow> ztree \<Rightarrow> string \<Rightarrow> int"
  sv_children :: "nat \<Rightarrow> ztree \<Rightarrow> string \<Rightarrow> int \<times> string list"
  sv_init :: "string \<Rightarrow> zhandle"

record QConfZK =
  zh :: zhandle
  tree :: ztree
  calls :: nat

abbreviation (input) ZNOTEMPTY :: int where "ZNOTEMPTY \<equiv> -111"

abbreviation (input) QCONF_ERR_ZOO_NOTEMPTY :: int where "QCONF_ERR_ZOO_NOTEMPTY \<equiv> 100"
abbreviation (input) QCONF_ERR_ZOO_NOT_EXIST :: int where "QCONF_ERR_ZOO_NOT_EXIST \<equiv> 102"
abbreviation (input) QCONF_ERR_ZOO_ALREADY_EXIST :: int where "QCONF_ERR_ZOO_ALREADY_EXIST \<equiv> 103"
abbreviation (input) QCONF_ERR_NODE_TYPE :: int where "QCONF_ERR_NODE_TYPE \<equiv> 110"
abbreviation (input) QCONF_ERR_GRAY_SERIALIZE :: int where "QCONF_ERR_GRAY_SERIALIZE \<equiv> 122"
abbreviation (input) QCONF_ERR_GRAY_SET_CONTENT :: int where "QCONF_ERR_GRAY_SET_CONTENT \<equiv> 123"
abbreviation (input) QCONF_ERR_GRAY_SET_CLIENTS :: int where "QCONF_ERR_GRAY_SET_CLIENTS \<equiv> 125"
abbreviation (input) QCONF_ERR_GRAY_SET_BACKLINK :: int where "QCONF_ERR_GRAY_SET_BACKLINK \<equiv> 126"
abbreviation (input) QCONF_ERR_GRAY_GET_CONTENT :: int where "QCONF_ERR_GRAY_GET_CONTENT \<equiv> 127"
abbreviation (input) QCONF_ERR_GRAY_GET_BACKLINK :: int where "QCONF_ERR_GRAY_GET_BACKLINK \<equiv> 130"
abbreviation (input) QCONF_ERR_GRAY_DELETE_CONTENT :: int where "QCONF_ERR_GRAY_DELETE_CONTENT \<equiv> 131"
abbreviation (input) QCONF_ERR_GRAY_DELETE_CLIENTS :: int where "QCONF_ERR_GRAY_DELETE_CLIENTS \<equiv> 133"
abbreviation (input) QCONF_ERR_GRAY_DELETE_BACKLINK :: int where "QCONF_ERR_GRAY_DELETE_BACKLINK \<equiv> 134"
abbreviation (input) QCONF_ERR_GRAY_COMMIT :: int where "QCONF_ERR_GRAY_COMMIT \<equiv> 135"

abbreviation (input) QCONF_NODE_TYPE_NODE :: char where "QCONF_NODE_TYPE_NODE \<equiv> CHR ''2''"
abbreviation (input) QCONF_NODE_TYPE_SERVICE :: char where "QCONF_NODE_TYPE_SERVICE \<equiv> CHR ''3''"
abbreviation (input) QCONF_SERV_GROUP_PREFIX :: string where
  "QCONF_SERV_GROUP_PREFIX \<equiv> ''/qconf_monitor_lock_node/default_instance/md5_list''"
abbreviation (input) QCONF_NOTIFY_BACKLINK_PREFIX :: string where
  "QCONF_NOTIFY_BACKLINK_PREFIX \<equiv> ''/qconf/__qconf_notify/backlink''"
abbreviation (input) QCONF_NOTIFY_BACKLINK_DELIM :: char where "QCONF_NOTIFY_BACKLINK_DELIM \<equiv> CHR '';''"
abbreviation (input) QCONF_GRAY_CONTENT_MAX_SIZE :: nat where "QCONF_GRAY_CONTENT_MAX_SIZE \<equiv> 102400"
abbreviation (input) QCONF_ZK_MAX_VALUE_SIZE :: nat where "QCONF_ZK_MAX_VALUE_SIZE \<equiv> 1048577"

definition zk_init :: "zk_server \<Rightarrow> string \<Rightarrow> QConfZK \<Rightarrow> int \<times> QConfZK" where
  "zk_init e host z =
     (if host = [] then (QCONF_ERR_PARAM, z)
      else
        (let z1 = z\<lparr>zh := sv_init e (cstr host)\<rparr>
         in (if zh z1 = None then QCONF_ERR_ZOO_FAILED else QCONF_OK, z1)))"

section \<open>Calls with retries\<close>

text \<open>One call: its result, the tree it leaves, and the next call number.\<close>

definition zoo_write :: "(nat \<Rightarrow> ztree \<Rightarrow> int \<times> ztree) \<Rightarrow> QConfZK \<Rightarrow> int \<times> QConfZK" where
  "zoo_write f z = (case f (calls z) (tree z) of (rc, T) \<Rightarrow> (rc, z\<lparr>tree := T, calls := calls z + 1\<rparr>))"

definition zoo_read :: "(nat \<Rightarrow> ztree \<Rightarrow> 'r) \<Rightarrow> QConfZK \<Rightarrow> 'r \<times> QConfZK" where
  "zoo_read f z = (f (calls z) (tree z), z\<lparr>calls := calls z + 1\<rparr>)"

text \<open>
  The \<open>for\<close> loop around every call: \<open>verdict\<close> is the \<open>switch\<close> on its result, \<open>None\<close> for \<open>continue\<close>.
\<close>

function call_retry :: "(QConfZK \<Rightarrow> 'r \<times> QConfZK) \<Rightarrow> ('r \<Rightarrow> int option) \<Rightarrow> nat \<Rightarrow> QConfZK \<Rightarrow> int \<times> 'r option \<times> QConfZK" where
  "call_retry call verdict i z =
     (if i < QCONF_GET_RETRIES then
        (case call z of (r, z1) \<Rightarrow>
           (case verdict r of
              Some c \<Rightarrow> (c, Some r, z1)
            | None \<Rightarrow> call_retry call verdict (i + 1) z1))
      else (QCONF_ERR_ZOO_FAILED, None, z))"
  by pat_completeness auto
termination
  by (relation "measure (\<lambda>(call, verdict, i, z). QCONF_GET_RETRIES - i)") auto

declare call_retry.simps [simp del]

definition access_verdict :: "int \<Rightarrow> int option" where
  "access_verdict ret =
     (if ret = ZOK then Some QCONF_OK
      else if ret = ZNONODE then Some QCONF_ERR_ZOO_NOT_EXIST
      else if ret = ZINVALIDSTATE \<or> ret = ZMARSHALLINGERROR then None
      else Some QCONF_ERR_ZOO_FAILED)"

definition exist_verdict :: "int \<Rightarrow> int option" where
  "exist_verdict ret = (if ret = ZNONODE then Some QCONF_OK else access_verdict ret)"

definition delete_verdict :: "int \<Rightarrow> int option" where
  "delete_verdict ret = (if ret = ZNOTEMPTY then Some QCONF_ERR_ZOO_NOTEMPTY else access_verdict ret)"

definition zk_exist :: "zk_server \<Rightarrow> string \<Rightarrow> QConfZK \<Rightarrow> int \<times> bool \<times> QConfZK" where
  "zk_exist e path z =
     (case call_retry (zoo_read (\<lambda>n T. sv_exists e n T (cstr path))) exist_verdict 0 z of (ret, r, z') \<Rightarrow>
        (ret, r = Some ZOK, z'))"

definition zk_modify :: "zk_server \<Rightarrow> string \<Rightarrow> string \<Rightarrow> QConfZK \<Rightarrow> int \<times> QConfZK" where
  "zk_modify e path value z =
     (case call_retry (zoo_write (\<lambda>n T. sv_set e n T (cstr path) value)) access_verdict 0 z of (ret, r, z') \<Rightarrow> (ret, z'))"

definition zk_get :: "zk_server \<Rightarrow> string \<Rightarrow> string \<Rightarrow> QConfZK \<Rightarrow> int \<times> string \<times> QConfZK" where
  "zk_get e path value z =
     (case call_retry (zoo_read (\<lambda>n T. sv_get e n T (cstr path))) (\<lambda>r. access_verdict (fst r)) 0 z of (ret, r, z') \<Rightarrow>
        (ret, if ret = QCONF_OK then (case r of Some (_, Some d) \<Rightarrow> d | _ \<Rightarrow> []) else value, z'))"

definition zk_delete_exist :: "zk_server \<Rightarrow> string \<Rightarrow> QConfZK \<Rightarrow> int \<times> QConfZK" where
  "zk_delete_exist e path z =
     (case call_retry (zoo_write (\<lambda>n T. sv_delete e n T (cstr path))) delete_verdict 0 z of (ret, r, z') \<Rightarrow> (ret, z'))"

definition zk_delete :: "zk_server \<Rightarrow> string \<Rightarrow> QConfZK \<Rightarrow> int \<times> QConfZK" where
  "zk_delete e path z =
     (case zk_delete_exist e path z of (ret, z') \<Rightarrow> (if ret = QCONF_ERR_ZOO_NOT_EXIST then QCONF_OK else ret, z'))"

section \<open>Paths\<close>

definition integer_to_string :: "int \<Rightarrow> string" where
  "integer_to_string n = (if n < 0 then CHR ''-'' # show_nat (nat (- n)) else show_nat (nat n))"

definition parent_node :: "string \<Rightarrow> string" where
  "parent_node path = (case find_last_of (CHR ''/'') path of None \<Rightarrow> path | Some i \<Rightarrow> take i path)"

definition serv_path :: "string \<Rightarrow> string \<Rightarrow> string" where
  "serv_path node serv = node @ ''/'' @ serv"

definition get_monitor_node :: "string \<Rightarrow> string" where
  "get_monitor_node path = QCONF_SERV_GROUP_PREFIX @ ''/'' @ qhashmd5_bin_to_hex (qhashmd5 path)"

text \<open>The pattern \<open>^[A-Za-z0-9_:/\.\-]+$\<close>: in a bracket expression a backslash stands for itself.\<close>

definition path_char :: "char \<Rightarrow> bool" where
  "path_char c \<longleftrightarrow> CHR ''A'' \<le> c \<and> c \<le> CHR ''Z'' \<or> CHR ''a'' \<le> c \<and> c \<le> CHR ''z'' \<or> CHR ''0'' \<le> c \<and> c \<le> CHR ''9''
     \<or> c \<in> set ''_:/.-'' \<or> c = CHR 0x5C"

definition path_normalize :: "string \<Rightarrow> int \<times> string" where
  "path_normalize path =
     (let body = dropWhile (\<lambda>c. c = CHR ''/'') path in
      if body = [] then (QCONF_ERR_OTHER, ''/'')
      else (QCONF_OK, ''/'' @ rev (dropWhile (\<lambda>c. c = CHR ''/'') (rev body))))"

definition zk_path :: "string \<Rightarrow> string \<Rightarrow> int \<times> string" where
  "zk_path path new_path =
     (if path = [] then (QCONF_ERR_PARAM, new_path)
      else if cstr path \<noteq> [] \<and> (\<forall>c\<in>set (cstr path). path_char c) then path_normalize path
      else (QCONF_ERR_PARAM, new_path))"

text \<open>The guard of the public operations: \<open>None\<close> when they return \<open>QCONF_ERR_PARAM\<close>.\<close>

definition checked_path :: "string \<Rightarrow> QConfZK \<Rightarrow> string option" where
  "checked_path node z =
     (if zh z = None then None
      else (case zk_path node [] of (ret, path) \<Rightarrow> if ret = QCONF_OK then Some path else None))"

section \<open>Nodes\<close>

text \<open>The loop of \<open>zk_create\<close> from its attempt \<open>i\<close> on.\<close>

partial_function (option) zk_create_from ::
  "zk_server \<Rightarrow> nat \<Rightarrow> string \<Rightarrow> string \<Rightarrow> QConfZK \<Rightarrow> (int \<times> QConfZK) option" where
  "zk_create_from e i path value z =
     (if i < QCONF_GET_RETRIES then
        (let (ret, z1) = zoo_write (\<lambda>n T. sv_create e n T (cstr path) value) z in
         if ret = ZOK then Some (QCONF_OK, z1)
         else if ret = ZNODEEXISTS then Some (QCONF_ERR_ZOO_ALREADY_EXIST, z1)
         else if ret = ZNONODE then
           do { (ret, z2) \<leftarrow> zk_create_from e 0 (parent_node path) [] z1;
                if ret \<noteq> QCONF_OK \<and> ret \<noteq> QCONF_ERR_ZOO_ALREADY_EXIST then Some (ret, z2)
                else zk_create_from e 0 path value z2 }
         else if ret = ZINVALIDSTATE \<or> ret = ZMARSHALLINGERROR then zk_create_from e (i + 1) path value z1
         else Some (QCONF_ERR_ZOO_FAILED, z1))
      else Some (QCONF_ERR_ZOO_FAILED, z))"

definition zk_create :: "zk_server \<Rightarrow> string \<Rightarrow> string \<Rightarrow> QConfZK \<Rightarrow> (int \<times> QConfZK) option" where
  "zk_create e path value z = zk_create_from e 0 path value z"

definition zk_node_delete :: "zk_server \<Rightarrow> string \<Rightarrow> QConfZK \<Rightarrow> int \<times> QConfZK" where
  "zk_node_delete e node z =
     (case checked_path node z of None \<Rightarrow> (QCONF_ERR_PARAM, z) | Some path \<Rightarrow> zk_delete e path z)"

text \<open>Set a node, and create it when it does not exist.\<close>

definition set_or_create :: "zk_server \<Rightarrow> string \<Rightarrow> string \<Rightarrow> QConfZK \<Rightarrow> (int \<times> QConfZK) option" where
  "set_or_create e path value z =
     (case zk_modify e path value z of (ret, z1) \<Rightarrow>
        if ret = QCONF_ERR_ZOO_NOT_EXIST then zk_create e path value z1 else Some (ret, z1))"

definition zk_node_set :: "zk_server \<Rightarrow> string \<Rightarrow> string \<Rightarrow> QConfZK \<Rightarrow> (int \<times> QConfZK) option" where
  "zk_node_set e node value z =
     (case checked_path node z of None \<Rightarrow> Some (QCONF_ERR_PARAM, z) | Some path \<Rightarrow> set_or_create e path value z)"

definition zk_node_get :: "zk_server \<Rightarrow> string \<Rightarrow> string \<Rightarrow> QConfZK \<Rightarrow> int \<times> string \<times> QConfZK" where
  "zk_node_get e node buf z =
     (case checked_path node z of None \<Rightarrow> (QCONF_ERR_PARAM, buf, z) | Some path \<Rightarrow> zk_get e path buf z)"

text \<open>A \<open>std::set\<close> of names is the list of its elements in ascending order.\<close>

definition zk_list :: "zk_server \<Rightarrow> string \<Rightarrow> string list \<Rightarrow> QConfZK \<Rightarrow> int \<times> string list \<times> QConfZK" where
  "zk_list e node children z =
     (case checked_path node z of
        None \<Rightarrow> (QCONF_ERR_PARAM, children, z)
      | Some path \<Rightarrow>
          (case call_retry (zoo_read (\<lambda>n T. sv_children e n T (cstr path))) (\<lambda>r. access_verdict (fst r)) 0 z of (ret, r, z') \<Rightarrow>
             (ret, if ret = QCONF_OK then (case r of Some (_, names) \<Rightarrow> sorted_list_of_set (set names) | None \<Rightarrow> []) else [], z')))"

fun values_loop :: "zk_server \<Rightarrow> string \<Rightarrow> string list \<Rightarrow> (string, string) omap \<Rightarrow> QConfZK \<Rightarrow> int \<times> (string, string) omap \<times> QConfZK" where
  "values_loop e path [] children z = (QCONF_OK, children, z)"
| "values_loop e path (c # cs) children z =
     (case zk_get e (path @ ''/'' @ c) [] z of (ret, value, z1) \<Rightarrow>
        if ret \<noteq> QCONF_OK then (ret, children, z1)
        else values_loop e path cs (omap_insert c value children) z1)"

definition zk_list_with_values ::
  "zk_server \<Rightarrow> string \<Rightarrow> (string, string) omap \<Rightarrow> QConfZK \<Rightarrow> int \<times> (string, string) omap \<times> QConfZK" where
  "zk_list_with_values e node children z =
     (case checked_path node z of
        None \<Rightarrow> (QCONF_ERR_PARAM, children, z)
      | Some path \<Rightarrow>
          (case zk_list e path [] z of (ret, nodes, z1) \<Rightarrow>
             if ret = QCONF_OK then values_loop e path nodes children z1 else (ret, children, z1)))"

section \<open>Services\<close>

definition zk_monitor_node_create :: "zk_server \<Rightarrow> string \<Rightarrow> QConfZK \<Rightarrow> (int \<times> QConfZK) option" where
  "zk_monitor_node_create e path z =
     do { (ret, z1) \<leftarrow> zk_create e (get_monitor_node path) path z;
          Some (if ret = QCONF_ERR_ZOO_ALREADY_EXIST then QCONF_OK else ret, z1) }"

definition zk_monitor_node_remove :: "zk_server \<Rightarrow> string \<Rightarrow> QConfZK \<Rightarrow> int \<times> QConfZK" where
  "zk_monitor_node_remove e path z = zk_delete e (get_monitor_node path) z"

definition check_node_type :: "zk_server \<Rightarrow> string \<Rightarrow> char \<Rightarrow> QConfZK \<Rightarrow> int \<times> char \<times> QConfZK" where
  "check_node_type e path node_type z =
     (case zk_exist e (get_monitor_node path) z of (ret, exist, z1) \<Rightarrow>
        if ret \<noteq> QCONF_OK then (QCONF_ERR_ZOO_FAILED, node_type, z1)
        else (QCONF_OK, if exist then QCONF_NODE_TYPE_SERVICE else QCONF_NODE_TYPE_NODE, z1))"

definition check_service :: "string \<Rightarrow> int \<Rightarrow> bool" where
  "check_service path status \<longleftrightarrow> path \<noteq> [] \<and> (status = STATUS_UP \<or> status = STATUS_DOWN \<or> status = STATUS_OFFLINE)"

text \<open>
  The beginning of the operations on a service: the path, or the code that they return when the
  argument is bad, the check fails or the node is not a service.
\<close>

definition with_service :: "zk_server \<Rightarrow> string \<Rightarrow> QConfZK \<Rightarrow> (int + string) \<times> QConfZK" where
  "with_service e node z =
     (case checked_path node z of
        None \<Rightarrow> (Inl QCONF_ERR_PARAM, z)
      | Some path \<Rightarrow>
          (case check_node_type e path QCONF_NODE_TYPE_NODE z of (ret, data_type, z1) \<Rightarrow>
             if ret \<noteq> QCONF_OK then (Inl ret, z1)
             else if data_type = QCONF_NODE_TYPE_NODE then (Inl QCONF_ERR_NODE_TYPE, z1)
             else (Inr path, z1)))"

definition zk_service_add :: "zk_server \<Rightarrow> string \<Rightarrow> string \<Rightarrow> int \<Rightarrow> QConfZK \<Rightarrow> (int \<times> QConfZK) option" where
  "zk_service_add e node serv status z =
     (case checked_path node z of
        None \<Rightarrow> Some (QCONF_ERR_PARAM, z)
      | Some path \<Rightarrow>
          if \<not> check_service serv status then Some (QCONF_ERR_PARAM, z)
          else
            do { (ret, z1) \<leftarrow> zk_monitor_node_create e path z;
                 if ret \<noteq> QCONF_OK then Some (QCONF_ERR_ZOO_FAILED, z1)
                 else set_or_create e (serv_path path serv) (integer_to_string status) z1 })"

fun add_loop :: "zk_server \<Rightarrow> string \<Rightarrow> (string \<times> int) list \<Rightarrow> QConfZK \<Rightarrow> (int \<times> QConfZK) option" where
  "add_loop e path [] z = Some (QCONF_OK, z)"
| "add_loop e path (s # ss) z =
     do { (ret, z1) \<leftarrow> zk_service_add e path (fst s) (snd s) z;
          if ret \<noteq> QCONF_OK then Some (ret, z1) else add_loop e path ss z1 }"

fun delete_loop :: "zk_server \<Rightarrow> string \<Rightarrow> string list \<Rightarrow> QConfZK \<Rightarrow> int \<times> QConfZK" where
  "delete_loop e path [] z = (QCONF_OK, z)"
| "delete_loop e path (s # ss) z =
     (case zk_delete e (serv_path path s) z of (ret, z1) \<Rightarrow>
        if ret \<noteq> QCONF_OK then (ret, z1) else delete_loop e path ss z1)"

definition zk_services_set :: "zk_server \<Rightarrow> string \<Rightarrow> (string, int) omap \<Rightarrow> QConfZK \<Rightarrow> (int \<times> QConfZK) option" where
  "zk_services_set e node servs z =
     (case checked_path node z of
        None \<Rightarrow> Some (QCONF_ERR_PARAM, z)
      | Some path \<Rightarrow>
          if servs = [] \<or> (\<exists>s\<in>set servs. \<not> check_service (fst s) (snd s)) then Some (QCONF_ERR_PARAM, z)
          else
            do { (ret, z1) \<leftarrow> zk_monitor_node_create e path z;
                 if ret \<noteq> QCONF_OK then Some (QCONF_ERR_ZOO_FAILED, z1)
                 else
                   (let (ret, old_servs, z2) = zk_list e path [] z1 in
                    do { (ret, z3) \<leftarrow> (if ret = QCONF_ERR_ZOO_NOT_EXIST then zk_create e path [] z2 else Some (ret, z2));
                         if ret \<noteq> QCONF_OK then Some (ret, z3)
                         else
                           do { (ret, z4) \<leftarrow> add_loop e path servs z3;
                                if ret \<noteq> QCONF_OK then Some (ret, z4)
                                else Some (delete_loop e path (filter (\<lambda>s. s \<notin> fst ` set servs) old_servs) z4) } }) })"

definition zk_service_delete :: "zk_server \<Rightarrow> string \<Rightarrow> string \<Rightarrow> QConfZK \<Rightarrow> int \<times> QConfZK" where
  "zk_service_delete e node serv z =
     (case with_service e node z of
        (Inl ret, z1) \<Rightarrow> (ret, z1)
      | (Inr path, z1) \<Rightarrow> zk_delete e (serv_path path serv) z1)"

definition zk_service_clear :: "zk_server \<Rightarrow> string \<Rightarrow> QConfZK \<Rightarrow> int \<times> QConfZK" where
  "zk_service_clear e node z =
     (case with_service e node z of
        (Inl ret, z1) \<Rightarrow> (ret, z1)
      | (Inr path, z1) \<Rightarrow>
          (case zk_list e path [] z1 of (ret, servs, z2) \<Rightarrow>
             if ret \<noteq> QCONF_OK then (ret, z2) else delete_loop e path servs z2))"

definition set_status :: "zk_server \<Rightarrow> string \<Rightarrow> string \<Rightarrow> int \<Rightarrow> QConfZK \<Rightarrow> int \<times> QConfZK" where
  "set_status e node serv status z =
     (case with_service e node z of
        (Inl ret, z1) \<Rightarrow> (ret, z1)
      | (Inr path, z1) \<Rightarrow> zk_modify e (serv_path path serv) (integer_to_string status) z1)"

definition zk_service_up where "zk_service_up e node serv z = set_status e node serv STATUS_UP z"

definition zk_service_down where "zk_service_down e node serv z = set_status e node serv STATUS_DOWN z"

definition zk_service_offline where "zk_service_offline e node serv z = set_status e node serv STATUS_OFFLINE z"

definition zk_services_get :: "zk_server \<Rightarrow> string \<Rightarrow> string list \<Rightarrow> QConfZK \<Rightarrow> int \<times> string list \<times> QConfZK" where
  "zk_services_get e node servs z =
     (case with_service e node z of
        (Inl ret, z1) \<Rightarrow> (ret, servs, z1)
      | (Inr path, z1) \<Rightarrow> zk_list e path servs z1)"

definition string_to_integer :: "string \<Rightarrow> int \<Rightarrow> int \<times> int" where
  "string_to_integer cnt integer =
     (if cnt = [] then (QCONF_ERR_PARAM, integer)
      else
        (case strtol0 (cstr cnt) of (value, erange, endptr) \<Rightarrow>
           if (value = LONG_MAX \<or> value = LONG_MIN) \<and> erange then (QCONF_ERR_OUT_OF_RANGE, integer)
           else if cnt = endptr then (QCONF_ERR_NOT_NUMBER, integer)
           else if endptr \<noteq> [] then (QCONF_ERR_OTHRE_CHARACTER, integer)
           else (QCONF_OK, value)))"

definition zk_service_status_get :: "zk_server \<Rightarrow> string \<Rightarrow> int \<Rightarrow> QConfZK \<Rightarrow> int \<times> int \<times> QConfZK" where
  "zk_service_status_get e path status z =
     (case zk_get e path [] z of (ret, buf, z1) \<Rightarrow>
        if ret \<noteq> QCONF_OK then (QCONF_ERR_OTHER, status, z1)
        else
          (case string_to_integer buf (-1) of (ret, value) \<Rightarrow>
             if ret \<noteq> QCONF_OK then (QCONF_ERR_OTHER, status, z1)
             else if value = STATUS_UP \<or> value = STATUS_DOWN \<or> value = STATUS_OFFLINE then (QCONF_OK, value, z1)
             else (QCONF_ERR_OTHER, status, z1)))"

fun service_status_loop :: "zk_server \<Rightarrow> string \<Rightarrow> string list \<Rightarrow> (string, int) omap \<Rightarrow> QConfZK \<Rightarrow> int \<times> (string, int) omap \<times> QConfZK" where
  "service_status_loop e path [] servs z = (QCONF_OK, servs, z)"
| "service_status_loop e path (c # cs) servs z =
     (case zk_service_status_get e (serv_path path c) 0 z of (ret, s, z1) \<Rightarrow>
        if ret \<noteq> QCONF_OK then (QCONF_ERR_ZOO_FAILED, servs, z1)
        else service_status_loop e path cs (omap_insert c s servs) z1)"

definition zk_services_get_with_status ::
  "zk_server \<Rightarrow> string \<Rightarrow> (string, int) omap \<Rightarrow> QConfZK \<Rightarrow> int \<times> (string, int) omap \<times> QConfZK" where
  "zk_services_get_with_status e node servs z =
     (case checked_path node z of
        None \<Rightarrow> (QCONF_ERR_PARAM, servs, z)
      | Some path \<Rightarrow>
          (case check_node_type e path QCONF_NODE_TYPE_NODE z of (ret, data_type, z1) \<Rightarrow>
             if ret \<noteq> QCONF_OK then (QCONF_ERR_PARAM, servs, z1)
             else if data_type = QCONF_NODE_TYPE_NODE then (QCONF_ERR_NODE_TYPE, servs, z1)
             else
               (case zk_services_get e path [] z1 of (ret, nodes, z2) \<Rightarrow>
                  if ret = QCONF_OK then service_status_loop e path nodes servs z2 else (ret, servs, z2))))"

section \<open>Gray releases\<close>

text \<open>\<open>tv\<close> is the time of day: seconds and microseconds.\<close>

definition gray_generate_id :: "nat \<times> nat \<Rightarrow> string" where
  "gray_generate_id tv = ''GRAYID'' @ show_nat (fst tv) @ ''-'' @ show_nat (snd tv)"

definition gray_serialize_content :: "(string, string) omap \<Rightarrow> int \<times> string" where
  "gray_serialize_content nodes =
     (if nodes = [] then (QCONF_ERR_PARAM, [])
      else graynodeval_to_tblval ((\<lambda>n. snd (nodeval_to_tblval (snd (serialize_to_tblkey QCONF_DATA_TYPE_NODE ''idc'' (fst n))) (snd n))) ` set nodes))"

definition gray_deserialize_content :: "string \<Rightarrow> (string \<times> string) list \<Rightarrow> int \<times> (string \<times> string) list" where
  "gray_deserialize_content content nodes =
     (if content = [] then (QCONF_ERR_PARAM, nodes)
      else
        (case tblval_to_graynodeval content of (ret, vnodes) \<Rightarrow>
           if ret \<noteq> QCONF_OK then (QCONF_ERR_OTHER, nodes)
           else
             (QCONF_OK, nodes @ map (\<lambda>v. case tblval_to_nodeval_path v ([], [], []) of (_, gray_val, gray_idc, gray_path) \<Rightarrow> (gray_path, gray_val))
                                  (sorted_list_of_set vnodes))))"

fun gray_check_loop ::
  "zk_server \<Rightarrow> (string \<times> string) list \<Rightarrow> (string, string) omap \<Rightarrow> QConfZK \<Rightarrow> int \<times> (string, string) omap \<times> QConfZK" where
  "gray_check_loop e [] new_nodes z = (QCONF_OK, new_nodes, z)"
| "gray_check_loop e (n # ns) new_nodes z =
     (case path_normalize (fst n) of (ret, zpath) \<Rightarrow>
        if ret \<noteq> QCONF_OK then (QCONF_ERR_OTHER, [], z)
        else
          (case zk_exist e zpath z of (ret, exist, z1) \<Rightarrow>
             if ret \<noteq> QCONF_OK \<or> \<not> exist \<or> length (snd n) > QCONF_ZK_MAX_VALUE_SIZE - 100 then (QCONF_ERR_OTHER, [], z1)
             else gray_check_loop e ns (omap_insert zpath (snd n) new_nodes) z1))"

definition zk_gray_check_nodes ::
  "zk_server \<Rightarrow> (string, string) omap \<Rightarrow> (string, string) omap \<Rightarrow> QConfZK \<Rightarrow> int \<times> (string, string) omap \<times> QConfZK" where
  "zk_gray_check_nodes e nodes new_nodes z =
     (if nodes = [] then (QCONF_ERR_PARAM, new_nodes, z) else gray_check_loop e nodes [] z)"

fun client_check_loop :: "zk_server \<Rightarrow> string list \<Rightarrow> QConfZK \<Rightarrow> int \<times> QConfZK" where
  "client_check_loop e [] z = (QCONF_OK, z)"
| "client_check_loop e (c # cs) z =
     (case zk_exist e (QCONF_NOTIFY_CLIENT_PREFIX @ ''/'' @ c) z of (ret, exist, z1) \<Rightarrow>
        if ret \<noteq> QCONF_OK \<or> exist then (QCONF_ERR_OTHER, z1) else client_check_loop e cs z1)"

definition zk_gray_check_chients :: "zk_server \<Rightarrow> string list \<Rightarrow> QConfZK \<Rightarrow> int \<times> QConfZK" where
  "zk_gray_check_chients e clients z = (if clients = [] then (QCONF_ERR_PARAM, z) else client_check_loop e clients z)"

text \<open>The node of a piece; both counters are \<open>unsigned int\<close>.\<close>

definition piece_node :: "string \<Rightarrow> nat \<Rightarrow> string" where
  "piece_node gray_id k = QCONF_NOTIFY_CONTENT_PREFIX @ ''/'' @ gray_id @ ''_'' @ integer_to_string (int k)"

partial_function (option) create_content_loop ::
  "zk_server \<Rightarrow> string \<Rightarrow> string \<Rightarrow> nat \<Rightarrow> nat \<Rightarrow> QConfZK \<Rightarrow> (int \<times> QConfZK) option" where
  "create_content_loop e gray_id content node_num index z =
     do { (ret, z1) \<leftarrow> zk_create e (piece_node gray_id node_num) (take QCONF_GRAY_CONTENT_MAX_SIZE (drop index content)) z;
          if ret \<noteq> QCONF_OK then Some (QCONF_ERR_GRAY_SET_CONTENT, z1)
          else
            (let index' = (index + QCONF_GRAY_CONTENT_MAX_SIZE) mod 2 ^ 32 in
             if index' < length content then create_content_loop e gray_id content ((node_num + 1) mod 2 ^ 32) index' z1
             else Some (QCONF_OK, z1)) }"

fun create_clients_loop :: "zk_server \<Rightarrow> string \<Rightarrow> string list \<Rightarrow> string \<Rightarrow> QConfZK \<Rightarrow> (int \<times> string \<times> QConfZK) option" where
  "create_clients_loop e gray_id [] bl_content z = Some (QCONF_OK, bl_content, z)"
| "create_clients_loop e gray_id (c # cs) bl_content z =
     do { (ret, z1) \<leftarrow> zk_create e (QCONF_NOTIFY_CLIENT_PREFIX @ ''/'' @ c) gray_id z;
          if ret \<noteq> QCONF_OK then Some (QCONF_ERR_GRAY_SET_CLIENTS, bl_content, z1)
          else create_clients_loop e gray_id cs (bl_content @ c @ [QCONF_NOTIFY_BACKLINK_DELIM]) z1 }"

definition backlink_node :: "string \<Rightarrow> string" where
  "backlink_node gray_id = QCONF_NOTIFY_BACKLINK_PREFIX @ ''/'' @ gray_id"

definition zk_gray_begin ::
  "zk_server \<Rightarrow> nat \<times> nat \<Rightarrow> (string, string) omap \<Rightarrow> string list \<Rightarrow> string \<Rightarrow> QConfZK \<Rightarrow> (int \<times> string \<times> QConfZK) option" where
  "zk_gray_begin e tv raw_nodes clients gray_id z =
     (case zk_gray_check_nodes e raw_nodes [] z of (ret, nodes, z1) \<Rightarrow>
        if ret \<noteq> QCONF_OK then Some (QCONF_ERR_PARAM, gray_id, z1)
        else
          (case zk_gray_check_chients e clients z1 of (ret, z2) \<Rightarrow>
             if ret \<noteq> QCONF_OK then Some (QCONF_ERR_PARAM, gray_id, z2)
             else
               (case gray_serialize_content nodes of (ret, content) \<Rightarrow>
                  let tmp_gray_id = gray_generate_id tv in
                  if ret \<noteq> QCONF_OK then Some (QCONF_ERR_GRAY_SERIALIZE, gray_id, z2)
                  else
                    do { (ret, z3) \<leftarrow> create_content_loop e tmp_gray_id content 0 0 z2;
                         if ret \<noteq> QCONF_OK then Some (ret, gray_id, z3)
                         else
                           do { (ret, bl_content, z4) \<leftarrow> create_clients_loop e tmp_gray_id clients [] z3;
                                if ret \<noteq> QCONF_OK then Some (ret, gray_id, z4)
                                else
                                  do { (ret, z5) \<leftarrow> zk_create e (backlink_node tmp_gray_id) bl_content z4;
                                       if ret \<noteq> QCONF_OK then Some (QCONF_ERR_GRAY_SET_BACKLINK, gray_id, z5)
                                       else Some (QCONF_OK, tmp_gray_id, z5) } } })))"

partial_function (option) get_content_loop ::
  "zk_server \<Rightarrow> string \<Rightarrow> nat \<Rightarrow> string \<Rightarrow> QConfZK \<Rightarrow> (int \<times> string \<times> QConfZK) option" where
  "get_content_loop e gray_id index scontent z =
     (case zk_get e (piece_node gray_id index) [] z of (ret, tmp_content, z1) \<Rightarrow>
        if ret = QCONF_OK then get_content_loop e gray_id (index + 1) (scontent @ tmp_content) z1
        else if ret = QCONF_ERR_ZOO_NOT_EXIST then Some (QCONF_OK, scontent, z1)
        else Some (ret, scontent, z1))"

definition zk_gray_get_content ::
  "zk_server \<Rightarrow> string \<Rightarrow> (string \<times> string) list \<Rightarrow> QConfZK \<Rightarrow> (int \<times> (string \<times> string) list \<times> QConfZK) option" where
  "zk_gray_get_content e gray_id nodes z =
     do { (ret, scontent, z1) \<leftarrow> get_content_loop e gray_id 0 [] z;
          if ret \<noteq> QCONF_OK then Some (ret, nodes, z1)
          else
            (case gray_deserialize_content scontent nodes of (ret, nodes') \<Rightarrow>
               Some (if ret \<noteq> QCONF_OK then QCONF_ERR_OTHER else QCONF_OK, nodes', z1)) }"

fun delete_clients_loop :: "zk_server \<Rightarrow> string list \<Rightarrow> QConfZK \<Rightarrow> int \<times> QConfZK" where
  "delete_clients_loop e [] z = (QCONF_OK, z)"
| "delete_clients_loop e (c # cs) z =
     (case zk_delete e (QCONF_NOTIFY_CLIENT_PREFIX @ ''/'' @ c) z of (ret, z1) \<Rightarrow>
        if ret \<noteq> QCONF_OK then (QCONF_ERR_GRAY_DELETE_CLIENTS, z1) else delete_clients_loop e cs z1)"

partial_function (option) delete_content_loop :: "zk_server \<Rightarrow> string \<Rightarrow> nat \<Rightarrow> QConfZK \<Rightarrow> (int \<times> QConfZK) option" where
  "delete_content_loop e gray_id index z =
     (case zk_delete_exist e (piece_node gray_id index) z of (ret, z1) \<Rightarrow>
        if ret = QCONF_OK then delete_content_loop e gray_id (index + 1) z1 else Some (ret, z1))"

definition zk_gray_delete_notify :: "zk_server \<Rightarrow> string \<Rightarrow> QConfZK \<Rightarrow> (int \<times> QConfZK) option" where
  "zk_gray_delete_notify e gray_id z =
     (case zk_get e (backlink_node gray_id) [] z of (ret, bl_content, z1) \<Rightarrow>
        if ret \<noteq> QCONF_OK then Some (QCONF_ERR_GRAY_GET_BACKLINK, z1)
        else
          (case delete_clients_loop e (getline_pieces QCONF_NOTIFY_BACKLINK_DELIM bl_content) z1 of (ret, z2) \<Rightarrow>
             if ret \<noteq> QCONF_OK then Some (ret, z2)
             else
               do { (ret, z3) \<leftarrow> delete_content_loop e gray_id 0 z2;
                    if ret \<noteq> QCONF_ERR_ZOO_NOT_EXIST then Some (QCONF_ERR_GRAY_DELETE_CONTENT, z3)
                    else
                      (case zk_delete e (backlink_node gray_id) z3 of (ret, z4) \<Rightarrow>
                         Some (if ret \<noteq> QCONF_OK then QCONF_ERR_GRAY_DELETE_BACKLINK else QCONF_OK, z4)) }))"

definition zk_gray_rollback :: "zk_server \<Rightarrow> string \<Rightarrow> QConfZK \<Rightarrow> (int \<times> QConfZK) option" where
  "zk_gray_rollback e gray_id z = zk_gray_delete_notify e gray_id z"

fun commit_loop :: "zk_server \<Rightarrow> (string \<times> string) list \<Rightarrow> QConfZK \<Rightarrow> (int \<times> QConfZK) option" where
  "commit_loop e [] z = Some (QCONF_OK, z)"
| "commit_loop e (n # ns) z =
     do { (ret, z1) \<leftarrow> zk_node_set e (fst n) (snd n) z;
          if ret \<noteq> QCONF_OK then Some (QCONF_ERR_GRAY_COMMIT, z1) else commit_loop e ns z1 }"

definition zk_gray_commit :: "zk_server \<Rightarrow> string \<Rightarrow> QConfZK \<Rightarrow> (int \<times> QConfZK) option" where
  "zk_gray_commit e gray_id z =
     do { (ret, nodes, z1) \<leftarrow> zk_gray_get_content e gray_id [] z;
          if ret \<noteq> QCONF_OK then Some (QCONF_ERR_GRAY_GET_CONTENT, z1)
          else
            do { (ret, z2) \<leftarrow> commit_loop e nodes z1;
                 if ret \<noteq> QCONF_OK then Some (ret, z2) else zk_gray_delete_notify e gray_id z2 } }"

end
