(* ===== verification/QManagerLaws.thy ===== *)
theory QManagerLaws
  imports QManager "HOL-Library.Sublist"
begin

text \<open>
  What the server promises, and what every call of the manager then does to the tree.
\<close>

section \<open>The documented behaviour of the server\<close>

text \<open>
  A call that answers \<open>ZOK\<close> has done its work on a node that allows it; the answers that name a missing,
  a present or an inner node are true; these and the two answers of the client library leave the tree
  alone.  After any other answer, a lost connection for example, the work may or may not have been done.
\<close>

definition no_effect :: "int \<Rightarrow> bool" where
  "no_effect rc \<longleftrightarrow> rc \<in> {ZNODEEXISTS, ZNONODE, ZNOTEMPTY, ZINVALIDSTATE, ZMARSHALLINGERROR}"

definition create_law :: "zk_server \<Rightarrow> bool" where
  "create_law e \<longleftrightarrow> (\<forall>n T p v rc T'. sv_create e n T p v = (rc, T') \<longrightarrow>
     (T' = T \<or> T p = None \<and> T' = T(p \<mapsto> v)) \<and> (rc = ZOK \<longrightarrow> T p = None \<and> T' = T(p \<mapsto> v)) \<and> (no_effect rc \<longrightarrow> T' = T)
     \<and> (rc = ZNODEEXISTS \<longrightarrow> T p \<noteq> None) \<and> (rc = ZNONODE \<longrightarrow> parent_node p \<noteq> [] \<and> T (parent_node p) = None))"

definition set_law :: "zk_server \<Rightarrow> bool" where
  "set_law e \<longleftrightarrow> (\<forall>n T p v rc T'. sv_set e n T p v = (rc, T') \<longrightarrow>
     (T' = T \<or> T p \<noteq> None \<and> T' = T(p \<mapsto> v)) \<and> (rc = ZOK \<longrightarrow> T p \<noteq> None \<and> T' = T(p \<mapsto> v)) \<and> (no_effect rc \<longrightarrow> T' = T)
     \<and> (rc = ZNONODE \<longrightarrow> T p = None))"

definition delete_law :: "zk_server \<Rightarrow> bool" where
  "delete_law e \<longleftrightarrow> (\<forall>n T p rc T'. sv_delete e n T p = (rc, T') \<longrightarrow>
     (T' = T \<or> T p \<noteq> None \<and> T' = T(p := None)) \<and> (rc = ZOK \<longrightarrow> T p \<noteq> None \<and> T' = T(p := None)) \<and> (no_effect rc \<longrightarrow> T' = T)
     \<and> (rc = ZNONODE \<longrightarrow> T p = None) \<and> (rc = ZNOTEMPTY \<longrightarrow> (\<exists>q. T (p @ ''/'' @ q) \<noteq> None)))"

definition get_law :: "zk_server \<Rightarrow> bool" where
  "get_law e \<longleftrightarrow> (\<forall>n T p rc d. sv_get e n T p = (rc, d) \<longrightarrow>
     (rc = ZOK \<longrightarrow> T p = Some (case d of Some v \<Rightarrow> v | None \<Rightarrow> [])) \<and> (rc = ZNONODE \<longrightarrow> T p = None))"

definition exists_law :: "zk_server \<Rightarrow> bool" where
  "exists_law e \<longleftrightarrow> (\<forall>n T p. (sv_exists e n T p = ZOK \<longrightarrow> T p \<noteq> None) \<and> (sv_exists e n T p = ZNONODE \<longrightarrow> T p = None))"

definition child_names :: "ztree \<Rightarrow> string \<Rightarrow> string set" where
  "child_names T p = {c. c \<noteq> [] \<and> CHR ''/'' \<notin> set c \<and> T (p @ ''/'' @ c) \<noteq> None}"

definition children_law :: "zk_server \<Rightarrow> bool" where
  "children_law e \<longleftrightarrow> (\<forall>n T p rc names. sv_children e n T p = (rc, names) \<longrightarrow>
     (rc = ZOK \<longrightarrow> T p \<noteq> None \<and> set names = child_names T p) \<and> (rc = ZNONODE \<longrightarrow> T p = None))"

definition zk_laws :: "zk_server \<Rightarrow> bool" where
  "zk_laws e \<longleftrightarrow> create_law e \<and> set_law e \<and> delete_law e \<and> get_law e \<and> exists_law e \<and> children_law e"

text \<open>Paths that the server accepts, and a server that decides every call on such a path.\<close>

definition segment_ok :: "string \<Rightarrow> bool" where
  "segment_ok s \<longleftrightarrow> s \<noteq> [] \<and> s \<noteq> ''.'' \<and> s \<noteq> ''..'' \<and> (\<forall>c\<in>set s. c \<noteq> CHR ''/'' \<and> CHR '' '' \<le> c \<and> c \<le> CHR ''~'')"

definition zjoin :: "string list \<Rightarrow> string" where
  "zjoin segs = concat (map (\<lambda>s. ''/'' @ s) segs)"

definition zpath_ok :: "string \<Rightarrow> bool" where
  "zpath_ok p \<longleftrightarrow> (\<exists>segs. segs \<noteq> [] \<and> list_all segment_ok segs \<and> p = zjoin segs)"

text \<open>
  A server that decides every call on a well-formed path: no call is lost to the connection, and values
  of every length are accepted, while a real server has a limit of about a megabyte.
\<close>

definition zk_decides :: "zk_server \<Rightarrow> bool" where
  "zk_decides e \<longleftrightarrow>
     (\<forall>n T p v. zpath_ok p \<longrightarrow>
        fst (sv_create e n T p v) \<in> {ZOK, ZNODEEXISTS, ZNONODE} \<and> fst (sv_set e n T p v) \<in> {ZOK, ZNONODE}
      \<and> fst (sv_delete e n T p) \<in> {ZOK, ZNONODE, ZNOTEMPTY} \<and> fst (sv_get e n T p) \<in> {ZOK, ZNONODE}
      \<and> sv_exists e n T p \<in> {ZOK, ZNONODE} \<and> (finite (child_names T p) \<longrightarrow> fst (sv_children e n T p) \<in> {ZOK, ZNONODE}))"

lemma zk_lawsD:
  assumes "zk_laws e"
  shows "create_law e" "set_law e" "delete_law e" "get_law e" "exists_law e" "children_law e"
  using assms by (simp_all add: zk_laws_def)

section \<open>Calls\<close>

text \<open>
  A transient answer leaves the tree alone, so that the loop is one call on the tree at its start,
  or three transient answers.
\<close>

lemma call_retry_effect:
  assumes "call_retry call verdict i z = (c, ro, z')"
    and "\<forall>z r z1. call z = (r, z1) \<longrightarrow> verdict r = None \<longrightarrow> tree z1 = tree z \<and> zh z1 = zh z"
  shows "(\<exists>r z0. tree z0 = tree z \<and> zh z0 = zh z \<and> call z0 = (r, z') \<and> verdict r = Some c \<and> ro = Some r)
    \<or> c = QCONF_ERR_ZOO_FAILED \<and> ro = None \<and> tree z' = tree z \<and> zh z' = zh z"
  using assms
proof (induction call verdict i z rule: call_retry.induct [case_names step])
  case (step call verdict i z)
  show ?case
  proof (cases "i < QCONF_GET_RETRIES")
    case False
    then show ?thesis using step.prems(1) by (simp add: call_retry.simps [of call verdict i])
  next
    case True
    obtain r z1 where rz: "call z = (r, z1)" by fastforce
    show ?thesis
    proof (cases "verdict r")
      case None
      have "call_retry call verdict (i + 1) z1 = (c, ro, z')"
        using step.prems(1) True rz None by (subst (asm) call_retry.simps) simp
      moreover have "tree z1 = tree z" "zh z1 = zh z" using step.prems(2) rz None by blast+
      ultimately show ?thesis using step.IH [OF True rz [symmetric] None _ step.prems(2)] by simp
    next
      case (Some d)
      then have "c = d" "ro = Some r" "z' = z1" using step.prems(1) True rz by (simp_all add: call_retry.simps [of call verdict i])
      then show ?thesis using rz Some by blast
    qed
  qed
qed

lemma call_retry_decided:
  "call z = (r, z1) \<Longrightarrow> verdict r = Some c \<Longrightarrow> call_retry call verdict 0 z = (c, Some r, z1)"
  by (simp add: call_retry.simps [of call verdict 0])

lemma verdict_None: "access_verdict r = None \<longleftrightarrow> r = ZINVALIDSTATE \<or> r = ZMARSHALLINGERROR"
  "exist_verdict r = None \<longleftrightarrow> r = ZINVALIDSTATE \<or> r = ZMARSHALLINGERROR"
  "delete_verdict r = None \<longleftrightarrow> r = ZINVALIDSTATE \<or> r = ZMARSHALLINGERROR"
  by (auto simp: access_verdict_def exist_verdict_def delete_verdict_def)

lemma access_codes: "access_verdict r = Some QCONF_OK \<longleftrightarrow> r = ZOK" "access_verdict r = Some QCONF_ERR_ZOO_NOT_EXIST \<longleftrightarrow> r = ZNONODE"
  by (auto simp: access_verdict_def)

lemma delete_codes:
  "delete_verdict r = Some QCONF_OK \<longleftrightarrow> r = ZOK" "delete_verdict r = Some QCONF_ERR_ZOO_NOT_EXIST \<longleftrightarrow> r = ZNONODE"
  by (auto simp: access_verdict_def delete_verdict_def)

lemma write_effect:
  assumes "call_retry (zoo_write f) verdict 0 z = (c, ro, z')"
    and "\<And>n T rc T'. f n T = (rc, T') \<Longrightarrow> verdict rc = None \<Longrightarrow> T' = T"
  shows "(\<exists>n rc. f n (tree z) = (rc, tree z') \<and> verdict rc = Some c \<and> zh z' = zh z)
    \<or> c = QCONF_ERR_ZOO_FAILED \<and> tree z' = tree z \<and> zh z' = zh z"
proof -
  have "\<forall>z r z1. zoo_write f z = (r, z1) \<longrightarrow> verdict r = None \<longrightarrow> tree z1 = tree z \<and> zh z1 = zh z"
  proof (intro allI impI)
    fix z r z1 assume "zoo_write f z = (r, z1)" "verdict r = None"
    then show "tree z1 = tree z \<and> zh z1 = zh z"
      using assms(2) [of "calls z" "tree z"] by (cases "f (calls z) (tree z)") (auto simp: zoo_write_def)
  qed
  from call_retry_effect [OF assms(1) this] show ?thesis
  proof (elim disjE exE conjE)
    fix r z0 assume "tree z0 = tree z" "zh z0 = zh z" "zoo_write f z0 = (r, z')" "verdict r = Some c"
    then have "f (calls z0) (tree z) = (r, tree z')" "zh z' = zh z" by (auto simp: zoo_write_def split: prod.splits)
    then show ?thesis using \<open>verdict r = Some c\<close> by blast
  qed simp
qed

lemma read_effect:
  assumes "call_retry (zoo_read f) verdict 0 z = (c, ro, z')"
  shows "tree z' = tree z \<and> zh z' = zh z
    \<and> ((\<exists>n. ro = Some (f n (tree z)) \<and> verdict (f n (tree z)) = Some c) \<or> c = QCONF_ERR_ZOO_FAILED \<and> ro = None)"
proof -
  have "\<forall>z r z1. zoo_read f z = (r, z1) \<longrightarrow> verdict r = None \<longrightarrow> tree z1 = tree z \<and> zh z1 = zh z"
    by (auto simp: zoo_read_def)
  from call_retry_effect [OF assms this] show ?thesis by (auto simp: zoo_read_def)
qed

lemma zk_modify_effect:
  assumes "set_law e" "NUL \<notin> set p" "zk_modify e p v z = (ret, z')"
  shows "zh z' = zh z" "tree z' = tree z \<or> tree z p \<noteq> None \<and> tree z' = (tree z)(p \<mapsto> v)"
    "ret = QCONF_OK \<Longrightarrow> tree z p \<noteq> None \<and> tree z' = (tree z)(p \<mapsto> v)"
    "ret = QCONF_ERR_ZOO_NOT_EXIST \<Longrightarrow> tree z p = None \<and> tree z' = tree z"
proof -
  obtain ro where "call_retry (zoo_write (\<lambda>n T. sv_set e n T p v)) access_verdict 0 z = (ret, ro, z')"
    using assms(2,3) by (auto simp: zk_modify_def split: prod.splits)
  moreover have "T' = T" if "sv_set e n T p v = (rc, T')" "access_verdict rc = None" for n T rc T'
    using that assms(1) unfolding verdict_None set_law_def no_effect_def by blast
  ultimately have "(\<exists>n rc. sv_set e n (tree z) p v = (rc, tree z') \<and> access_verdict rc = Some ret \<and> zh z' = zh z)
      \<or> ret = QCONF_ERR_ZOO_FAILED \<and> tree z' = tree z \<and> zh z' = zh z"
    by (rule write_effect)
  then have all: "(zh z' = zh z) \<and> (tree z' = tree z \<or> tree z p \<noteq> None \<and> tree z' = (tree z)(p \<mapsto> v)) \<and> (ret = QCONF_OK \<longrightarrow> tree z p \<noteq> None \<and> tree z' = (tree z)(p \<mapsto> v)) \<and> (ret = QCONF_ERR_ZOO_NOT_EXIST \<longrightarrow> tree z p = None \<and> tree z' = tree z)"
  proof (elim disjE exE conjE)
    fix n rc assume s: "sv_set e n (tree z) p v = (rc, tree z')" "access_verdict rc = Some ret" "zh z' = zh z"
    have "ret = QCONF_OK \<Longrightarrow> rc = ZOK" "ret = QCONF_ERR_ZOO_NOT_EXIST \<Longrightarrow> rc = ZNONODE" "no_effect ZNONODE"
      using s(2) access_codes [of rc] by (simp_all add: no_effect_def)
    moreover note L = assms(1) [unfolded set_law_def, rule_format, OF s(1)]
    have "tree z' = tree z \<or> tree z p \<noteq> None \<and> tree z' = (tree z)(p \<mapsto> v)" using L by blast
    ultimately show ?thesis using L s(3) by (intro conjI impI) simp_all
  qed simp
  show "zh z' = zh z" "tree z' = tree z \<or> tree z p \<noteq> None \<and> tree z' = (tree z)(p \<mapsto> v)" "ret = QCONF_OK \<Longrightarrow> tree z p \<noteq> None \<and> tree z' = (tree z)(p \<mapsto> v)" "ret = QCONF_ERR_ZOO_NOT_EXIST \<Longrightarrow> tree z p = None \<and> tree z' = tree z"
    using all by blast+
qed

lemma zk_delete_exist_effect:
  assumes "delete_law e" "NUL \<notin> set p" "zk_delete_exist e p z = (ret, z')"
  shows "zh z' = zh z" "tree z' = tree z \<or> tree z' = (tree z)(p := None)"
    "ret = QCONF_OK \<Longrightarrow> tree z p \<noteq> None \<and> tree z' = (tree z)(p := None)"
    "ret = QCONF_ERR_ZOO_NOT_EXIST \<Longrightarrow> tree z p = None \<and> tree z' = tree z"
proof -
  obtain ro where "call_retry (zoo_write (\<lambda>n T. sv_delete e n T p)) delete_verdict 0 z = (ret, ro, z')"
    using assms(2,3) by (auto simp: zk_delete_exist_def split: prod.splits)
  moreover have "T' = T" if "sv_delete e n T p = (rc, T')" "delete_verdict rc = None" for n T rc T'
    using that assms(1) unfolding verdict_None delete_law_def no_effect_def by blast
  ultimately have "(\<exists>n rc. sv_delete e n (tree z) p = (rc, tree z') \<and> delete_verdict rc = Some ret \<and> zh z' = zh z)
      \<or> ret = QCONF_ERR_ZOO_FAILED \<and> tree z' = tree z \<and> zh z' = zh z"
    by (rule write_effect)
  then have all: "(zh z' = zh z) \<and> (tree z' = tree z \<or> tree z' = (tree z)(p := None)) \<and> (ret = QCONF_OK \<longrightarrow> tree z p \<noteq> None \<and> tree z' = (tree z)(p := None)) \<and> (ret = QCONF_ERR_ZOO_NOT_EXIST \<longrightarrow> tree z p = None \<and> tree z' = tree z)"
  proof (elim disjE exE conjE)
    fix n rc assume s: "sv_delete e n (tree z) p = (rc, tree z')" "delete_verdict rc = Some ret" "zh z' = zh z"
    have "ret = QCONF_OK \<Longrightarrow> rc = ZOK" "ret = QCONF_ERR_ZOO_NOT_EXIST \<Longrightarrow> rc = ZNONODE" "no_effect ZNONODE"
      using s(2) delete_codes [of rc] by (simp_all add: no_effect_def)
    moreover note L = assms(1) [unfolded delete_law_def, rule_format, OF s(1)]
    have "tree z' = tree z \<or> tree z' = (tree z)(p := None)" using L by blast
    ultimately show ?thesis using L s(3) by (intro conjI impI) simp_all
  qed simp
  show "zh z' = zh z" "tree z' = tree z \<or> tree z' = (tree z)(p := None)" "ret = QCONF_OK \<Longrightarrow> tree z p \<noteq> None \<and> tree z' = (tree z)(p := None)" "ret = QCONF_ERR_ZOO_NOT_EXIST \<Longrightarrow> tree z p = None \<and> tree z' = tree z"
    using all by blast+
qed

lemma zk_delete_effect:
  assumes "delete_law e" "NUL \<notin> set p" "zk_delete e p z = (ret, z')"
  shows "zh z' = zh z" "tree z' = tree z \<or> tree z' = (tree z)(p := None)" "ret = QCONF_OK \<Longrightarrow> tree z' = (tree z)(p := None)"
proof -
  obtain r where r: "zk_delete_exist e p z = (r, z')" "ret = (if r = QCONF_ERR_ZOO_NOT_EXIST then QCONF_OK else r)"
    using assms(3) by (auto simp: zk_delete_def split: prod.splits)
  note d = zk_delete_exist_effect [OF assms(1,2) r(1)]
  show "zh z' = zh z" "tree z' = tree z \<or> tree z' = (tree z)(p := None)" "ret = QCONF_OK \<Longrightarrow> tree z' = (tree z)(p := None)"
    using d r(2) by (auto split: if_splits simp: fun_upd_idem)
qed

lemma zk_get_effect:
  assumes "get_law e" "NUL \<notin> set p" "zk_get e p old z = (ret, v, z')"
  shows "tree z' = tree z" "zh z' = zh z" "ret = QCONF_OK \<Longrightarrow> tree z p = Some v" "ret = QCONF_ERR_ZOO_NOT_EXIST \<Longrightarrow> tree z p = None"
proof -
  obtain ro where r: "call_retry (zoo_read (\<lambda>n T. sv_get e n T p)) (\<lambda>r. access_verdict (fst r)) 0 z = (ret, ro, z')"
    "ret = QCONF_OK \<Longrightarrow> v = (case ro of Some (_, Some d) \<Rightarrow> d | _ \<Rightarrow> [])"
    using assms(2,3) by (auto simp: zk_get_def split: prod.splits)
  note rd = read_effect [OF r(1)]
  then show "tree z' = tree z" "zh z' = zh z" by simp_all
  show "tree z p = Some v" if ok: "ret = QCONF_OK"
  proof -
    obtain n where n: "ro = Some (sv_get e n (tree z) p)" "fst (sv_get e n (tree z) p) = ZOK"
      using rd ok by (auto simp: access_codes)
    obtain d where d: "sv_get e n (tree z) p = (ZOK, d)" using n(2) by (metis prod.collapse)
    have "tree z p = Some (case d of Some v \<Rightarrow> v | None \<Rightarrow> [])" using assms(1) [unfolded get_law_def, rule_format, OF d] by simp
    then show ?thesis using r(2) [OF ok] n(1) d by (simp split: option.splits)
  qed
  show "tree z p = None" if ok: "ret = QCONF_ERR_ZOO_NOT_EXIST"
  proof -
    obtain n where "fst (sv_get e n (tree z) p) = ZNONODE" using rd ok by (auto simp: access_codes)
    then show ?thesis using assms(1) unfolding get_law_def by (metis prod.collapse)
  qed
qed

lemma zk_exist_effect:
  assumes "exists_law e" "NUL \<notin> set p" "zk_exist e p z = (ret, ex, z')"
  shows "tree z' = tree z" "zh z' = zh z" "ret = QCONF_OK \<Longrightarrow> ex = (tree z p \<noteq> None)"
proof -
  obtain ro where r: "call_retry (zoo_read (\<lambda>n T. sv_exists e n T p)) exist_verdict 0 z = (ret, ro, z')" "ex = (ro = Some ZOK)"
    using assms(2,3) by (auto simp: zk_exist_def split: prod.splits)
  note rd = read_effect [OF r(1)]
  then show "tree z' = tree z" "zh z' = zh z" by simp_all
  have v: "exist_verdict rc = Some QCONF_OK \<Longrightarrow> rc = ZOK \<or> rc = ZNONODE" for rc
    by (auto simp: exist_verdict_def access_verdict_def split: if_splits)
  show "ex = (tree z p \<noteq> None)" if ok: "ret = QCONF_OK"
  proof -
    obtain n where n: "ro = Some (sv_exists e n (tree z) p)" "exist_verdict (sv_exists e n (tree z) p) = Some QCONF_OK"
      using rd ok by auto
    have "(sv_exists e n (tree z) p = ZOK \<longrightarrow> tree z p \<noteq> None) \<and> (sv_exists e n (tree z) p = ZNONODE \<longrightarrow> tree z p = None)"
      using assms(1) unfolding exists_law_def by blast
    then show ?thesis using v [OF n(2)] n(1) r(2) by auto
  qed
qed

lemma zk_list_effect:
  assumes "children_law e" "checked_path node z = Some p" "NUL \<notin> set p" "zk_list e node old z = (ret, cs, z')"
  shows "tree z' = tree z" "zh z' = zh z" "ret = QCONF_OK \<Longrightarrow> tree z p \<noteq> None \<and> set cs = child_names (tree z) p \<and> sorted cs \<and> distinct cs"
    "ret = QCONF_ERR_ZOO_NOT_EXIST \<Longrightarrow> tree z p = None" "ret \<noteq> QCONF_OK \<Longrightarrow> cs = []"
proof -
  obtain ro where r: "call_retry (zoo_read (\<lambda>n T. sv_children e n T p)) (\<lambda>r. access_verdict (fst r)) 0 z = (ret, ro, z')"
    "ret = QCONF_OK \<Longrightarrow> cs = (case ro of Some (_, names) \<Rightarrow> sorted_list_of_set (set names) | None \<Rightarrow> [])" "ret \<noteq> QCONF_OK \<Longrightarrow> cs = []"
    using assms(2,3,4) by (auto simp: zk_list_def split: prod.splits)
  note rd = read_effect [OF r(1)]
  then show "tree z' = tree z" "zh z' = zh z" by simp_all
  show "ret \<noteq> QCONF_OK \<Longrightarrow> cs = []" by (rule r(3))
  show "tree z p \<noteq> None \<and> set cs = child_names (tree z) p \<and> sorted cs \<and> distinct cs" if ok: "ret = QCONF_OK"
  proof -
    obtain n where n: "ro = Some (sv_children e n (tree z) p)" "fst (sv_children e n (tree z) p) = ZOK"
      using rd ok by (auto simp: access_codes)
    obtain names where d: "sv_children e n (tree z) p = (ZOK, names)" using n(2) by (metis prod.collapse)
    then have "cs = sorted_list_of_set (set names)" using r(2) [OF ok] n(1) by simp
    then have "set cs = set names" "sorted cs" "distinct cs" by simp_all
    moreover have "tree z p \<noteq> None" "set names = child_names (tree z) p" using assms(1) d unfolding children_law_def by blast+
    ultimately show ?thesis by blast
  qed
  show "tree z p = None" if ok: "ret = QCONF_ERR_ZOO_NOT_EXIST"
  proof -
    obtain n where "fst (sv_children e n (tree z) p) = ZNONODE" using rd ok by (auto simp: access_codes)
    then show ?thesis using assms(1) unfolding children_law_def by (metis prod.collapse)
  qed
qed

section \<open>Creating a node\<close>

text \<open>\<open>q\<close> is \<open>p\<close> or one of the nodes above it; nodes that \<open>zk_create\<close> may add on the way to \<open>p\<close>.\<close>

definition on_way :: "string \<Rightarrow> string \<Rightarrow> bool" where
  "on_way q p \<longleftrightarrow> q = p \<or> q \<noteq> [] \<and> prefix (q @ ''/'') p"

definition grown :: "string \<Rightarrow> ztree \<Rightarrow> ztree \<Rightarrow> bool" where
  "grown p T T' \<longleftrightarrow> T \<subseteq>\<^sub>m T' \<and> (\<forall>q. T' q \<noteq> T q \<longrightarrow> on_way q p)"

lemma on_way_refl [simp]: "on_way p p"
  by (simp add: on_way_def)

lemma on_way_parent:
  assumes "parent_node p \<noteq> []"
  shows "on_way (parent_node p) p"
  using assms
proof (cases "CHR ''/'' \<in> set p")
  case True
  then obtain a b where "p = a @ CHR ''/'' # b" "CHR ''/'' \<notin> set b" using split_list_last by metis
  then show ?thesis using assms by (simp add: parent_node_def find_last_of_split on_way_def)
qed (simp add: parent_node_def find_last_of_def)

lemma on_way_trans: "on_way q p \<Longrightarrow> on_way p r \<Longrightarrow> on_way q r"
  unfolding on_way_def by (auto simp: prefix_def)

lemma grown_refl [simp]: "grown p T T"
  by (simp add: grown_def)

lemma grown_trans: "grown p T T' \<Longrightarrow> grown p T' T'' \<Longrightarrow> grown p T T''"
  unfolding grown_def by (metis map_le_trans)

lemma grown_on_way: "grown q T T' \<Longrightarrow> on_way q p \<Longrightarrow> grown p T T'"
  unfolding grown_def by (metis on_way_trans)

lemma grown_add: "T p = None \<Longrightarrow> grown p T (T(p \<mapsto> v))"
  by (auto simp: grown_def map_le_def)

lemma grown_keeps: "grown p T T' \<Longrightarrow> T q = Some v \<Longrightarrow> T' q = Some v"
  unfolding grown_def map_le_def by (metis domI)

lemma NUL_parent: "NUL \<notin> set p \<Longrightarrow> NUL \<notin> set (parent_node p)"
  by (auto simp: parent_node_def split: option.splits dest: in_set_takeD)

definition created :: "string \<Rightarrow> string \<Rightarrow> QConfZK \<Rightarrow> int \<times> QConfZK \<Rightarrow> bool" where
  "created p v z = (\<lambda>(ret, z'). zh z' = zh z \<and> grown p (tree z) (tree z')
     \<and> (ret = QCONF_OK \<longrightarrow> tree z p = None \<and> tree z' p = Some v) \<and> (ret = QCONF_ERR_ZOO_ALREADY_EXIST \<longrightarrow> tree z' p \<noteq> None \<and> (parent_node p \<noteq> p \<longrightarrow> tree z p \<noteq> None)))"

lemma parent_above:
  assumes "parent_node p \<noteq> p"
  shows "\<not> on_way p (parent_node p)"
proof -
  have "length (parent_node p) \<le> length p" by (auto simp: parent_node_def split: option.split)
  then show ?thesis using assms by (auto simp: on_way_def dest: prefix_length_le)
qed

lemma created_after:
  assumes "zh z1 = zh z" "grown p (tree z) (tree z1)" "parent_node p \<noteq> p \<Longrightarrow> tree z1 p = tree z p" "created p v z1 y"
  shows "created p v z y"
proof -
  have "tree z1 p = None \<Longrightarrow> tree z p = None" using grown_keeps [OF assms(2)] by (cases "tree z p") auto
  then show ?thesis using assms grown_trans [OF assms(2)] by (auto simp: created_def split: prod.splits)
qed

lemma create_call:
  assumes "create_law e" "NUL \<notin> set p" "zoo_write (\<lambda>n T. sv_create e n T (cstr p) v) z = (rc, z1)"
  shows "zh z1 = zh z" "grown p (tree z) (tree z1)" "rc = ZOK \<Longrightarrow> tree z p = None \<and> tree z1 p = Some v"
    "no_effect rc \<Longrightarrow> tree z1 = tree z" "rc = ZNODEEXISTS \<Longrightarrow> tree z p \<noteq> None"
    "rc = ZNONODE \<Longrightarrow> parent_node p \<noteq> [] \<and> tree z (parent_node p) = None"
proof -
  obtain T where T: "sv_create e (calls z) (tree z) p v = (rc, T)" "z1 = z\<lparr>tree := T, calls := calls z + 1\<rparr>"
    using assms(2,3) by (auto simp: zoo_write_def split: prod.splits)
  note L = assms(1) [unfolded create_law_def, rule_format, OF T(1)]
  show "zh z1 = zh z" by (simp add: T(2))
  have "T = tree z \<or> tree z p = None \<and> T = (tree z)(p \<mapsto> v)" using L by blast
  then show "grown p (tree z) (tree z1)" using grown_add [of "tree z" p v] by (auto simp: T(2))
  show "rc = ZOK \<Longrightarrow> tree z p = None \<and> tree z1 p = Some v" "no_effect rc \<Longrightarrow> tree z1 = tree z" "rc = ZNODEEXISTS \<Longrightarrow> tree z p \<noteq> None"
    "rc = ZNONODE \<Longrightarrow> parent_node p \<noteq> [] \<and> tree z (parent_node p) = None"
    using L by (simp_all add: T(2))
qed

lemma zk_create_from_effect:
  assumes "zk_create_from e i p v z = Some y" "create_law e" "NUL \<notin> set p"
  shows "created p v z y"
proof -
  have "create_law e \<longrightarrow> NUL \<notin> set p \<longrightarrow> created p v z y"
  proof (rule zk_create_from.raw_induct [where P = "\<lambda>e i p v z y. create_law e \<longrightarrow> NUL \<notin> set p \<longrightarrow> created p v z y", OF _ assms(1)],
      intro impI)
    fix f e i p v z y
    assume IH: "\<And>e i p v z y. f e i p v z = Some y \<Longrightarrow> create_law e \<longrightarrow> NUL \<notin> set p \<longrightarrow> created p v z y"
      and law: "create_law e" and p: "NUL \<notin> set p"
      and body: "(if i < QCONF_GET_RETRIES then
        (let (ret, z1) = zoo_write (\<lambda>n T. sv_create e n T (cstr p) v) z in
         if ret = ZOK then Some (QCONF_OK, z1)
         else if ret = ZNODEEXISTS then Some (QCONF_ERR_ZOO_ALREADY_EXIST, z1)
         else if ret = ZNONODE then
           do { (ret, z2) \<leftarrow> f e 0 (parent_node p) [] z1;
                if ret \<noteq> QCONF_OK \<and> ret \<noteq> QCONF_ERR_ZOO_ALREADY_EXIST then Some (ret, z2)
                else f e 0 p v z2 }
         else if ret = ZINVALIDSTATE \<or> ret = ZMARSHALLINGERROR then f e (i + 1) p v z1
         else Some (QCONF_ERR_ZOO_FAILED, z1))
      else Some (QCONF_ERR_ZOO_FAILED, z)) = Some y"
    show "created p v z y"
    proof (cases "i < QCONF_GET_RETRIES")
      case False
      then show ?thesis using body by (auto simp: created_def)
    next
      case True
      obtain rc z1 where w: "zoo_write (\<lambda>n T. sv_create e n T (cstr p) v) z = (rc, z1)" by fastforce
      note c = create_call [OF law p w]
      note run = body [unfolded w, simplified True]
      consider (ok) "rc = ZOK" | (ex) "rc = ZNODEEXISTS" | (up) "rc = ZNONODE" | (again) "rc = ZINVALIDSTATE \<or> rc = ZMARSHALLINGERROR"
        | (fail) "rc \<notin> {ZOK, ZNODEEXISTS, ZNONODE, ZINVALIDSTATE, ZMARSHALLINGERROR}" by blast
      then show ?thesis
      proof cases
        case ok
        then have "y = (QCONF_OK, z1)" using run by simp
        then show ?thesis using c(1,2) c(3) [OF ok] by (simp add: created_def)
      next
        case ex
        then have "y = (QCONF_ERR_ZOO_ALREADY_EXIST, z1)" "tree z1 p \<noteq> None"
          using run c(4,5) by (simp_all add: no_effect_def)
        then show ?thesis using c(1,2) c(5) [OF ex] by (simp add: created_def)
      next
        case up
        then obtain ret z2 where f: "f e 0 (parent_node p) [] z1 = Some (ret, z2)"
          "(if ret \<noteq> QCONF_OK \<and> ret \<noteq> QCONF_ERR_ZOO_ALREADY_EXIST then Some (ret, z2) else f e 0 p v z2) = Some y"
          using run by (simp add: bind_eq_Some_conv) blast
        have par: "created (parent_node p) [] z1 (ret, z2)" using IH [OF f(1)] law NUL_parent [OF p] by blast
        then have g: "zh z2 = zh z" "grown p (tree z) (tree z2)"
          using c(1) grown_trans [OF c(2) grown_on_way [OF _ on_way_parent]] c(6) [OF up] by (simp_all add: created_def)
        have k: "parent_node p \<noteq> p \<Longrightarrow> tree z2 p = tree z p"
          using par parent_above c(4) up unfolding created_def grown_def no_effect_def by auto
        show ?thesis
        proof (cases "ret \<noteq> QCONF_OK \<and> ret \<noteq> QCONF_ERR_ZOO_ALREADY_EXIST")
          case True
          then have "y = (ret, z2)" using f(2) by simp
          then show ?thesis using g True by (simp add: created_def)
        next
          case False
          then have "f e 0 p v z2 = Some y" using f(2) by (simp split: if_splits)
          then show ?thesis using created_after [OF g k] IH law p by blast
        qed
      next
        case again
        then have "f e (i + 1) p v z1 = Some y" using run by auto
        moreover have "tree z1 p = tree z p" using c(4) again by (auto simp: no_effect_def)
        ultimately show ?thesis using created_after [OF c(1,2)] IH law p by blast
      next
        case fail
        then have "y = (QCONF_ERR_ZOO_FAILED, z1)" using run by simp
        then show ?thesis using c(1,2) by (simp add: created_def)
      qed
    qed
  qed
  then show ?thesis using assms(2,3) by blast
qed

lemma zk_create_effect:
  assumes "zk_create e p v z = Some (ret, z')" "create_law e" "NUL \<notin> set p"
  shows "zh z' = zh z" "grown p (tree z) (tree z')" "ret = QCONF_OK \<Longrightarrow> tree z p = None \<and> tree z' p = Some v"
    "ret = QCONF_ERR_ZOO_ALREADY_EXIST \<Longrightarrow> tree z' p \<noteq> None \<and> (parent_node p \<noteq> p \<longrightarrow> tree z p \<noteq> None)"
  using zk_create_from_effect [OF assms(1) [unfolded zk_create_def] assms(2,3)] by (simp_all add: created_def)

lemma set_or_create_effect:
  assumes "set_or_create e p v z = Some (ret, z')" "zk_laws e" "NUL \<notin> set p"
  shows "zh z' = zh z" "\<forall>q. tree z' q \<noteq> tree z q \<longrightarrow> on_way q p" "ret = QCONF_OK \<Longrightarrow> tree z' p = Some v"
    "\<forall>q. tree z q \<noteq> None \<longrightarrow> q \<noteq> p \<longrightarrow> tree z' q = tree z q"
proof -
  obtain r z1 where m: "zk_modify e p v z = (r, z1)" by fastforce
  note md = zk_modify_effect [OF zk_lawsD(2) [OF assms(2)] assms(3) m]
  have "zh z' = zh z \<and> (\<forall>q. tree z' q \<noteq> tree z q \<longrightarrow> on_way q p) \<and> (ret = QCONF_OK \<longrightarrow> tree z' p = Some v)
      \<and> (\<forall>q. tree z q \<noteq> None \<longrightarrow> q \<noteq> p \<longrightarrow> tree z' q = tree z q)"
  proof (cases "r = QCONF_ERR_ZOO_NOT_EXIST")
    case True
    then have cr: "zk_create e p v z1 = Some (ret, z')" "tree z1 = tree z" using assms(1) m md(4) by (simp_all add: set_or_create_def)
    note c = zk_create_effect [OF cr(1) zk_lawsD(1) [OF assms(2)] assms(3)]
    have "\<forall>q. tree z q \<noteq> None \<longrightarrow> tree z' q = tree z q" using grown_keeps [OF c(2)] by (auto simp: cr(2))
    then show ?thesis using c md(1) unfolding grown_def cr(2) by auto
  next
    case False
    then have "ret = r" "z' = z1" using assms(1) m by (simp_all add: set_or_create_def)
    then show ?thesis using md(1-3) by (auto split: if_splits)
  qed
  then show "zh z' = zh z" "\<forall>q. tree z' q \<noteq> tree z q \<longrightarrow> on_way q p" "ret = QCONF_OK \<Longrightarrow> tree z' p = Some v"
    "\<forall>q. tree z q \<noteq> None \<longrightarrow> q \<noteq> p \<longrightarrow> tree z' q = tree z q" by blast+
qed

end
