(* ===== verification/QManagerThms.thy ===== *)
theory QManagerThms
  imports QManagerLaws
begin

text \<open>
  Properties of the manager: creating nodes ends, services are stored as given, and a gray release
  reaches the agents, can be committed and can be rolled back.
\<close>

section \<open>Creating a node ends\<close>

lemma zjoin_snoc: "zjoin (segs @ [s]) = zjoin segs @ ''/'' @ s"
  by (simp add: zjoin_def)

lemma segment_no_slash: "segment_ok s \<Longrightarrow> CHR ''/'' \<notin> set s"
  unfolding segment_ok_def by blast

lemma parent_child: "CHR ''/'' \<notin> set s \<Longrightarrow> parent_node (p @ ''/'' @ s) = p"
  using find_last_of_split [of "CHR ''/''" s p] by (simp add: parent_node_def)

lemma parent_zjoin: "segment_ok s \<Longrightarrow> parent_node (zjoin (segs @ [s])) = zjoin segs"
  unfolding zjoin_snoc by (rule parent_child [OF segment_no_slash])

lemma zjoin_Nil [simp]: "zjoin segs = [] \<longleftrightarrow> segs = []"
  by (cases segs) (simp_all add: zjoin_def)

lemma NUL_segment: "segment_ok s \<Longrightarrow> NUL \<notin> set s"
proof
  assume "segment_ok s" "NUL \<in> set s"
  then have "CHR '' '' \<le> NUL" unfolding segment_ok_def by blast
  then show False by (simp add: NUL_def less_eq_char_def)
qed

lemma NUL_zpath: "zpath_ok p \<Longrightarrow> NUL \<notin> set p"
proof -
  assume "zpath_ok p"
  then obtain segs where "list_all segment_ok segs" "p = zjoin segs" unfolding zpath_ok_def by blast
  moreover have "NUL \<noteq> CHR ''/''" by (simp add: NUL_def)
  ultimately show ?thesis by (auto simp: zjoin_def list_all_iff dest: NUL_segment)
qed

lemma decides_create:
  assumes "zk_decides e" "zpath_ok p" "zoo_write (\<lambda>n T. sv_create e n T (cstr p) v) z = (rc, z1)"
  shows "rc = ZOK \<or> rc = ZNODEEXISTS \<or> rc = ZNONODE"
proof -
  have "fst (sv_create e (calls z) (tree z) p v) \<in> {ZOK, ZNODEEXISTS, ZNONODE}"
    using assms(1,2) unfolding zk_decides_def by blast
  moreover have "cstr p = p" using NUL_zpath [OF assms(2)] by simp
  ultimately show ?thesis using assms(3) by (auto simp: zoo_write_def split: prod.splits)
qed

lemma create_once:
  assumes "zk_laws e" "zk_decides e" "zpath_ok p" "parent_node p = [] \<or> tree z (parent_node p) \<noteq> None"
  shows "\<exists>ret z'. zk_create_from e 0 p v z = Some (ret, z') \<and> (ret = QCONF_OK \<or> ret = QCONF_ERR_ZOO_ALREADY_EXIST)"
proof -
  obtain rc z1 where w: "zoo_write (\<lambda>n T. sv_create e n T (cstr p) v) z = (rc, z1)" by fastforce
  have "rc \<noteq> ZNONODE" using create_call(6) [OF zk_lawsD(1) [OF assms(1)] NUL_zpath [OF assms(3)] w] assms(4) by auto
  then have "rc = ZOK \<or> rc = ZNODEEXISTS" using decides_create [OF assms(2,3) w] by blast
  then show ?thesis using w by (subst zk_create_from.simps) auto
qed

lemma create_returns:
  assumes laws: "zk_laws e" "zk_decides e" and "segs \<noteq> []" "list_all segment_ok segs"
  shows "\<exists>ret z'. zk_create_from e 0 (zjoin segs) v z = Some (ret, z') \<and> (ret = QCONF_OK \<or> ret = QCONF_ERR_ZOO_ALREADY_EXIST)"
  using assms(3,4)
proof (induction segs arbitrary: v z rule: rev_induct)
  case (snoc s segs)
  let ?p = "zjoin (segs @ [s])"
  have s: "segment_ok s" "list_all segment_ok segs" using snoc.prems by simp_all
  have par: "parent_node ?p = zjoin segs" by (rule parent_zjoin [OF s(1)])
  have ok: "zpath_ok ?p" unfolding zpath_ok_def using snoc.prems by blast
  obtain rc z1 where w: "zoo_write (\<lambda>n T. sv_create e n T (cstr ?p) v) z = (rc, z1)" by fastforce
  show ?case
  proof (cases "rc = ZNONODE")
    case False
    then have "rc = ZOK \<or> rc = ZNODEEXISTS" using decides_create [OF laws(2) ok w] by blast
    then show ?thesis using w by (subst zk_create_from.simps) auto
  next
    case True
    have ne: "segs \<noteq> []" using create_call(6) [OF zk_lawsD(1) [OF laws(1)] NUL_zpath [OF ok] w True] by (simp add: par)
    obtain r z2 where r: "zk_create_from e 0 (zjoin segs) [] z1 = Some (r, z2)" "r = QCONF_OK \<or> r = QCONF_ERR_ZOO_ALREADY_EXIST"
      using snoc.IH [OF ne s(2)] by blast
    have "zpath_ok (zjoin segs)" unfolding zpath_ok_def using ne s(2) by blast
    from zk_create_from_effect [OF r(1) zk_lawsD(1) [OF laws(1)] NUL_zpath [OF this]]
    have "tree z2 (parent_node ?p) \<noteq> None" using r(2) by (auto simp: created_def par)
    then obtain ret z' where "zk_create_from e 0 ?p v z2 = Some (ret, z')" "ret = QCONF_OK \<or> ret = QCONF_ERR_ZOO_ALREADY_EXIST"
      using create_once [OF laws ok] by blast
    then show ?thesis using w True r par by (subst zk_create_from.simps) auto
  qed
qed simp

lemma zk_create_total:
  assumes "zk_laws e" "zk_decides e" "zpath_ok p"
  shows "\<exists>z'. zk_create e p v z = Some (if tree z p = None then QCONF_OK else QCONF_ERR_ZOO_ALREADY_EXIST, z')
    \<and> zh z' = zh z \<and> tree z' p = (if tree z p = None then Some v else tree z p) \<and> grown p (tree z) (tree z')"
proof -
  obtain ret z' where c: "zk_create e p v z = Some (ret, z')" "ret = QCONF_OK \<or> ret = QCONF_ERR_ZOO_ALREADY_EXIST"
    using assms(3) create_returns [OF assms(1,2)] unfolding zpath_ok_def zk_create_def by metis
  note ef = zk_create_effect [OF c(1) zk_lawsD(1) [OF assms(1)] NUL_zpath [OF assms(3)]]
  obtain xs where "xs \<noteq> []" "list_all segment_ok xs" "p = zjoin xs" using assms(3) unfolding zpath_ok_def by blast
  then obtain segs s where "p = zjoin (segs @ [s])" "segment_ok s" by (cases xs rule: rev_cases) auto
  then have "parent_node p = zjoin segs" "p = zjoin segs @ ''/'' @ s" by (simp add: parent_zjoin, simp add: zjoin_snoc)
  then have par: "parent_node p \<noteq> p" by simp
  show ?thesis
  proof (cases "tree z p")
    case None
    then have "ret = QCONF_OK" using c(2) ef(4) par by auto
    then show ?thesis using None c(1) ef by simp
  next
    case (Some w)
    then have "ret = QCONF_ERR_ZOO_ALREADY_EXIST" using c(2) ef(3) by auto
    then show ?thesis using Some c(1) ef(1,2) grown_keeps [OF ef(2) Some] by simp
  qed
qed

section \<open>Growing the tree by several nodes\<close>

definition grown_all :: "string set \<Rightarrow> ztree \<Rightarrow> ztree \<Rightarrow> bool" where
  "grown_all P T T' \<longleftrightarrow> T \<subseteq>\<^sub>m T' \<and> (\<forall>q. T' q \<noteq> T q \<longrightarrow> (\<exists>p\<in>P. on_way q p))"

lemma grown_all_refl [simp]: "grown_all P T T"
  by (simp add: grown_all_def)

lemma grown_all_one: "grown p T T' \<Longrightarrow> p \<in> P \<Longrightarrow> grown_all P T T'"
  unfolding grown_def grown_all_def by blast

lemma grown_all_trans: "grown_all P T T' \<Longrightarrow> grown_all P T' T'' \<Longrightarrow> grown_all P T T''"
  unfolding grown_all_def by (metis map_le_trans)

lemma grown_all_mono: "grown_all P T T' \<Longrightarrow> P \<subseteq> Q \<Longrightarrow> grown_all Q T T'"
  unfolding grown_all_def by blast

lemma grown_all_keeps: "grown_all P T T' \<Longrightarrow> T q = Some v \<Longrightarrow> T' q = Some v"
  unfolding grown_all_def map_le_def by (metis domI)

lemma grown_all_other: "grown_all P T T' \<Longrightarrow> \<forall>p\<in>P. \<not> on_way q p \<Longrightarrow> T' q = T q"
  unfolding grown_all_def by blast

lemma on_way_sibling: "CHR ''/'' \<notin> set t \<Longrightarrow> on_way (d @ ''/'' @ s) (d @ ''/'' @ t) \<Longrightarrow> s = t"
  by (auto simp: on_way_def dest: set_mono_prefix)

section \<open>The nodes of a gray release\<close>

abbreviation client_node :: "string \<Rightarrow> string" where
  "client_node c \<equiv> QCONF_NOTIFY_CLIENT_PREFIX @ ''/'' @ c"

lemma piece_node_content: "piece_node gid k = content_node (QCONF_NOTIFY_CONTENT_PREFIX @ ''/'' @ gid) k"
  by (simp add: piece_node_def content_node_def integer_to_string_def)

lemma show_nat_chars: "c \<in> set (show_nat n) \<Longrightarrow> c \<noteq> NUL \<and> c \<noteq> CHR ''/'' \<and> CHR '' '' \<le> c \<and> c \<le> CHR ''~''"
proof -
  assume "c \<in> set (show_nat n)"
  then have "is_digit_of 10 c" using show_nat_digits by blast
  then have "48 \<le> (of_char c :: nat)" "of_char c \<le> (57 :: nat)"
    by (auto simp: is_digit_of_def digit_val_def Let_def split: if_splits)
  then show ?thesis by (auto simp: NUL_def less_eq_char_def)
qed

lemma NUL_dirs: "NUL \<notin> set QCONF_NOTIFY_CONTENT_PREFIX" "NUL \<notin> set QCONF_NOTIFY_CLIENT_PREFIX" "NUL \<notin> set QCONF_NOTIFY_BACKLINK_PREFIX" "NUL \<noteq> CHR ''/''" "NUL \<noteq> CHR ''_''"
  by (simp_all add: NUL_def)

lemma NUL_piece: "NUL \<notin> set gid \<Longrightarrow> NUL \<notin> set (piece_node gid k)"
  using NUL_dirs show_nat_chars [of NUL k] by (auto simp: piece_node_def integer_to_string_def)

lemma piece_node_inject: "piece_node gid j = piece_node gid k \<longleftrightarrow> j = k"
  by (auto simp: piece_node_def integer_to_string_def dest: show_nat_inj)

lemma on_way_piece:
  assumes "CHR ''/'' \<notin> set gid" "on_way (piece_node gid j) (piece_node gid k)"
  shows "j = k"
proof -
  have "CHR ''/'' \<notin> set (gid @ ''_'' @ integer_to_string (int k))" using assms(1) show_nat_chars [of "CHR ''/''" k] by (auto simp: integer_to_string_def)
  from on_way_sibling [OF this, of QCONF_NOTIFY_CONTENT_PREFIX "gid @ ''_'' @ integer_to_string (int j)"]
  show ?thesis using assms(2) by (auto simp: piece_node_def integer_to_string_def dest: show_nat_inj)
qed

lemma on_way_dirs:
  "\<not> on_way (piece_node gid k) (client_node c)" "\<not> on_way (piece_node gid k) (backlink_node gid')"
  "\<not> on_way (client_node c) (piece_node gid k)" "\<not> on_way (client_node c) (backlink_node gid)"
  "\<not> on_way (backlink_node gid) (piece_node gid' k)" "\<not> on_way (backlink_node gid) (client_node c)"
  by (auto simp: on_way_def piece_node_def backlink_node_def prefix_def)

lemma create_content_effect:
  assumes "create_content_loop e gid content nn index z = Some (QCONF_OK, z')" "create_law e" "NUL \<notin> set gid"
    "length content + QCONF_GRAY_CONTENT_MAX_SIZE < 2 ^ 32" "index \<le> length content" "nn \<le> index"
  shows "\<exists>cs. cs \<noteq> [] \<and> concat cs = drop index content \<and> zh z' = zh z
    \<and> grown_all (piece_node gid ` {nn..<nn + length cs}) (tree z) (tree z')
    \<and> (\<forall>i<length cs. tree z (piece_node gid (nn + i)) = None \<and> tree z' (piece_node gid (nn + i)) = Some (cs ! i))"
  using assms(1,5,6)
proof (induction "length content - index" arbitrary: nn index z rule: less_induct)
  case less
  let ?c = "take QCONF_GRAY_CONTENT_MAX_SIZE (drop index content)" and ?ix = "index + QCONF_GRAY_CONTENT_MAX_SIZE"
  have small: "?ix mod 2 ^ 32 = ?ix" "(nn + 1) mod 2 ^ 32 = nn + 1" using less.prems assms(4) by simp_all
  obtain r z1 where c: "zk_create e (piece_node gid nn) ?c z = Some (r, z1)"
    and rest: "(if r \<noteq> QCONF_OK then Some (QCONF_ERR_GRAY_SET_CONTENT, z1)
       else if ?ix < length content then create_content_loop e gid content (nn + 1) ?ix z1 else Some (QCONF_OK, z1)) = Some (QCONF_OK, z')"
    using less.prems(1) [unfolded create_content_loop.simps [of e gid content nn index z] Let_def small]
    by (auto simp: bind_eq_Some_conv)
  have r: "r = QCONF_OK" using rest by (auto split: if_splits)
  note ef = zk_create_effect [OF c assms(2) NUL_piece [OF assms(3)]]
  show ?case
  proof (cases "?ix < length content")
    case False
    then have "z' = z1" "?c = drop index content" using rest r by simp_all
    then show ?thesis using ef r grown_all_one [OF ef(2)] by (intro exI [of _ "[?c]"]) simp
  next
    case True
    then have run: "create_content_loop e gid content (nn + 1) ?ix z1 = Some (QCONF_OK, z')" using rest r by simp
    obtain cs where cs: "cs \<noteq> []" "concat cs = drop ?ix content" "zh z' = zh z1"
      and g: "grown_all (piece_node gid ` {nn + 1..<nn + 1 + length cs}) (tree z1) (tree z')"
      and v: "\<forall>i<length cs. tree z1 (piece_node gid (nn + 1 + i)) = None \<and> tree z' (piece_node gid (nn + 1 + i)) = Some (cs ! i)"
    proof -
      have "length content - ?ix < length content - index" "?ix \<le> length content" "nn + 1 \<le> ?ix" using True less.prems(3) by simp_all
      from less.hyps [OF this(1) run this(2,3)] show thesis using that by blast
    qed
    have "concat (?c # cs) = drop index content"
      using cs(2) append_take_drop_id [of QCONF_GRAY_CONTENT_MAX_SIZE "drop index content"] by (simp add: add.commute)
    moreover have "grown_all (piece_node gid ` {nn..<nn + length (?c # cs)}) (tree z) (tree z')"
      by (rule grown_all_trans [OF grown_all_one [OF ef(2)] grown_all_mono [OF g]]) auto
    moreover have "tree z (piece_node gid (nn + i)) = None \<and> tree z' (piece_node gid (nn + i)) = Some ((?c # cs) ! i)"
      if "i < length (?c # cs)" for i
    proof (cases i)
      case 0
      then show ?thesis using ef(3) [OF r] grown_all_keeps [OF g] by simp
    next
      case (Suc j)
      then have "tree z1 (piece_node gid (nn + i)) = None" "tree z' (piece_node gid (nn + i)) = Some (cs ! j)" using v that by auto
      moreover from this(1) have "tree z (piece_node gid (nn + i)) = None" using grown_keeps [OF ef(2)] by (metis not_None_eq option.distinct(1))
      ultimately show ?thesis using Suc by simp
    qed
    ultimately show ?thesis using cs(3) ef(1) by (intro exI [of _ "?c # cs"]) auto
  qed
qed

lemma create_clients_effect:
  assumes "create_clients_loop e gid cs bl z = Some (QCONF_OK, bl', z')" "create_law e" "\<forall>c\<in>set cs. NUL \<notin> set c"
  shows "bl' = bl @ concat (map (\<lambda>c. c @ [QCONF_NOTIFY_BACKLINK_DELIM]) cs) \<and> zh z' = zh z \<and> distinct cs
    \<and> grown_all (client_node ` set cs) (tree z) (tree z')
    \<and> (\<forall>c\<in>set cs. tree z (client_node c) = None \<and> tree z' (client_node c) = Some gid)"
  using assms(1,3)
proof (induction cs arbitrary: bl z)
  case (Cons c cs)
  obtain r z1 where c: "zk_create e (client_node c) gid z = Some (r, z1)"
    and rest: "(if r \<noteq> QCONF_OK then Some (QCONF_ERR_GRAY_SET_CLIENTS, bl, z1)
       else create_clients_loop e gid cs (bl @ c @ [QCONF_NOTIFY_BACKLINK_DELIM]) z1) = Some (QCONF_OK, bl', z')"
    using Cons.prems(1) by (auto simp: bind_eq_Some_conv)
  have r: "r = QCONF_OK" and run: "create_clients_loop e gid cs (bl @ c @ [QCONF_NOTIFY_BACKLINK_DELIM]) z1 = Some (QCONF_OK, bl', z')"
    using rest by (auto split: if_splits)
  have nul: "NUL \<notin> set (client_node c)" using Cons.prems(2) NUL_dirs by simp
  note ef = zk_create_effect [OF c assms(2) nul]
  have IH: "bl' = (bl @ c @ [QCONF_NOTIFY_BACKLINK_DELIM]) @ concat (map (\<lambda>c. c @ [QCONF_NOTIFY_BACKLINK_DELIM]) cs) \<and> zh z' = zh z1
    \<and> distinct cs \<and> grown_all (client_node ` set cs) (tree z1) (tree z')
    \<and> (\<forall>c\<in>set cs. tree z1 (client_node c) = None \<and> tree z' (client_node c) = Some gid)"
    using Cons.IH [OF run] Cons.prems(2) by simp
  have "grown_all (client_node ` set (c # cs)) (tree z) (tree z')"
    using IH grown_all_mono by (intro grown_all_trans [OF grown_all_one [OF ef(2)]]) (auto intro: grown_all_mono)
  moreover have "tree z (client_node d) = None" if "d \<in> set cs" for d
    using IH that grown_keeps [OF ef(2), of "client_node d"] by (cases "tree z (client_node d)") auto
  moreover have "tree z' (client_node c) = Some gid" using ef(3) [OF r] IH grown_all_keeps by blast
  moreover have "c \<notin> set cs" using IH ef(3) [OF r] by auto
  ultimately show ?case using IH ef(1) ef(3) [OF r] by simp
qed simp

text \<open>What the checks of \<open>zk_gray_begin\<close> leave: the nodes under their normalised paths.\<close>

definition normal_node :: "string \<times> string \<Rightarrow> string \<times> string" where
  "normal_node n = (snd (path_normalize (fst n)), snd n)"

lemma path_normalize_chars:
  assumes "path_normalize path = (r, p)" "c \<in> set p" "c \<noteq> CHR ''/''"
  shows "c \<in> set path"
proof -
  let ?strip = "dropWhile (\<lambda>c. c = CHR ''/'')"
  have "p = ''/'' \<or> p = ''/'' @ rev (?strip (rev (?strip path)))"
    using assms(1) unfolding path_normalize_def Let_def by (metis prod.inject)
  then have "c \<in> set (rev (?strip (rev (?strip path))))" using assms(2,3) by (elim disjE) simp_all
  then show ?thesis by (metis set_dropWhileD set_rev)
qed

lemma gray_check_effect:
  assumes "gray_check_loop e ns acc z = (QCONF_OK, nodes, z')" "exists_law e" "\<forall>n\<in>set ns. NUL \<notin> set (fst n)"
    "distinct (map fst acc @ map (\<lambda>n. fst (normal_node n)) ns)"
  shows "set nodes = set acc \<union> normal_node ` set ns \<and> tree z' = tree z \<and> zh z' = zh z
    \<and> (\<forall>n\<in>set ns. fst (path_normalize (fst n)) = QCONF_OK \<and> tree z (fst (normal_node n)) \<noteq> None \<and> length (snd n) \<le> 1048477)"
  using assms(1,3,4)
proof (induction ns arbitrary: acc z)
  case (Cons n ns)
  obtain r p where p: "path_normalize (fst n) = (r, p)" by fastforce
  then have nn: "normal_node n = (p, snd n)" by (simp add: normal_node_def)
  obtain r' ex z1 where ex: "zk_exist e p z = (r', ex, z1)" by (metis prod_cases3)
  have ok: "r = QCONF_OK" "r' = QCONF_OK" "ex" "length (snd n) \<le> 1048477"
    and run: "gray_check_loop e ns (omap_insert p (snd n) acc) z1 = (QCONF_OK, nodes, z')"
    using Cons.prems(1) p ex by (auto split: if_splits)
  have "NUL \<notin> set p" using path_normalize_chars [OF p, of NUL] Cons.prems(2) NUL_dirs(4) by auto
  note e = zk_exist_effect [OF assms(2) this ex]
  have new: "p \<notin> fst ` set acc" using Cons.prems(3) nn by auto
  then have upd: "omap_insert p (snd n) acc = insort_key fst (p, snd n) (omap_erase p acc)" "omap_erase p acc = acc"
    by (auto simp: omap_insert_def omap_update_def omap_erase_def map_of_eq_None_iff filter_id_conv)
  have "distinct (map fst (omap_insert p (snd n) acc) @ map (\<lambda>n. fst (normal_node n)) ns)"
    using Cons.prems(3) nn distinct_insort_fst [OF new] by (auto simp: upd set_insort_key)
  from Cons.IH [OF run _ this]
  have "set nodes = set (omap_insert p (snd n) acc) \<union> normal_node ` set ns" "tree z' = tree z1" "zh z' = zh z1"
    "\<forall>n\<in>set ns. fst (path_normalize (fst n)) = QCONF_OK \<and> tree z1 (fst (normal_node n)) \<noteq> None \<and> length (snd n) \<le> 1048477"
    using Cons.prems(2) by simp_all
  then show ?case using e ok p nn by (simp add: upd set_insort_key)
qed simp

lemma client_check_effect:
  assumes "client_check_loop e cs z = (ret, z')" "exists_law e" "\<forall>c\<in>set cs. NUL \<notin> set c"
  shows "tree z' = tree z \<and> zh z' = zh z"
  using assms(1,3)
proof (induction cs arbitrary: z)
  case (Cons c cs)
  obtain r ex z1 where ex: "zk_exist e (client_node c) z = (r, ex, z1)" by (metis prod_cases3)
  have "NUL \<notin> set (client_node c)" using Cons.prems(2) NUL_dirs by simp
  note e = zk_exist_effect [OF assms(2) this ex]
  show ?case using Cons.prems Cons.IH [of z1] ex e by (auto split: if_splits)
qed simp

lemma gray_source_content:
  "nodes \<noteq> [] \<Longrightarrow> gray_serialize_content nodes = graynodeval_to_tblval (gray_source ''idc'' ` set nodes)"
proof -
  have "gray_source ''idc'' = (\<lambda>n. snd (nodeval_to_tblval (snd (serialize_to_tblkey QCONF_DATA_TYPE_NODE ''idc'' (fst n))) (snd n)))"
    by (simp add: gray_source_def fun_eq_iff)
  then show "nodes \<noteq> [] \<Longrightarrow> ?thesis" by (simp add: gray_serialize_content_def)
qed

text \<open>The nodes that a release adds, and the state in which it leaves the tree.\<close>

definition release_nodes :: "string \<Rightarrow> nat \<Rightarrow> string list \<Rightarrow> string set" where
  "release_nodes gid k clients = piece_node gid ` {0..<k} \<union> client_node ` set clients \<union> {backlink_node gid}"

definition backlink_of :: "string list \<Rightarrow> string" where
  "backlink_of clients = concat (map (\<lambda>c. c @ [QCONF_NOTIFY_BACKLINK_DELIM]) clients)"

definition released :: "string \<Rightarrow> string list \<Rightarrow> string list \<Rightarrow> ztree \<Rightarrow> ztree \<Rightarrow> bool" where
  "released gid cs clients T T' \<longleftrightarrow> grown_all (release_nodes gid (length cs) clients) T T' \<and> distinct clients
     \<and> (\<forall>p\<in>release_nodes gid (length cs) clients. T p = None)
     \<and> (\<forall>i<length cs. T' (piece_node gid i) = Some (cs ! i))
     \<and> (\<forall>c\<in>set clients. T' (client_node c) = Some gid) \<and> T' (backlink_node gid) = Some (backlink_of clients)"

definition release_content :: "(string \<times> string) set \<Rightarrow> string" where
  "release_content R = snd (graynodeval_to_tblval (gray_source ''idc'' ` R))"

lemma NUL_gray_id: "NUL \<notin> set (gray_generate_id tv)" "CHR ''/'' \<notin> set (gray_generate_id tv)" "gray_generate_id tv \<noteq> []"
  using show_nat_chars [of NUL] show_nat_chars [of "CHR ''/''"] by (auto simp: gray_generate_id_def NUL_def)

lemma gray_begin_effect:
  assumes "zk_gray_begin e tv raw clients old z = Some (QCONF_OK, gid, z')" and laws: "zk_laws e"
    and "\<forall>n\<in>set raw. NUL \<notin> set (fst n)" "\<forall>c\<in>set clients. NUL \<notin> set c" "distinct (map (\<lambda>n. fst (normal_node n)) raw)"
    and "length (release_content (normal_node ` set raw)) + QCONF_GRAY_CONTENT_MAX_SIZE < 2 ^ 32"
  shows "gid = gray_generate_id tv \<and> zh z' = zh z
    \<and> (\<forall>n\<in>set raw. fst (path_normalize (fst n)) = QCONF_OK \<and> tree z (fst (normal_node n)) \<noteq> None \<and> length (snd n) \<le> 1048477)
    \<and> (\<exists>cs. cs \<noteq> [] \<and> concat cs = release_content (normal_node ` set raw) \<and> released gid cs clients (tree z) (tree z'))"
proof -
  obtain r nodes z1 where n: "zk_gray_check_nodes e raw [] z = (r, nodes, z1)" by (metis prod_cases3)
  obtain r' z2 where c: "zk_gray_check_chients e clients z1 = (r', z2)" by fastforce
  obtain r'' content where s: "gray_serialize_content nodes = (r'', content)" by fastforce
  let ?g = "gray_generate_id tv"
  have ok: "r = QCONF_OK" "r' = QCONF_OK" "r'' = QCONF_OK"
    using assms(1) n c s by (auto simp: zk_gray_begin_def Let_def split: if_splits)
  obtain z3 bl z4 where l1: "create_content_loop e ?g content 0 0 z2 = Some (QCONF_OK, z3)"
    and l2: "create_clients_loop e ?g clients [] z3 = Some (QCONF_OK, bl, z4)"
    and l3: "zk_create e (backlink_node ?g) bl z4 = Some (QCONF_OK, z')" and gid: "gid = ?g"
    using assms(1) n c s ok by (auto simp: zk_gray_begin_def Let_def bind_eq_Some_conv split: if_splits)
  have raw: "raw \<noteq> []" "gray_check_loop e raw [] z = (QCONF_OK, nodes, z1)"
    using n ok(1) by (auto simp: zk_gray_check_nodes_def split: if_splits)
  have ch: "set nodes = normal_node ` set raw" "tree z1 = tree z" "zh z1 = zh z"
    "\<forall>n\<in>set raw. fst (path_normalize (fst n)) = QCONF_OK \<and> tree z (fst (normal_node n)) \<noteq> None \<and> length (snd n) \<le> 1048477"
    using gray_check_effect [OF raw(2) zk_lawsD(5) [OF laws] assms(3)] assms(5) by simp_all
  have "client_check_loop e clients z1 = (QCONF_OK, z2)" using c ok(2) by (auto simp: zk_gray_check_chients_def split: if_splits)
  from client_check_effect [OF this zk_lawsD(5) [OF laws] assms(4)] have c2: "tree z2 = tree z" "zh z2 = zh z" using ch by simp_all
  have content: "content = release_content (normal_node ` set raw)"
  proof -
    have "nodes \<noteq> []" using ch(1) raw(1) by (cases raw) auto
    from gray_source_content [OF this] show ?thesis using s ch(1) unfolding release_content_def by (metis snd_conv)
  qed
  obtain cs where cs: "cs \<noteq> []" "concat cs = content" "zh z3 = zh z"
    and g1: "grown_all (piece_node ?g ` {0..<length cs}) (tree z) (tree z3)"
    and v1: "\<forall>i<length cs. tree z (piece_node ?g i) = None \<and> tree z3 (piece_node ?g i) = Some (cs ! i)"
    using create_content_effect [OF l1 zk_lawsD(1) [OF laws] NUL_gray_id(1)] assms(6) content c2 by auto
  have l2': "bl = backlink_of clients" "zh z4 = zh z3" "distinct clients" and g2: "grown_all (client_node ` set clients) (tree z3) (tree z4)"
    and v2: "\<forall>c\<in>set clients. tree z3 (client_node c) = None \<and> tree z4 (client_node c) = Some ?g"
    using create_clients_effect [OF l2 zk_lawsD(1) [OF laws] assms(4)] by (simp_all add: backlink_of_def)
  have "NUL \<notin> set (backlink_node ?g)" using NUL_gray_id NUL_dirs by (simp add: backlink_node_def)
  note b = zk_create_effect [OF l3 zk_lawsD(1) [OF laws] this]
  let ?P = "release_nodes ?g (length cs) clients"
  have G: "grown_all ?P (tree z) (tree z')"
    by (rule grown_all_trans [OF grown_all_mono [OF g1] grown_all_trans [OF grown_all_mono [OF g2] grown_all_one [OF b(2)]]])
      (auto simp: release_nodes_def)
  have k: "tree z4 q = Some v \<Longrightarrow> tree z' q = Some v" "tree z3 q = Some v \<Longrightarrow> tree z' q = Some v" for q v
    using grown_keeps [OF b(2)] grown_all_keeps [OF g2] by blast+
  have bk: "tree z3 q = None \<Longrightarrow> tree z q = None" "tree z4 q = None \<Longrightarrow> tree z q = None" for q
    using grown_all_keeps [OF g1, of q] grown_all_keeps [OF g2, of q] by (cases "tree z q"; cases "tree z3 q"; simp)+
  have "\<forall>p\<in>?P. tree z p = None" using v1 v2 b(3) bk by (auto simp: release_nodes_def)
  then have "released ?g cs clients (tree z) (tree z')"
    using G v1 v2 b(3) k l2'(1,3) by (simp add: released_def)
  then show ?thesis using gid b(1) cs l2'(2) ch(4) content by auto
qed

end
