(* ===== verification/QRelease.thy ===== *)
theory QRelease
  imports QManagerThms
begin

text \<open>
  A gray release from the manager to the agents: what the manager writes is what an agent reads,
  a commit puts the released values into the nodes, a rollback leaves the tree as it was, and both
  take the notification away.
\<close>

section \<open>What an agent reads\<close>

lemma gray_source_length: "length (gray_source ''idc'' (p, v)) = length p + length v + 11"
  by (simp add: gray_source_def nodeval_to_tblval_def qconf_append_nodeval_def qconf_string_append_def Let_def
      serialize_to_tblkey_def qconf_append_path_def qconf_append_idc_def)

lemma distinct_paths_functional:
  assumes "distinct (map (\<lambda>n. fst (f n)) ns)" "(p, v) \<in> f ` set ns" "(p, v') \<in> f ` set ns"
  shows "v = v'"
proof -
  from assms(2,3) obtain a b where "a \<in> set ns" "f a = (p, v)" "b \<in> set ns" "f b = (p, v')" by force
  moreover from this have "a = b" using assms(1) unfolding distinct_map inj_on_def by (metis fst_conv)
  ultimately show ?thesis by simp
qed

lemma released_pieces_end:
  assumes "released gid cs clients T T'" "CHR ''/'' \<notin> set gid" "T (piece_node gid (length cs)) = None"
  shows "T' (piece_node gid (length cs)) = None"
proof -
  have "\<not> on_way (piece_node gid (length cs)) p" if "p \<in> release_nodes gid (length cs) clients" for p
  proof -
    from that consider k where "k < length cs" "p = piece_node gid k" | c where "p = client_node c" | "p = backlink_node gid"
      unfolding release_nodes_def by fastforce
    then show ?thesis using on_way_dirs(1,2) on_way_piece [OF assms(2), of "length cs"] by cases (blast, metis nat_neq_iff, blast+)
  qed
  then show ?thesis using assms(1,3) grown_all_other unfolding released_def by metis
qed

text \<open>
  C3: A gray release reaches its clients: when the manager's \<open>zk_gray_begin\<close> has succeeded, an agent on
  one of the named hosts that reads the tree it has left, whether or not it already watches its
  notification, hands out every released node, under the path the manager normalised, for an update
  of the table and has it as a gray node from then on, with the released value.  A node that is still
  under an earlier release keeps the value of that release.  (The hosts and paths have no NUL byte,
  the paths are distinct, the release is within the widths of its encoding, and no pieces of an older
  release with the same id are left.)
\<close>

theorem gray_release_reaches_agent:
  assumes "zk_gray_begin e tv raw clients old z = Some (QCONF_OK, gid, z')" and "zk_laws e"
    and "\<forall>n\<in>set raw. NUL \<notin> set (fst n)" and "\<forall>c\<in>set clients. NUL \<notin> set c"
    and "distinct (map (\<lambda>n. fst (normal_node n)) raw)" and "length raw < 65536" and "\<forall>n\<in>set raw. length (fst (normal_node n)) < 65536"
    and "length (release_content (normal_node ` set raw)) < 4294864896" and "\<forall>k. tree z (piece_node gid k) = None"
    and "host \<in> set clients" and "zk_node_buf en" and "h \<noteq> None" and "idc \<noteq> []" and "length idc < 256"
    and "\<forall>m p. zoo_get en m h p = (case tree z' p of None \<Rightarrow> (ZNONODE, None) | Some d \<Rightarrow> (ZOK, Some d))"
    and "notify_node g = [] \<or> notify_node g = client_node host"
  shows "\<exists>ns g' n'. gray_process en host n h idc [] g = Some (QCONF_OK, ns, g', n')
    \<and> set ns = gray_target idc ` normal_node ` set raw
    \<and> (\<forall>(p, v)\<in>normal_node ` set raw. is_gray_node (node_tblkey idc p) g' =
          (case is_gray_node (node_tblkey idc p) g of Some old \<Rightarrow> Some old | None \<Rightarrow> Some (gray_source idc (p, v))))"
proof -
  let ?R = "normal_node ` set raw"
  have "length (release_content ?R) + 102400 < 2 ^ 32" using assms(8) by simp
  then obtain cs where gid: "gid = gray_generate_id tv" and cs: "concat cs = release_content ?R" and rel: "released gid cs clients (tree z) (tree z')"
    and vals: "\<forall>n\<in>set raw. length (snd n) \<le> 1048477"
    using gray_begin_effect [OF assms(1-5)] by blast
  note id = NUL_gray_id [of tv, folded gid]
  have nul: "cstr (piece_node gid k) = piece_node gid k" "cstr host = host" "cstr (client_node host) = client_node host" for k
    using NUL_piece [OF id(1)] assms(4,10) NUL_dirs by simp_all
  have nt: "notify_node (with_notify_path host g) = client_node host"
    using assms(16) nul(2) by (auto simp: with_notify_path_def get_notify_path_def)
  have "\<forall>m. zoo_get en m h (cstr (notify_node (with_notify_path host g))) = (ZOK, Some gid)"
    using rel assms(10,15) unfolding nt nul(3) by (simp add: released_def)
  moreover have "\<forall>i<length cs. \<forall>m. zoo_get en m h (cstr (content_node (QCONF_NOTIFY_CONTENT_PREFIX @ ''/'' @ gid) i)) = (ZOK, Some (cs ! i))"
    using rel assms(15) unfolding piece_node_content [symmetric] nul(1) by (simp add: released_def)
  moreover have "\<forall>m. fst (zoo_get en m h (cstr (content_node (QCONF_NOTIFY_CONTENT_PREFIX @ ''/'' @ gid) (length cs)))) = ZNONODE"
    using released_pieces_end [OF rel id(2)] assms(9,15) unfolding piece_node_content [symmetric] nul(1) by simp
  moreover have "card ?R < 65536" using card_image_le [of "set raw" normal_node] card_length [of raw] assms(6) by simp
  moreover have "\<forall>pv\<in>?R. sizes_ok pv \<and> length (gray_source ''idc'' pv) < 4294967296"
  proof
    fix pv assume "pv \<in> ?R"
    then have "length (fst pv) < 65536" "length (snd pv) \<le> 1048477" using assms(7) vals by (auto simp: normal_node_def)
    then show "sizes_ok pv \<and> length (gray_source ''idc'' pv) < 4294967296"
      by (cases pv) (simp add: sizes_ok_def gray_source_length)
  qed
  moreover have "\<forall>p v v'. (p, v) \<in> ?R \<longrightarrow> (p, v') \<in> ?R \<longrightarrow> v = v'" using distinct_paths_functional [OF assms(5)] by blast
  ultimately obtain ns g' where r: "gray_process en host n h idc [] g = Some (QCONF_OK, ns, g', n + length cs + 2)" "set ns = gray_target idc ` ?R"
    and v: "\<forall>(p, v)\<in>?R. is_gray_node (node_tblkey idc p) g' =
          (case is_gray_node (node_tblkey idc p) g of Some old \<Rightarrow> Some old | None \<Rightarrow> Some (gray_source idc (p, v)))"
    using gray_process_rt [OF assms(11-14), of "''idc''" host g gid cs ?R n] id(3) cs by (auto simp: release_content_def)
  then show ?thesis by blast
qed

section \<open>A server that decides\<close>

lemma write_decided:
  assumes "verdict (fst (f (calls z) (tree z))) = Some c"
  shows "\<exists>ro z'. call_retry (zoo_write f) verdict 0 z = (c, ro, z')"
  using assms by (cases "f (calls z) (tree z)") (simp add: call_retry_decided zoo_write_def)

lemma read_decided:
  assumes "verdict (f (calls z) (tree z)) = Some c"
  shows "\<exists>z'. call_retry (zoo_read f) verdict 0 z = (c, Some (f (calls z) (tree z)), z')"
  using assms by (simp add: call_retry_decided zoo_read_def)

lemma cstr_zpath: "zpath_ok p \<Longrightarrow> cstr p = p"
  using NUL_zpath by simp

lemma zk_get_decided:
  assumes "zk_laws e" "zk_decides e" "zpath_ok p"
  shows "\<exists>z'. zk_get e p old z = (case tree z p of None \<Rightarrow> (QCONF_ERR_ZOO_NOT_EXIST, old, z') | Some v \<Rightarrow> (QCONF_OK, v, z'))
    \<and> tree z' = tree z \<and> zh z' = zh z"
proof -
  obtain ret v z' where g: "zk_get e p old z = (ret, v, z')" by (metis prod_cases3)
  have "fst (sv_get e (calls z) (tree z) p) \<in> {ZOK, ZNONODE}" using assms(2,3) unfolding zk_decides_def by blast
  then have "ret = QCONF_OK \<or> ret = QCONF_ERR_ZOO_NOT_EXIST \<and> v = old"
    using g read_decided [of "\<lambda>r. access_verdict (fst r)" "\<lambda>n T. sv_get e n T p" z]
    by (auto simp: zk_get_def cstr_zpath [OF assms(3)] access_verdict_def)
  then show ?thesis using g zk_get_effect [OF zk_lawsD(4) [OF assms(1)] NUL_zpath [OF assms(3)] g] by (auto split: option.split)
qed

lemma zk_exist_decided:
  assumes "zk_laws e" "zk_decides e" "zpath_ok p"
  shows "\<exists>z'. zk_exist e p z = (QCONF_OK, tree z p \<noteq> None, z') \<and> tree z' = tree z \<and> zh z' = zh z"
proof -
  obtain ret v z' where g: "zk_exist e p z = (ret, v, z')" by (metis prod_cases3)
  have "sv_exists e (calls z) (tree z) p \<in> {ZOK, ZNONODE}" using assms(2,3) unfolding zk_decides_def by blast
  then have "ret = QCONF_OK"
    using g read_decided [of exist_verdict "\<lambda>n T. sv_exists e n T p" z]
    by (auto simp: zk_exist_def cstr_zpath [OF assms(3)] exist_verdict_def access_verdict_def)
  then show ?thesis using g zk_exist_effect [OF zk_lawsD(5) [OF assms(1)] NUL_zpath [OF assms(3)] g] by simp
qed

lemma zk_modify_decided:
  assumes "zk_laws e" "zk_decides e" "zpath_ok p"
  shows "\<exists>z'. zk_modify e p v z = (if tree z p = None then QCONF_ERR_ZOO_NOT_EXIST else QCONF_OK, z')
    \<and> tree z' = (if tree z p = None then tree z else (tree z)(p \<mapsto> v)) \<and> zh z' = zh z"
proof -
  obtain ret z' where g: "zk_modify e p v z = (ret, z')" by fastforce
  have "fst (sv_set e (calls z) (tree z) p v) \<in> {ZOK, ZNONODE}" using assms(2,3) unfolding zk_decides_def by blast
  then have "ret = QCONF_OK \<or> ret = QCONF_ERR_ZOO_NOT_EXIST"
    using g write_decided [of access_verdict "\<lambda>n T. sv_set e n T p v" z]
    by (auto simp: zk_modify_def cstr_zpath [OF assms(3)] access_verdict_def)
  then show ?thesis using g zk_modify_effect [OF zk_lawsD(2) [OF assms(1)] NUL_zpath [OF assms(3)] g] by auto
qed

lemma zk_delete_decided:
  assumes "zk_laws e" "zk_decides e" "zpath_ok p" "\<forall>r. tree z (p @ ''/'' @ r) = None"
  shows "\<exists>z'. zk_delete_exist e p z = (if tree z p = None then QCONF_ERR_ZOO_NOT_EXIST else QCONF_OK, z')
    \<and> zk_delete e p z = (QCONF_OK, z') \<and> tree z' = (tree z)(p := None) \<and> zh z' = zh z"
proof -
  obtain ret z' where g: "zk_delete_exist e p z = (ret, z')" by fastforce
  obtain rc T where d: "sv_delete e (calls z) (tree z) p = (rc, T)" by fastforce
  have "rc \<in> {ZOK, ZNONODE, ZNOTEMPTY}" using assms(2,3) d unfolding zk_decides_def by (metis fst_conv)
  moreover have "rc \<noteq> ZNOTEMPTY"
    using zk_lawsD(3) [OF assms(1), unfolded delete_law_def, rule_format, OF d] assms(4) by auto
  ultimately have "ret = QCONF_OK \<or> ret = QCONF_ERR_ZOO_NOT_EXIST"
    using g d write_decided [of delete_verdict "\<lambda>n T. sv_delete e n T p" z]
    by (auto simp: zk_delete_exist_def cstr_zpath [OF assms(3)] access_verdict_def delete_verdict_def)
  then show ?thesis
    using g zk_delete_exist_effect [OF zk_lawsD(3) [OF assms(1)] NUL_zpath [OF assms(3)] g]
    by (auto simp: zk_delete_def fun_upd_idem)
qed

section \<open>Taking a notification away\<close>

lemma restrict_minus_insert: "(T(p := None)) |` (- A) = T |` (- insert p A)"
  by (auto simp: restrict_map_def fun_eq_iff)

lemma delete_clients_decided:
  assumes laws: "zk_laws e" "zk_decides e" and "\<forall>c\<in>set cs. zpath_ok (client_node c) \<and> (\<forall>r. tree z (client_node c @ ''/'' @ r) = None)"
  shows "\<exists>z'. delete_clients_loop e cs z = (QCONF_OK, z') \<and> tree z' = tree z |` (- client_node ` set cs) \<and> zh z' = zh z"
  using assms(3)
proof (induction cs arbitrary: z)
  case Nil
  then show ?case by (simp add: restrict_map_def fun_eq_iff)
next
  case (Cons c cs)
  obtain z1 where d: "zk_delete e (client_node c) z = (QCONF_OK, z1)" "tree z1 = (tree z)(client_node c := None)" "zh z1 = zh z"
    using zk_delete_decided [OF laws, of "client_node c" z] Cons.prems by auto
  have "\<forall>d\<in>set cs. zpath_ok (client_node d) \<and> (\<forall>r. tree z1 (client_node d @ ''/'' @ r) = None)"
    using Cons.prems unfolding d(2) by simp
  then obtain z' where "delete_clients_loop e cs z1 = (QCONF_OK, z')" "tree z' = tree z1 |` (- client_node ` set cs)" "zh z' = zh z1"
    using Cons.IH by blast
  then show ?case using d restrict_minus_insert [of "tree z" "client_node c" "client_node ` set cs"] by simp
qed

lemma delete_content_decided:
  assumes laws: "zk_laws e" "zk_decides e" and "\<forall>k. zpath_ok (piece_node gid k)"
    and "\<forall>k r. tree z (piece_node gid k @ ''/'' @ r) = None" "\<forall>k\<in>{i..<n}. tree z (piece_node gid k) \<noteq> None" "tree z (piece_node gid n) = None" "i \<le> n"
  shows "\<exists>z'. delete_content_loop e gid i z = Some (QCONF_ERR_ZOO_NOT_EXIST, z') \<and> tree z' = tree z |` (- piece_node gid ` {i..<n}) \<and> zh z' = zh z"
  using assms(4-7)
proof (induction "n - i" arbitrary: i z)
  case 0
  then have "i = n" by simp
  obtain z' where "zk_delete_exist e (piece_node gid n) z = (QCONF_ERR_ZOO_NOT_EXIST, z')" "tree z' = tree z" "zh z' = zh z"
    using zk_delete_decided [OF laws, of "piece_node gid n" z] assms(3) 0 by (auto simp: fun_upd_idem)
  then show ?case using \<open>i = n\<close> by (subst delete_content_loop.simps) (simp add: restrict_map_def fun_eq_iff)
next
  case (Suc d)
  then have i: "i < n" by simp
  obtain z1 where z1: "zk_delete_exist e (piece_node gid i) z = (QCONF_OK, z1)" "tree z1 = (tree z)(piece_node gid i := None)" "zh z1 = zh z"
    using zk_delete_decided [OF laws, of "piece_node gid i" z] assms(3) Suc.prems i by auto
  have st: "\<forall>k r. tree z1 (piece_node gid k @ ''/'' @ r) = None" "\<forall>k\<in>{Suc i..<n}. tree z1 (piece_node gid k) \<noteq> None" "tree z1 (piece_node gid n) = None"
    using Suc.prems unfolding z1(2) by (auto simp: piece_node_inject)
  obtain z' where "delete_content_loop e gid (Suc i) z1 = Some (QCONF_ERR_ZOO_NOT_EXIST, z')" "tree z' = tree z1 |` (- piece_node gid ` {Suc i..<n})" "zh z' = zh z1"
  proof -
    have "d = n - Suc i" "Suc i \<le> n" using Suc.hyps(2) i by simp_all
    then show thesis using that Suc.hyps(1) [OF _ st] by blast
  qed
  moreover have "insert (piece_node gid i) (piece_node gid ` {Suc i..<n}) = piece_node gid ` {i..<n}"
    using i by (metis atLeastLessThan_upt image_insert list.set(2) upt_conv_Cons)
  ultimately show ?case using z1 restrict_minus_insert [of "tree z" "piece_node gid i" "piece_node gid ` {Suc i..<n}"]
    by (subst delete_content_loop.simps) simp
qed

lemma getline_backlink: "\<forall>c\<in>set cs. QCONF_NOTIFY_BACKLINK_DELIM \<notin> set c \<Longrightarrow> getline_pieces QCONF_NOTIFY_BACKLINK_DELIM (backlink_of cs) = cs"
proof (induction cs)
  case Nil
  then show ?case by (simp add: backlink_of_def getline_pieces.simps)
next
  case (Cons c cs)
  let ?s = "backlink_of (c # cs)"
  have s: "?s = c @ CHR '';'' # backlink_of cs" by (simp add: backlink_of_def)
  have c: "\<forall>x\<in>set c. x \<noteq> CHR '';''" using Cons.prems by auto
  have "takeWhile (\<lambda>x. x \<noteq> CHR '';'') ?s = c" "dropWhile (\<lambda>x. x \<noteq> CHR '';'') ?s = CHR '';'' # backlink_of cs" "?s \<noteq> []"
    using c unfolding s by (simp_all add: takeWhile_tail dropWhile_append3)
  then show ?case using Cons by (subst getline_pieces.simps) (simp add: Let_def)
qed

text \<open>The places of the nodes that a release may add.\<close>

definition release_places :: "string \<Rightarrow> string list \<Rightarrow> string set" where
  "release_places gid clients = range (piece_node gid) \<union> client_node ` set clients \<union> {backlink_node gid}"

text \<open>Nothing stands at or below the nodes that a release adds.\<close>

definition room_for :: "string \<Rightarrow> string list \<Rightarrow> ztree \<Rightarrow> bool" where
  "room_for gid clients T \<longleftrightarrow>
     (\<forall>p\<in>release_places gid clients. T p = None \<and> (\<forall>r. T (p @ ''/'' @ r) = None))"

definition client_ok :: "string \<Rightarrow> bool" where
  "client_ok c \<longleftrightarrow> segment_ok c \<and> QCONF_NOTIFY_BACKLINK_DELIM \<notin> set c"

lemma segment_gid: "segment_ok (gray_generate_id tv)" "segment_ok (gray_generate_id tv @ ''_'' @ show_nat k)"
proof -
  have c: "\<forall>c\<in>set (gray_generate_id tv). c \<noteq> CHR ''/'' \<and> CHR '' '' \<le> c \<and> c \<le> CHR ''~''"
    using show_nat_chars by (auto simp: gray_generate_id_def less_eq_char_def)
  have h: "gray_generate_id tv = CHR ''G'' # tl (gray_generate_id tv)" by (simp add: gray_generate_id_def)
  show "segment_ok (gray_generate_id tv)" unfolding segment_ok_def using c by (subst (1 2 3) h) auto
  show "segment_ok (gray_generate_id tv @ ''_'' @ show_nat k)"
    unfolding segment_ok_def using c show_nat_chars by (subst (1 2 3) h) (auto simp: less_eq_char_def)
qed

lemma segment_literals: "segment_ok ''qconf''" "segment_ok ''__qconf_notify''" "segment_ok ''client''" "segment_ok ''content''" "segment_ok ''backlink''"
  by (simp_all add: segment_ok_def less_eq_char_def)

lemma zpath_segments:
  "segment_ok c \<Longrightarrow> zpath_ok (client_node c)" "zpath_ok (piece_node (gray_generate_id tv) k)" "zpath_ok (backlink_node (gray_generate_id tv))"
proof -
  show "zpath_ok (client_node c)" if "segment_ok c"
    unfolding zpath_ok_def by (rule exI [of _ "[''qconf'', ''__qconf_notify'', ''client'', c]"]) (simp add: segment_literals that zjoin_def)
  show "zpath_ok (piece_node (gray_generate_id tv) k)"
    unfolding zpath_ok_def
    by (rule exI [of _ "[''qconf'', ''__qconf_notify'', ''content'', gray_generate_id tv @ ''_'' @ show_nat k]"])
      (simp add: segment_literals segment_gid [simplified] zjoin_def piece_node_def integer_to_string_def)
  show "zpath_ok (backlink_node (gray_generate_id tv))"
    unfolding zpath_ok_def
    by (rule exI [of _ "[''qconf'', ''__qconf_notify'', ''backlink'', gray_generate_id tv]"])
      (simp add: segment_literals segment_gid zjoin_def backlink_node_def)
qed

lemma create_content_total:
  assumes laws: "zk_laws e" "zk_decides e" and gid: "gid = gray_generate_id tv"
    and "length content + QCONF_GRAY_CONTENT_MAX_SIZE < 2 ^ 32" "index \<le> length content" "nn \<le> index" "\<forall>k\<ge>nn. tree z (piece_node gid k) = None"
  shows "\<exists>z'. create_content_loop e gid content nn index z = Some (QCONF_OK, z')"
  using assms(5-7)
proof (induction "length content - index" arbitrary: nn index z rule: less_induct)
  case less
  let ?c = "take QCONF_GRAY_CONTENT_MAX_SIZE (drop index content)" and ?ix = "index + QCONF_GRAY_CONTENT_MAX_SIZE"
  have small: "?ix mod 2 ^ 32 = ?ix" "(nn + 1) mod 2 ^ 32 = nn + 1" using less.prems assms(4) by simp_all
  note step = create_content_loop.simps [of e gid content nn index z, unfolded Let_def small]
  obtain z1 where c: "zk_create e (piece_node gid nn) ?c z = Some (QCONF_OK, z1)" "grown (piece_node gid nn) (tree z) (tree z1)"
    using zk_create_total [OF laws zpath_segments(2) [of tv nn], folded gid, of ?c z] less.prems(3) by auto
  show ?case
  proof (cases "?ix < length content")
    case True
    have "tree z1 (piece_node gid k) = None" if "nn + 1 \<le> k" for k
    proof -
      have "\<not> on_way (piece_node gid k) (piece_node gid nn)"
        using that on_way_piece [OF NUL_gray_id(2) [of tv, folded gid], of k nn] by auto
      then show ?thesis using c(2) that less.prems(3) unfolding grown_def by (metis add_leD1)
    qed
    moreover have "length content - ?ix < length content - index" "?ix \<le> length content" "nn + 1 \<le> ?ix" using True less.prems(2) by simp_all
    ultimately obtain z' where "create_content_loop e gid content (nn + 1) ?ix z1 = Some (QCONF_OK, z')"
      using less.hyps by blast
    then show ?thesis using c(1) True unfolding step by simp
  next
    case False
    then show ?thesis using c(1) unfolding step by simp
  qed
qed

lemma create_clients_total:
  assumes laws: "zk_laws e" "zk_decides e" and "\<forall>c\<in>set cs. segment_ok c \<and> tree z (client_node c) = None" "distinct cs"
  shows "\<exists>bl' z'. create_clients_loop e gid cs bl z = Some (QCONF_OK, bl', z')"
  using assms(3,4)
proof (induction cs arbitrary: bl z)
  case (Cons c cs)
  obtain z1 where c: "zk_create e (client_node c) gid z = Some (QCONF_OK, z1)" "grown (client_node c) (tree z) (tree z1)"
    using zk_create_total [OF laws zpath_segments(1), of c gid z] Cons.prems by auto
  have "tree z1 (client_node d) = None" if d: "d \<in> set cs" for d
  proof -
    have "\<not> on_way (client_node d) (client_node c)"
      using on_way_sibling [OF segment_no_slash, of c QCONF_NOTIFY_CLIENT_PREFIX d] Cons.prems d by auto
    then show ?thesis using c(2) Cons.prems(1) d unfolding grown_def by (metis list.set_intros(2))
  qed
  then obtain bl' z' where "create_clients_loop e gid cs (bl @ c @ [QCONF_NOTIFY_BACKLINK_DELIM]) z1 = Some (QCONF_OK, bl', z')"
    using Cons by fastforce
  then show ?case using c(1) by simp
qed simp

lemma gray_check_total:
  assumes laws: "zk_laws e" "zk_decides e"
    and "\<forall>n\<in>set ns. fst (path_normalize (fst n)) = QCONF_OK \<and> zpath_ok (fst (normal_node n)) \<and> tree z (fst (normal_node n)) \<noteq> None \<and> length (snd n) \<le> 1048477"
  shows "\<exists>nodes z'. gray_check_loop e ns acc z = (QCONF_OK, nodes, z') \<and> tree z' = tree z"
  using assms(3)
proof (induction ns arbitrary: acc z)
  case (Cons n ns)
  obtain p where p: "path_normalize (fst n) = (QCONF_OK, p)" "fst (normal_node n) = p"
    using Cons.prems by (cases "path_normalize (fst n)") (simp add: normal_node_def)
  obtain z1 where z1: "zk_exist e p z = (QCONF_OK, True, z1)" "tree z1 = tree z"
    using zk_exist_decided [OF laws, of p z] Cons.prems p(2) by auto
  then obtain nodes z' where "gray_check_loop e ns (omap_insert p (snd n) acc) z1 = (QCONF_OK, nodes, z')" "tree z' = tree z"
    using Cons.IH [of z1 "omap_insert p (snd n) acc"] Cons.prems by auto
  then show ?case using Cons.prems p z1 by simp
qed simp

lemma client_check_total:
  assumes laws: "zk_laws e" "zk_decides e" and "\<forall>c\<in>set cs. segment_ok c \<and> tree z (client_node c) = None"
  shows "\<exists>z'. client_check_loop e cs z = (QCONF_OK, z') \<and> tree z' = tree z"
  using assms(3)
proof (induction cs arbitrary: z)
  case (Cons c cs)
  obtain z1 where z1: "zk_exist e (client_node c) z = (QCONF_OK, False, z1)" "tree z1 = tree z"
    using zk_exist_decided [OF laws zpath_segments(1), of c z] Cons.prems by auto
  then show ?case using Cons.IH [of z1] Cons.prems by simp
qed simp

text \<open>The conditions under which a release can begin.\<close>

definition releasable :: "(string \<times> string) list \<Rightarrow> string list \<Rightarrow> string \<Rightarrow> ztree \<Rightarrow> bool" where
  "releasable raw clients gid T \<longleftrightarrow> raw \<noteq> [] \<and> clients \<noteq> [] \<and> distinct clients \<and> (\<forall>c\<in>set clients. client_ok c) \<and> room_for gid clients T
     \<and> length raw < 65536 \<and> distinct (map (\<lambda>n. fst (normal_node n)) raw) \<and> length (release_content (normal_node ` set raw)) < 4294864896
     \<and> (\<forall>n\<in>set raw. NUL \<notin> set (fst n) \<and> fst (path_normalize (fst n)) = QCONF_OK \<and> zpath_ok (fst (normal_node n))
          \<and> length (fst (normal_node n)) < 65536 \<and> T (fst (normal_node n)) \<noteq> None \<and> length (snd n) \<le> 1048477)"

lemma gray_begin_total:
  assumes laws: "zk_laws e" "zk_decides e" and rel: "releasable raw clients (gray_generate_id tv) (tree z)"
  shows "\<exists>z'. zk_gray_begin e tv raw clients old z = Some (QCONF_OK, gray_generate_id tv, z')"
proof -
  let ?g = "gray_generate_id tv" and ?R = "normal_node ` set raw"
  have ne: "raw \<noteq> []" "clients \<noteq> []" and cl: "\<forall>c\<in>set clients. segment_ok c \<and> tree z (client_node c) = None" "distinct clients"
    and pc: "\<forall>k. tree z (piece_node ?g k) = None" and bl: "tree z (backlink_node ?g) = None"
    and nul: "\<forall>n\<in>set raw. NUL \<notin> set (fst n)" and di: "distinct (map (\<lambda>n. fst (normal_node n)) raw)"
    and sz: "length (release_content ?R) + QCONF_GRAY_CONTENT_MAX_SIZE < 2 ^ 32"
    using rel by (auto simp: releasable_def room_for_def release_places_def client_ok_def)
  obtain nodes z1 where n: "gray_check_loop e raw [] z = (QCONF_OK, nodes, z1)" "tree z1 = tree z"
    using gray_check_total [OF laws, of raw z "[]"] rel by (auto simp: releasable_def)
  have nodes: "set nodes = ?R" using gray_check_effect [OF n(1) zk_lawsD(5) [OF laws(1)] nul] di by simp
  then have nn: "nodes \<noteq> []" using ne by (cases raw) auto
  obtain z2 where c: "client_check_loop e clients z1 = (QCONF_OK, z2)" "tree z2 = tree z"
    using client_check_total [OF laws, of clients z1] cl n(2) by auto
  have s: "gray_serialize_content nodes = (QCONF_OK, release_content ?R)"
    using gray_source_content [OF nn] nodes by (simp add: release_content_def graynodeval_to_tblval_def)
  obtain z3 where l1: "create_content_loop e ?g (release_content ?R) 0 0 z2 = Some (QCONF_OK, z3)"
    using create_content_total [OF laws refl sz, of 0 0 z2 tv] pc c(2) by auto
  from create_content_effect [OF this zk_lawsD(1) [OF laws(1)] NUL_gray_id(1) sz le0 le0]
  obtain cs :: "string list" where "grown_all (piece_node ?g ` {0..<0 + length cs}) (tree z2) (tree z3)" by blast
  then have g1: "grown_all (piece_node ?g ` {0..<length cs}) (tree z) (tree z3)" using c(2) by simp
  have "tree z3 (client_node c) = tree z (client_node c)" for c
    by (rule grown_all_other [OF g1]) (use on_way_dirs(3) in blast)
  then obtain b z4 where l2: "create_clients_loop e ?g clients [] z3 = Some (QCONF_OK, b, z4)"
    using create_clients_total [OF laws, of clients z3 ?g "[]"] cl by auto
  have "\<forall>c\<in>set clients. NUL \<notin> set c" using cl NUL_segment by blast
  then have g2: "grown_all (client_node ` set clients) (tree z3) (tree z4)" using create_clients_effect [OF l2 zk_lawsD(1) [OF laws(1)]] by blast
  have "tree z4 (backlink_node ?g) = tree z3 (backlink_node ?g)" by (rule grown_all_other [OF g2]) (use on_way_dirs(6) in blast)
  also have "\<dots> = tree z (backlink_node ?g)" by (rule grown_all_other [OF g1]) (use on_way_dirs(5) in blast)
  finally obtain z5 where l3: "zk_create e (backlink_node ?g) b z4 = Some (QCONF_OK, z5)"
    using zk_create_total [OF laws zpath_segments(3), of tv b z4] bl by auto
  show ?thesis using ne n(1) c(1) s l1 l2 l3 by (simp add: zk_gray_begin_def zk_gray_check_nodes_def zk_gray_check_chients_def Let_def)
qed

section \<open>Rollback and commit\<close>

lemma delete_notify_decided:
  assumes laws: "zk_laws e" "zk_decides e" and gid: "gid = gray_generate_id tv" and cl: "\<forall>c\<in>set clients. client_ok c"
    and bl: "tree z (backlink_node gid) = Some (backlink_of clients)"
    and pc: "\<forall>k<n. tree z (piece_node gid k) \<noteq> None" "tree z (piece_node gid n) = None"
    and below: "\<forall>p\<in>release_places gid clients. \<forall>r. tree z (p @ ''/'' @ r) = None"
  shows "\<exists>z'. zk_gray_delete_notify e gid z = Some (QCONF_OK, z') \<and> tree z' = tree z |` (- release_nodes gid n clients) \<and> zh z' = zh z"
proof -
  have bp: "zpath_ok (backlink_node gid)" unfolding gid by (rule zpath_segments)
  obtain z1 where g: "zk_get e (backlink_node gid) [] z = (QCONF_OK, backlink_of clients, z1)" and z1: "tree z1 = tree z" "zh z1 = zh z"
    using zk_get_decided [OF laws bp, of "[]" z] bl by auto
  have lf: "\<forall>c\<in>set clients. \<forall>r. tree z (client_node c @ ''/'' @ r) = None" "\<forall>k r. tree z (piece_node gid k @ ''/'' @ r) = None"
    "\<forall>r. tree z (backlink_node gid @ ''/'' @ r) = None" using below unfolding release_places_def by blast+
  then have "\<forall>c\<in>set clients. zpath_ok (client_node c) \<and> (\<forall>r. tree z1 (client_node c @ ''/'' @ r) = None)"
    using cl zpath_segments(1) unfolding z1(1) client_ok_def by blast
  from delete_clients_decided [OF laws this]
  obtain z2 where d: "delete_clients_loop e clients z1 = (QCONF_OK, z2)" "tree z2 = tree z |` (- client_node ` set clients)" "zh z2 = zh z"
    using z1 by auto
  have lines: "getline_pieces QCONF_NOTIFY_BACKLINK_DELIM (backlink_of clients) = clients"
    using cl by (intro getline_backlink) (simp add: client_ok_def)
  have away: "piece_node gid k \<notin> client_node ` set clients" "backlink_node gid \<notin> client_node ` set clients" for k
    by (auto simp: piece_node_def backlink_node_def)
  have "\<forall>k r. tree z2 (piece_node gid k @ ''/'' @ r) = None" "\<forall>k\<in>{0..<n}. tree z2 (piece_node gid k) \<noteq> None" "tree z2 (piece_node gid n) = None"
    using lf(2) pc away unfolding d(2) restrict_map_def by simp_all
  from delete_content_decided [OF laws _ this]
  obtain z3 where c: "delete_content_loop e gid 0 z2 = Some (QCONF_ERR_ZOO_NOT_EXIST, z3)" "tree z3 = tree z2 |` (- piece_node gid ` {0..<n})" "zh z3 = zh z"
    using zpath_segments(2) [of tv] d(3) unfolding gid by auto
  have "\<forall>r. tree z3 (backlink_node gid @ ''/'' @ r) = None"
    using lf(3) unfolding c(2) d(2) restrict_map_def by simp
  from zk_delete_decided [OF laws bp this]
  obtain z4 where b: "zk_delete e (backlink_node gid) z3 = (QCONF_OK, z4)" "tree z4 = (tree z3)(backlink_node gid := None)" "zh z4 = zh z"
    using c(3) by auto
  have "tree z4 = tree z |` (- release_nodes gid n clients)"
    unfolding b(2) c(2) d(2) by (auto simp: release_nodes_def restrict_map_def fun_eq_iff)
  moreover have "zk_gray_delete_notify e gid z = Some (QCONF_OK, z4)"
    using g d(1) c(1) b(1) lines by (simp add: zk_gray_delete_notify_def)
  ultimately show ?thesis using b(3) by blast
qed

definition notify_dirs :: "string set" where
  "notify_dirs = {''/qconf'', ''/qconf/__qconf_notify'', ''/qconf/__qconf_notify/content'', ''/qconf/__qconf_notify/client'', ''/qconf/__qconf_notify/backlink''}"

lemma on_way_last:
  assumes "on_way q (d @ ''/'' @ s)" "CHR ''/'' \<notin> set s"
  shows "q = d @ ''/'' @ s \<or> q \<noteq> [] \<and> on_way q d"
proof (cases "q = d @ ''/'' @ s")
  case False
  then have q: "q \<noteq> []" "prefix (q @ ''/'') ((d @ ''/'') @ s)" using assms(1) by (simp_all add: on_way_def)
  have "prefix (q @ ''/'') (d @ ''/'') \<or> (\<exists>us. q @ ''/'' = (d @ ''/'') @ us \<and> prefix us s)"
    using q(2) prefix_append [of "q @ ''/''" "d @ ''/''" s] by simp
  then have "on_way q d"
  proof
    assume "prefix (q @ ''/'') (d @ ''/'')"
    then show ?thesis using q(1) by (auto simp: on_way_def)
  next
    assume "\<exists>us. q @ ''/'' = (d @ ''/'') @ us \<and> prefix us s"
    then obtain us where us: "q @ ''/'' = (d @ ''/'') @ us" "prefix us s" by blast
    then have "us = []" using assms(2) by (cases us rule: rev_cases) (auto dest: set_mono_prefix)
    then show ?thesis using us(1) by simp
  qed
  then show ?thesis using q(1) by simp
qed simp

lemma on_way_dir: "q \<noteq> [] \<Longrightarrow> on_way q ''/qconf/__qconf_notify'' \<Longrightarrow> q = ''/qconf'' \<or> q = ''/qconf/__qconf_notify''"
  using on_way_last [of q "''/qconf''" "''__qconf_notify''"] on_way_last [of q "[]" "''qconf''"]
  by (auto simp: on_way_def)

lemma on_way_notify:
  assumes "on_way q p" "p \<in> release_places gid clients" "CHR ''/'' \<notin> set gid" "\<forall>c\<in>set clients. CHR ''/'' \<notin> set c"
  shows "q = p \<or> q \<in> notify_dirs"
proof -
  from assms(2) consider k where "p = piece_node gid k" | c where "c \<in> set clients" "p = client_node c" | "p = backlink_node gid"
    unfolding release_places_def by blast
  then obtain d s where p: "p = (''/qconf/__qconf_notify'' @ ''/'' @ d) @ ''/'' @ s" "CHR ''/'' \<notin> set s" and d: "d \<in> {''content'', ''client'', ''backlink''}"
  proof cases
    case (1 k)
    show thesis
      by (rule that [of "''content''" "gid @ ''_'' @ show_nat k"])
        (use 1 assms(3) show_nat_chars [of "CHR ''/''" k] in \<open>auto simp: piece_node_def integer_to_string_def\<close>)
  next
    case (2 c)
    show thesis by (rule that [of "''client''" c]) (use 2 assms(4) in auto)
  next
    case 3
    show thesis by (rule that [of "''backlink''" gid]) (use 3 assms(3) in \<open>auto simp: backlink_node_def\<close>)
  qed
  show ?thesis
  proof (cases "q = p")
    case False
    then have "on_way q (''/qconf/__qconf_notify'' @ ''/'' @ d)" using on_way_last [of q _ s] assms(1) p by blast
    moreover have "CHR ''/'' \<notin> set d" using d by auto
    ultimately have "q = ''/qconf/__qconf_notify'' @ ''/'' @ d \<or> q \<noteq> [] \<and> on_way q ''/qconf/__qconf_notify''" by (rule on_way_last)
    then show ?thesis using d on_way_dir [of q] by (auto simp: notify_dirs_def)
  qed simp
qed

lemma on_way_places:
  assumes "p \<in> release_places gid clients" "p' \<in> release_places gid clients" "on_way p p'" "CHR ''/'' \<notin> set gid" "\<forall>c\<in>set clients. CHR ''/'' \<notin> set c"
  shows "p = p'"
proof -
  have "p \<notin> notify_dirs" using assms(1) by (auto simp: release_places_def notify_dirs_def piece_node_def backlink_node_def)
  then show ?thesis using on_way_notify [OF assms(3,2,4,5)] by blast
qed

lemma release_places_nodes: "release_nodes gid n clients \<subseteq> release_places gid clients"
  by (auto simp: release_nodes_def release_places_def)

text \<open>Nothing is below the nodes of a release afterwards.\<close>

lemma released_below:
  assumes "released gid cs clients T T'" "room_for gid clients T" "CHR ''/'' \<notin> set gid" "\<forall>c\<in>set clients. CHR ''/'' \<notin> set c" "p \<in> release_places gid clients"
  shows "T' (p @ ''/'' @ r) = None"
proof -
  have ne: "p \<noteq> []" using assms(5) by (auto simp: release_places_def piece_node_def backlink_node_def)
  have "\<not> on_way (p @ ''/'' @ r) p'" if "p' \<in> release_nodes gid (length cs) clients" for p'
  proof
    assume w: "on_way (p @ ''/'' @ r) p'"
    have "on_way p (p @ ''/'' @ r)" using ne by (simp add: on_way_def)
    from on_way_trans [OF this w] have "p = p'" using on_way_places [OF assms(5) _ _ assms(3,4)] that release_places_nodes by blast
    then show False using w by (auto simp: on_way_def dest: prefix_length_le)
  qed
  then have "T' (p @ ''/'' @ r) = T (p @ ''/'' @ r)" using assms(1) grown_all_other unfolding released_def by metis
  then show ?thesis using assms(2,5) unfolding room_for_def by metis
qed

lemma begun:
  assumes "zk_laws e" "zk_gray_begin e tv raw clients old z = Some (QCONF_OK, gray_generate_id tv, z1)" "releasable raw clients (gray_generate_id tv) (tree z)"
  shows "\<exists>cs. cs \<noteq> [] \<and> concat cs = release_content (normal_node ` set raw) \<and> released (gray_generate_id tv) cs clients (tree z) (tree z1) \<and> zh z1 = zh z"
proof -
  have "\<forall>n\<in>set raw. NUL \<notin> set (fst n)" "\<forall>c\<in>set clients. NUL \<notin> set c" "distinct (map (\<lambda>n. fst (normal_node n)) raw)"
    "length (release_content (normal_node ` set raw)) + QCONF_GRAY_CONTENT_MAX_SIZE < 2 ^ 32"
    using assms(3) NUL_segment by (auto simp: releasable_def client_ok_def)
  from gray_begin_effect [OF assms(2,1) this] show ?thesis by blast
qed

lemma released_state:
  assumes r: "released (gray_generate_id tv) cs clients T T'" and ok: "releasable raw clients (gray_generate_id tv) T"
  shows "\<forall>c\<in>set clients. client_ok c" "T' (backlink_node (gray_generate_id tv)) = Some (backlink_of clients)"
    "\<forall>k<length cs. T' (piece_node (gray_generate_id tv) k) \<noteq> None" "T' (piece_node (gray_generate_id tv) (length cs)) = None"
    "\<forall>p\<in>release_places (gray_generate_id tv) clients. \<forall>r. T' (p @ ''/'' @ r) = None"
proof -
  show c: "\<forall>c\<in>set clients. client_ok c" using ok by (simp add: releasable_def)
  show "T' (backlink_node (gray_generate_id tv)) = Some (backlink_of clients)" "\<forall>k<length cs. T' (piece_node (gray_generate_id tv) k) \<noteq> None"
    using r by (simp_all add: released_def)
  have room: "room_for (gray_generate_id tv) clients T" using ok by (simp add: releasable_def)
  moreover have "piece_node (gray_generate_id tv) (length cs) \<in> release_places (gray_generate_id tv) clients" by (simp add: release_places_def)
  ultimately show "T' (piece_node (gray_generate_id tv) (length cs)) = None"
    using released_pieces_end [OF r NUL_gray_id(2)] unfolding room_for_def by metis
  have "\<forall>c\<in>set clients. CHR ''/'' \<notin> set c" using c segment_no_slash by (simp add: client_ok_def)
  then show "\<forall>p\<in>release_places (gray_generate_id tv) clients. \<forall>r. T' (p @ ''/'' @ r) = None"
    using released_below [OF r room NUL_gray_id(2)] by blast
qed

lemma released_restored:
  assumes r: "released (gray_generate_id tv) cs clients T T'" and ok: "releasable raw clients (gray_generate_id tv) T"
  shows "(T' |` (- release_nodes (gray_generate_id tv) (length cs) clients)) q = T q \<or> T q = None \<and> q \<in> notify_dirs"
proof (cases "q \<in> release_nodes (gray_generate_id tv) (length cs) clients \<or> T' q = T q")
  case True
  then show ?thesis using r by (auto simp: restrict_map_def released_def)
next
  case False
  then obtain p where p: "p \<in> release_nodes (gray_generate_id tv) (length cs) clients" "on_way q p"
    using r unfolding released_def grown_all_def by blast
  have "\<forall>c\<in>set clients. CHR ''/'' \<notin> set c" using ok segment_no_slash by (simp add: client_ok_def releasable_def)
  then have "q \<in> notify_dirs"
    using on_way_notify [OF p(2) _ NUL_gray_id(2)] p release_places_nodes False by blast
  moreover have "T q = None" using False r grown_all_keeps unfolding released_def by (metis not_None_eq)
  ultimately show ?thesis by simp
qed

text \<open>
  C15: A rollback undoes a release: when the nodes exist, the clients are free and the server decides
  every call, \<open>zk_gray_begin\<close> succeeds, \<open>zk_gray_rollback\<close> succeeds after it, and the tree is then what
  it was before, except for the directories of the notifications, which may have been added.
\<close>

theorem gray_rollback_restores:
  assumes "zk_laws e" and "zk_decides e" and "releasable raw clients (gray_generate_id tv) (tree z)"
  shows "\<exists>z1 z2. zk_gray_begin e tv raw clients old z = Some (QCONF_OK, gray_generate_id tv, z1)
    \<and> zk_gray_rollback e (gray_generate_id tv) z1 = Some (QCONF_OK, z2)
    \<and> (\<forall>q. tree z2 q = tree z q \<or> tree z q = None \<and> q \<in> notify_dirs)"
proof -
  let ?g = "gray_generate_id tv"
  obtain z1 where b: "zk_gray_begin e tv raw clients old z = Some (QCONF_OK, ?g, z1)" using gray_begin_total [OF assms] by blast
  obtain cs where r: "released ?g cs clients (tree z) (tree z1)" using begun [OF assms(1) b assms(3)] by blast
  note st = released_state [OF r assms(3)]
  obtain z2 where d: "zk_gray_delete_notify e ?g z1 = Some (QCONF_OK, z2)" "tree z2 = tree z1 |` (- release_nodes ?g (length cs) clients)"
    using delete_notify_decided [OF assms(1,2) refl st] by blast
  have "tree z2 q = tree z q \<or> tree z q = None \<and> q \<in> notify_dirs" for q
    unfolding d(2) by (rule released_restored [OF r assms(3)])
  then show ?thesis using b d(1) unfolding zk_gray_rollback_def by blast
qed

lemma path_normalize_strip:
  "path_normalize path = (if strip_delims path = [] then (QCONF_ERR_OTHER, ''/'') else (QCONF_OK, ''/'' @ strip_delims path))"
  by (simp add: path_normalize_def Let_def strip_Nil) (auto simp: strip_delims_def delim_def)

lemma path_normalize_idem:
  assumes "path_normalize x = (QCONF_OK, p)"
  shows "path_normalize p = (QCONF_OK, p)"
proof -
  have ne: "strip_delims x \<noteq> []" and p: "p = [delim] @ strip_delims x"
    using assms by (auto simp: path_normalize_strip delim_def split: if_splits)
  have "strip_delims p = strip_delims x"
    using strip_delims_pad [of 1 "strip_delims x" 0] strip_delims_id [OF ne] strip_delims_ends [OF ne] by (simp add: p)
  then show ?thesis using ne p by (simp add: path_normalize_strip delim_def)
qed

lemma get_content_decided:
  assumes laws: "zk_laws e" "zk_decides e" and "\<forall>k. zpath_ok (piece_node gid k)"
    and "\<forall>i<length cs. tree z (piece_node gid (k + i)) = Some (cs ! i)" "tree z (piece_node gid (k + length cs)) = None"
  shows "\<exists>z'. get_content_loop e gid k acc z = Some (QCONF_OK, acc @ concat cs, z') \<and> tree z' = tree z \<and> zh z' = zh z"
  using assms(4,5)
proof (induction cs arbitrary: k acc z)
  case Nil
  then show ?case using zk_get_decided [OF laws, of "piece_node gid k" "[]" z] assms(3)
    by (subst get_content_loop.simps) auto
next
  case (Cons c cs)
  have "tree z (piece_node gid k) = Some c" using Cons.prems(1) by force
  then obtain z1 where z1: "zk_get e (piece_node gid k) [] z = (QCONF_OK, c, z1)" "tree z1 = tree z" "zh z1 = zh z"
    using zk_get_decided [OF laws, of "piece_node gid k" "[]" z] assms(3) by auto
  have "\<forall>i<length cs. tree z1 (piece_node gid (k + 1 + i)) = Some (cs ! i)" "tree z1 (piece_node gid (k + 1 + length cs)) = None"
    using Cons.prems unfolding z1(2) by fastforce+
  from Cons.IH [OF this, of "acc @ c"] show ?case using z1 by (subst get_content_loop.simps) auto
qed

lemma deserialize_release:
  assumes "finite R" "card R < 65536" "\<forall>pv\<in>R. sizes_ok pv \<and> length (gray_source ''idc'' pv) < 4294967296"
  shows "\<exists>pvs. gray_deserialize_content (release_content R) [] = (QCONF_OK, pvs) \<and> set pvs = R \<and> distinct pvs"
proof -
  have "card (gray_source ''idc'' ` R) < 65536" using card_image_le [OF assms(1)] assms(2) le_less_trans by blast
  then have d: "tblval_to_graynodeval (release_content R) = (QCONF_OK, gray_source ''idc'' ` R)"
    unfolding release_content_def using assms by (intro graynode_rt) auto
  have ne: "release_content R \<noteq> []"
    by (simp add: release_content_def graynodeval_to_tblval_def length_0_conv [symmetric] length_encode del: length_0_conv)
  obtain pvs where p: "sorted_list_of_set (gray_source ''idc'' ` R) = map (gray_source ''idc'') pvs" "set pvs = R"
    using sources_list [of "''idc''" R] assms by auto
  have "map (\<lambda>v. case tblval_to_nodeval_path v ([], [], []) of (_, gray_val, gray_idc, gray_path) \<Rightarrow> (gray_path, gray_val)) (map (gray_source ''idc'') pvs) = pvs"
    unfolding map_map by (rule map_idI) (use p(2) assms(3) in \<open>simp add: source_decodes\<close>)
  then have "gray_deserialize_content (release_content R) [] = (QCONF_OK, pvs)"
    using ne d p(1) by (simp add: gray_deserialize_content_def)
  moreover have "distinct pvs" using p(1) distinct_sorted_list_of_set [of "gray_source ''idc'' ` R"] by (simp add: distinct_map)
  ultimately show ?thesis using p(2) by blast
qed

lemma commit_loop_decided:
  assumes laws: "zk_laws e" "zk_decides e"
    and "zh z \<noteq> None" "distinct (map fst ns)"
    and "\<forall>n\<in>set ns. zpath_ok (fst n) \<and> path_normalize (fst n) = (QCONF_OK, fst n) \<and> (\<forall>c\<in>set (fst n). path_char c) \<and> tree z (fst n) \<noteq> None"
  shows "\<exists>z'. commit_loop e ns z = Some (QCONF_OK, z') \<and> tree z' = tree z ++ map_of ns \<and> zh z' = zh z"
  using assms(3-5)
proof (induction ns arbitrary: z)
  case (Cons n ns)
  obtain p v where n: "n = (p, v)" by fastforce
  have pk: "zpath_ok p" "path_normalize p = (QCONF_OK, p)" "\<forall>c\<in>set p. path_char c" "tree z p \<noteq> None" using Cons.prems(3) n by auto
  have "p \<noteq> []" using pk(1) by (auto simp: zpath_ok_def)
  then have "checked_path p z = Some p" using Cons.prems(1) pk cstr_zpath [OF pk(1)] by (simp add: checked_path_def zk_path_def)
  moreover obtain z1 where z1: "zk_modify e p v z = (QCONF_OK, z1)" "tree z1 = (tree z)(p \<mapsto> v)" "zh z1 = zh z"
    using zk_modify_decided [OF laws pk(1), of v z] pk(4) by auto
  ultimately have s: "zk_node_set e p v z = Some (QCONF_OK, z1)" by (simp add: zk_node_set_def set_or_create_def)
  have "zh z1 \<noteq> None" "distinct (map fst ns)"
    "\<forall>n\<in>set ns. zpath_ok (fst n) \<and> path_normalize (fst n) = (QCONF_OK, fst n) \<and> (\<forall>c\<in>set (fst n). path_char c) \<and> tree z1 (fst n) \<noteq> None"
    using Cons.prems z1 by simp_all
  then obtain z' where z': "commit_loop e ns z1 = Some (QCONF_OK, z')" "tree z' = tree z1 ++ map_of ns" "zh z' = zh z1"
    using Cons.IH by blast
  have "p \<notin> dom (map_of ns)" using Cons.prems(2) n by (simp add: dom_map_of_conv_image_fst)
  then have "(tree z)(p \<mapsto> v) ++ map_of ns = tree z ++ map_of ((p, v) # ns)" by (simp add: map_add_upd_left fun_upd_def [symmetric])
  then have "tree z' = tree z ++ map_of (n # ns)" "zh z' = zh z" using z' z1(2,3) n by metis+
  moreover have "commit_loop e (n # ns) z = Some (QCONF_OK, z')" using s z'(1) n by simp
  ultimately show ?case by blast
qed simp

definition committable :: "(string \<times> string) list \<Rightarrow> bool" where
  "committable raw \<longleftrightarrow> (\<forall>n\<in>set raw. (\<forall>c\<in>set (fst (normal_node n)). path_char c) \<and> \<not> prefix ''/qconf/__qconf_notify'' (fst (normal_node n)))"

lemma places_prefix: "p \<in> release_places gid clients \<Longrightarrow> prefix ''/qconf/__qconf_notify'' (p @ r)"
  by (auto simp: release_places_def piece_node_def backlink_node_def)

lemma release_decoded:
  assumes "releasable raw clients gid T"
  shows "\<exists>pvs. gray_deserialize_content (release_content (normal_node ` set raw)) [] = (QCONF_OK, pvs)
    \<and> set pvs = normal_node ` set raw \<and> distinct (map fst pvs)"
proof -
  let ?R = "normal_node ` set raw"
  have "card ?R < 65536" using card_image_le [of "set raw" normal_node] card_length [of raw] assms by (simp add: releasable_def)
  moreover have "\<forall>pv\<in>?R. sizes_ok pv \<and> length (gray_source ''idc'' pv) < 4294967296"
  proof
    fix pv assume "pv \<in> ?R"
    then have "length (fst pv) < 65536" "length (snd pv) \<le> 1048477" using assms by (auto simp: normal_node_def releasable_def)
    then show "sizes_ok pv \<and> length (gray_source ''idc'' pv) < 4294967296"
      by (cases pv) (simp add: sizes_ok_def gray_source_length)
  qed
  ultimately obtain pvs where p: "gray_deserialize_content (release_content ?R) [] = (QCONF_OK, pvs)" "set pvs = ?R" "distinct pvs"
    using deserialize_release [of ?R] by blast
  have "inj_on fst ?R"
    using assms by (intro inj_on_imageI) (simp add: releasable_def distinct_map comp_def)
  then show ?thesis using p by (simp add: distinct_map)
qed

lemma commit_ready:
  assumes "releasable raw clients gid T" "committable raw" "released gid cs clients T T'" "set pvs = normal_node ` set raw"
  shows "\<forall>n\<in>set pvs. zpath_ok (fst n) \<and> path_normalize (fst n) = (QCONF_OK, fst n) \<and> (\<forall>c\<in>set (fst n). path_char c) \<and> T' (fst n) \<noteq> None"
proof
  fix n assume "n \<in> set pvs"
  then obtain x where x: "x \<in> set raw" "n = normal_node x" using assms(4) by blast
  then have "path_normalize (fst x) = (QCONF_OK, fst n)" "zpath_ok (fst n)" "T (fst n) \<noteq> None" "\<forall>c\<in>set (fst n). path_char c"
    using assms(1,2) by (auto simp: releasable_def committable_def normal_node_def prod_eq_iff)
  moreover from this(3) have "T' (fst n) \<noteq> None" using assms(3) grown_all_keeps unfolding released_def by (metis not_None_eq)
  ultimately show "zpath_ok (fst n) \<and> path_normalize (fst n) = (QCONF_OK, fst n) \<and> (\<forall>c\<in>set (fst n). path_char c) \<and> T' (fst n) \<noteq> None"
    using path_normalize_idem by blast
qed

text \<open>
  C5: A commit completes a release: on a server that decides every call, and when the nodes have paths
  that the manager accepts, outside the directory of the notifications, \<open>zk_gray_begin\<close> followed by
  \<open>zk_gray_commit\<close> succeeds, gives every node its released value, and leaves every other node as it
  was before, except for the directories of the notifications, which may have been added.
\<close>

theorem gray_commit_applies:
  assumes "zk_laws e" and "zk_decides e" and "releasable raw clients (gray_generate_id tv) (tree z)" and "committable raw" and "zh z \<noteq> None"
  shows "\<exists>z1 z2. zk_gray_begin e tv raw clients old z = Some (QCONF_OK, gray_generate_id tv, z1)
    \<and> zk_gray_commit e (gray_generate_id tv) z1 = Some (QCONF_OK, z2)
    \<and> (\<forall>(p, v)\<in>normal_node ` set raw. tree z2 p = Some v)
    \<and> (\<forall>q. q \<notin> fst ` normal_node ` set raw \<longrightarrow> tree z2 q = tree z q \<or> tree z q = None \<and> q \<in> notify_dirs)"
proof -
  let ?g = "gray_generate_id tv" and ?R = "normal_node ` set raw"
  obtain z1 where b: "zk_gray_begin e tv raw clients old z = Some (QCONF_OK, ?g, z1)" using gray_begin_total [OF assms(1-3)] by blast
  obtain cs where cs: "concat cs = release_content ?R" and r: "released ?g cs clients (tree z) (tree z1)" and h1: "zh z1 = zh z"
    using begun [OF assms(1) b assms(3)] by blast
  note st = released_state [OF r assms(3)]
  have "\<forall>i<length cs. tree z1 (piece_node ?g (0 + i)) = Some (cs ! i)" using r by (simp add: released_def)
  then obtain z2 where g: "get_content_loop e ?g 0 [] z1 = Some (QCONF_OK, release_content ?R, z2)" "tree z2 = tree z1" "zh z2 = zh z"
    using get_content_decided [OF assms(1,2), of ?g cs z1 0 "[]"] zpath_segments(2) st(4) cs h1 by auto
  obtain pvs where p: "gray_deserialize_content (release_content ?R) [] = (QCONF_OK, pvs)" "set pvs = ?R" "distinct (map fst pvs)"
    using release_decoded [OF assms(3)] by blast
  obtain z3 where c: "commit_loop e pvs z2 = Some (QCONF_OK, z3)" "tree z3 = tree z1 ++ map_of pvs" "zh z3 = zh z"
    using commit_loop_decided [OF assms(1,2), of z2 pvs] commit_ready [OF assms(3,4) r, of pvs] p g(2,3) assms(5) by auto
  have out: "tree z3 (q @ s) = tree z1 (q @ s)" if "q \<in> release_places ?g clients" for q s
  proof -
    have "q @ s \<notin> fst ` set pvs" using places_prefix [OF that, of s] assms(4) unfolding p(2) committable_def by auto
    then show ?thesis unfolding c(2) by (simp add: map_add_def map_of_eq_None_iff [THEN iffD2])
  qed
  then have same: "\<And>q. q \<in> release_places ?g clients \<Longrightarrow> tree z3 q = tree z1 q" by (metis append_Nil2)
  have pl: "piece_node ?g k \<in> release_places ?g clients" "backlink_node ?g \<in> release_places ?g clients" for k by (simp_all add: release_places_def)
  obtain z4 where d: "zk_gray_delete_notify e ?g z3 = Some (QCONF_OK, z4)" "tree z4 = tree z3 |` (- release_nodes ?g (length cs) clients)"
  proof -
    have "tree z3 (backlink_node ?g) = Some (backlink_of clients)" "\<forall>k<length cs. tree z3 (piece_node ?g k) \<noteq> None"
      "tree z3 (piece_node ?g (length cs)) = None" "\<forall>q\<in>release_places ?g clients. \<forall>s. tree z3 (q @ ''/'' @ s) = None"
      using st(2-4) same pl by simp_all (use st(5) out in simp)
    from delete_notify_decided [OF assms(1,2) refl st(1) this] show thesis using that by blast
  qed
  have run: "zk_gray_commit e ?g z1 = Some (QCONF_OK, z4)" using g(1) p(1) c(1) d(1) by (simp add: zk_gray_commit_def zk_gray_get_content_def)
  have at: "tree z4 q = Some v" if "(q, v) \<in> ?R" for q v
  proof -
    from that obtain n where n: "n \<in> set raw" "(q, v) = normal_node n" by blast
    have "fst (normal_node n) = q" unfolding n(2) [symmetric] by simp
    then have "\<not> prefix ''/qconf/__qconf_notify'' q" using assms(4) n(1) unfolding committable_def by blast
    then have "q \<notin> release_nodes ?g (length cs) clients" using places_prefix [of q ?g clients "[]"] release_places_nodes by auto
    moreover have "map_of pvs q = Some v" using that p(2,3) by simp
    ultimately show ?thesis unfolding d(2) c(2) by (simp add: restrict_map_def)
  qed
  have "\<forall>(p, v)\<in>?R. tree z4 p = Some v"
  proof
    fix x assume "x \<in> ?R"
    then show "case x of (p, v) \<Rightarrow> tree z4 p = Some v" using at by (cases x) simp
  qed
  moreover have "tree z4 q = (tree z1 |` (- release_nodes ?g (length cs) clients)) q" if "q \<notin> fst ` ?R" for q
    using that unfolding d(2) c(2) p(2) [symmetric] by (simp add: restrict_map_def map_add_def map_of_eq_None_iff [THEN iffD2])
  then have "\<forall>q. q \<notin> fst ` ?R \<longrightarrow> tree z4 q = tree z q \<or> tree z q = None \<and> q \<in> notify_dirs"
    using released_restored [OF r assms(3)] by metis
  ultimately show ?thesis using b run by blast
qed

section \<open>A server in memory\<close>

definition mem_server :: zk_server where
  "mem_server =
     \<lparr>sv_create = \<lambda>_ T p v. if T p \<noteq> None then (ZNODEEXISTS, T)
        else if parent_node p \<noteq> [] \<and> T (parent_node p) = None then (ZNONODE, T) else (ZOK, T(p \<mapsto> v)),
      sv_set = \<lambda>_ T p v. if T p = None then (ZNONODE, T) else (ZOK, T(p \<mapsto> v)),
      sv_delete = \<lambda>_ T p. if T p = None then (ZNONODE, T) else if \<exists>q. T (p @ ''/'' @ q) \<noteq> None then (ZNOTEMPTY, T) else (ZOK, T(p := None)),
      sv_get = \<lambda>_ T p. (case T p of None \<Rightarrow> (ZNONODE, None) | Some v \<Rightarrow> (ZOK, Some v)),
      sv_exists = \<lambda>_ T p. if T p = None then ZNONODE else ZOK,
      sv_children = \<lambda>_ T p. if T p = None then (ZNONODE, []) else if finite (child_names T p) then (ZOK, sorted_list_of_set (child_names T p)) else (-1, []),
      sv_init = \<lambda>_. Some 1\<rparr>"

lemma mem_server_laws: "zk_laws mem_server"
proof -
  have "create_law mem_server" "set_law mem_server" "exists_law mem_server"
    by (auto simp: create_law_def set_law_def exists_law_def mem_server_def no_effect_def split: if_splits)
  moreover have "delete_law mem_server"
    by (simp add: delete_law_def mem_server_def no_effect_def)
  moreover have "get_law mem_server" by (auto simp: get_law_def mem_server_def split: option.splits)
  moreover have "children_law mem_server" by (auto simp: children_law_def mem_server_def split: if_splits)
  ultimately show ?thesis by (simp add: zk_laws_def)
qed

lemma mem_server_decides: "zk_decides mem_server"
  by (auto simp: zk_decides_def mem_server_def split: option.splits)

definition small_tree :: QConfZK where
  "small_tree = \<lparr>zh = Some 1, tree = [''/p'' \<mapsto> ''o''], calls = 0\<rparr>"

lemma small_normal: "normal_node (''/p'', ''v'') = (''/p'', ''v'')"
  by (simp add: normal_node_def path_normalize_def)

lemma small_releasable: "releasable [(''/p'', ''v'')] [''h''] (gray_generate_id (1, 2)) (tree small_tree)"
proof -
  have "client_ok ''h''" by (simp add: client_ok_def segment_ok_def less_eq_char_def)
  moreover have "zpath_ok ''/p''"
    unfolding zpath_ok_def by (rule exI [of _ "[''p'']"]) (simp add: zjoin_def segment_ok_def less_eq_char_def)
  moreover have "room_for (gray_generate_id (1, 2)) [''h''] (tree small_tree)"
  proof -
    have "p @ r \<noteq> ''/p''" if "p \<in> release_places (gray_generate_id (1, 2)) [''h'']" for p r
      using places_prefix [OF that, of r] by auto
    from this [of _ "[]"] this show ?thesis by (simp add: room_for_def small_tree_def)
  qed
  moreover have "length (release_content {(''/p'', ''v'')}) < 4294864896"
    by (simp add: release_content_def graynodeval_to_tblval_def gray_entry_def gray_source_length)
  moreover have "fst (path_normalize ''/p'') = QCONF_OK" by (simp add: path_normalize_def)
  ultimately show ?thesis by (simp add: releasable_def small_normal small_tree_def NUL_def)
qed

theorem gray_rollback_restores_witness:
  "\<exists>z1 z2. zk_gray_begin mem_server (1, 2) [(''/p'', ''v'')] [''h''] [] small_tree = Some (QCONF_OK, gray_generate_id (1, 2), z1)
    \<and> zk_gray_rollback mem_server (gray_generate_id (1, 2)) z1 = Some (QCONF_OK, z2)
    \<and> (\<forall>q. tree z2 q = tree small_tree q \<or> tree small_tree q = None \<and> q \<in> notify_dirs)"
  by (rule gray_rollback_restores [OF mem_server_laws mem_server_decides small_releasable])

theorem gray_commit_applies_witness:
  "\<exists>z1 z2. zk_gray_begin mem_server (1, 2) [(''/p'', ''v'')] [''h''] [] small_tree = Some (QCONF_OK, gray_generate_id (1, 2), z1)
    \<and> zk_gray_commit mem_server (gray_generate_id (1, 2)) z1 = Some (QCONF_OK, z2) \<and> tree z2 ''/p'' = Some ''v''"
proof -
  have "committable [(''/p'', ''v'')]" by (simp add: committable_def small_normal path_char_def less_eq_char_def)
  moreover have "zh small_tree \<noteq> None" by (simp add: small_tree_def)
  ultimately show ?thesis
    using gray_commit_applies [OF mem_server_laws mem_server_decides small_releasable, of "[]"] by (auto simp: small_normal)
qed

theorem gray_release_reaches_agent_witness:
  "\<exists>z' ns g' n'. zk_gray_begin mem_server (1, 2) [(''/p'', ''v'')] [''h''] [] small_tree = Some (QCONF_OK, gray_generate_id (1, 2), z')
    \<and> gray_process (zk_static (tree z') Map.empty) ''h'' 0 (Some 1) ''i'' [] \<lparr>notify_node = client_node ''h'', gray_nodes = [(''2x'', ''w'')]\<rparr> = Some (QCONF_OK, ns, g', n')
    \<and> is_gray_node (node_tblkey ''i'' ''/p'') g' = Some (gray_source ''i'' (''/p'', ''v''))"
proof -
  let ?raw = "[(''/p'', ''v'')]" and ?g = "gray_generate_id (1, 2)" and ?s = "\<lparr>notify_node = client_node ''h'', gray_nodes = [(''2x'', ''w'')]\<rparr>"
  obtain z' where b: "zk_gray_begin mem_server (1, 2) ?raw [''h''] [] small_tree = Some (QCONF_OK, ?g, z')"
    using gray_begin_total [OF mem_server_laws mem_server_decides small_releasable] by blast
  let ?en = "zk_static (tree z') Map.empty"
  have room: "\<forall>k. tree small_tree (piece_node ?g k) = None"
    using small_releasable unfolding releasable_def room_for_def release_places_def by blast
  have en: "zk_node_buf ?en" "\<forall>m p. zoo_get ?en m (Some 1) p = (case tree z' p of None \<Rightarrow> (ZNONODE, None) | Some d \<Rightarrow> (ZOK, Some d))"
    by (simp_all add: zk_static_def)
  have h: "\<forall>n\<in>set ?raw. NUL \<notin> set (fst n)" "\<forall>c\<in>set [''h'']. NUL \<notin> set c" "distinct (map (\<lambda>n. fst (normal_node n)) ?raw)" "length ?raw < 65536"
    "\<forall>n\<in>set ?raw. length (fst (normal_node n)) < 65536" "length (release_content (normal_node ` set ?raw)) < 4294864896"
    using small_releasable by (simp_all add: NUL_def releasable_def small_normal)
  have i: "''h'' \<in> set [''h'']" "Some (1 :: nat) \<noteq> None" "''i'' \<noteq> []" "length ''i'' < 256" "notify_node ?s = [] \<or> notify_node ?s = client_node ''h''" by simp_all
  have k: "is_gray_node (node_tblkey ''i'' ''/p'') ?s = None"
    by (simp add: is_gray_node_def serialize_to_tblkey_def Let_def qconf_append_path_def qconf_append_idc_def qconf_string_append_def)
  show ?thesis
    using gray_release_reaches_agent [OF b mem_server_laws h room i(1) en(1) i(2-4) en(2) i(5), of 0] b k by (auto simp: small_normal)
qed

end
