(* ===== verification/QServices.thy ===== *)
theory QServices
  imports QRelease
begin

text \<open>
  Services and paths between the parts: what \<open>zk_services_set\<close> of the manager stores is what
  \<open>zk_services_get_with_status\<close> returns and what the agents read, and the manager and the driver
  agree on the form of a path.  The monitor node of a service, which tells services from plain nodes,
  lies elsewhere in the tree.
\<close>

section \<open>Paths of services\<close>

lemma hex_chars:
  assumes "c \<in> set (qhashmd5_bin_to_hex s)"
  shows "c \<in> set hexs"
proof -
  obtain x :: char where "c = hexs ! (of_char x div 16) \<or> c = hexs ! (of_char x mod 16)"
    using assms by (auto simp: qhashmd5_bin_to_hex_def)
  moreover have "(of_char x :: nat) div 16 < 16" using of_char_less_256 [of x] by (intro less_mult_imp_div_less) simp
  moreover have "length hexs = 16" by (simp add: hexs_def)
  ultimately show ?thesis using nth_mem by (metis mod_less_divisor zero_less_numeral)
qed

lemma segment_hex: "length s = 16 \<Longrightarrow> segment_ok (qhashmd5_bin_to_hex s)"
proof -
  assume l: "length s = 16"
  have "\<forall>c\<in>set (qhashmd5_bin_to_hex s). c \<noteq> CHR ''/'' \<and> CHR '' '' \<le> c \<and> c \<le> CHR ''~''"
    using hex_chars by (auto simp: hexs_def less_eq_char_def dest!: hex_chars)
  moreover have "2 < length (qhashmd5_bin_to_hex s)" using l by simp
  then have "qhashmd5_bin_to_hex s \<noteq> []" "qhashmd5_bin_to_hex s \<noteq> ''.''" "qhashmd5_bin_to_hex s \<noteq> ''..''"
    by (auto simp del: length_bin_to_hex)
  ultimately show ?thesis by (simp add: segment_ok_def)
qed

lemma zpath_monitor: "zpath_ok (get_monitor_node path)"
proof -
  have "segment_ok ''qconf_monitor_lock_node''" "segment_ok ''default_instance''" "segment_ok ''md5_list''"
    by (simp_all add: segment_ok_def less_eq_char_def)
  moreover have "segment_ok (qhashmd5_bin_to_hex (qhashmd5 path))" by (rule segment_hex) simp
  ultimately show ?thesis
    unfolding zpath_ok_def
    by (intro exI [of _ "[''qconf_monitor_lock_node'', ''default_instance'', ''md5_list'', qhashmd5_bin_to_hex (qhashmd5 path)]"])
      (simp add: zjoin_def get_monitor_node_def)
qed

lemma checked_path_again:
  assumes "checked_path node z = Some path" "NUL \<notin> set path" "zh z' = zh z"
  shows "checked_path node z' = Some path" "checked_path path z' = Some path"
proof -
  have n: "zh z \<noteq> None" "zk_path node [] = (QCONF_OK, path)" using assms(1) by (auto simp: checked_path_def split: if_splits prod.splits)
  then show "checked_path node z' = Some path" using assms(3) by (simp add: checked_path_def)
  have nn: "path_normalize node = (QCONF_OK, path)" "\<forall>c\<in>set (cstr node). path_char c" using n(2) by (auto simp: zk_path_def split: if_splits)
  have p: "path = ''/'' @ strip_delims node" using nn(1) by (auto simp: path_normalize_strip split: if_splits)
  have "NUL \<in> set node \<Longrightarrow> NUL \<in> set (strip_delims node)"
    using in_dropWhile [of NUL _ "\<lambda>c. c = delim"] by (simp add: strip_delims_def NUL_def delim_def)
  then have "NUL \<notin> set node" using assms(2) p by auto
  then have "cstr node = node" by simp
  then have "\<forall>c\<in>set path. path_char c"
    using nn(2) path_normalize_chars [OF nn(1)] by (auto simp: path_char_def)
  then have "zk_path path [] = (QCONF_OK, path)"
    using path_normalize_idem [OF nn(1)] assms(2) p by (simp add: zk_path_def)
  then show "checked_path path z' = Some path" using n(1) assms(3) by (simp add: checked_path_def)
qed

section \<open>Storing\<close>

text \<open>The service node and its children, as far as the operations on services look at them.\<close>

definition apart :: "string \<Rightarrow> bool" where
  "apart path \<longleftrightarrow> \<not> prefix (path @ ''/'') (get_monitor_node path) \<and> NUL \<notin> set path \<and> path \<noteq> []"

lemma serv_path_eq: "serv_path p c = p @ ''/'' @ c"
  by (simp add: serv_path_def)

lemma monitor_create_effect:
  assumes "zk_monitor_node_create e path z = Some (QCONF_OK, z')" "zk_laws e" "apart path"
  shows "zh z' = zh z \<and> tree z' (get_monitor_node path) \<noteq> None \<and> tree z \<subseteq>\<^sub>m tree z' \<and> (\<forall>c. tree z' (serv_path path c) = tree z (serv_path path c))"
proof -
  obtain r where c: "zk_create e (get_monitor_node path) path z = Some (r, z')" "r = QCONF_OK \<or> r = QCONF_ERR_ZOO_ALREADY_EXIST"
    using assms(1) by (auto simp: zk_monitor_node_create_def bind_eq_Some_conv split: if_splits)
  note ef = zk_create_effect [OF c(1) zk_lawsD(1) [OF assms(2)] NUL_zpath [OF zpath_monitor]]
  have "\<not> on_way (serv_path path c) (get_monitor_node path)" for c
    using assms(3) unfolding apart_def on_way_def serv_path_def by (metis append_assoc append_prefixD prefix_order.refl)
  then have "\<forall>c. tree z' (serv_path path c) = tree z (serv_path path c)" using ef(2) unfolding grown_def by blast
  then show ?thesis using ef c(2) by (auto simp: grown_def)
qed

lemma service_add_effect:
  assumes "zk_service_add e path s st z = Some (QCONF_OK, z')" "zk_laws e" "apart path" "checked_path path z = Some path" "CHR ''/'' \<notin> set s" "NUL \<notin> set s"
  shows "zh z' = zh z \<and> tree z' (get_monitor_node path) \<noteq> None \<and> (tree z path \<noteq> None \<longrightarrow> tree z' path \<noteq> None)
    \<and> (\<forall>c. tree z' (serv_path path c) = (if c = s then Some (integer_to_string st) else tree z (serv_path path c)))"
proof -
  obtain z1 where m: "zk_monitor_node_create e path z = Some (QCONF_OK, z1)"
    and c: "set_or_create e (serv_path path s) (integer_to_string st) z1 = Some (QCONF_OK, z')"
    using assms(1,4) by (auto simp: zk_service_add_def bind_eq_Some_conv split: if_splits)
  note me = monitor_create_effect [OF m assms(2,3)]
  have "NUL \<notin> set (serv_path path s)" using assms(3,6) by (simp add: serv_path_def apart_def NUL_def)
  note ce = set_or_create_effect [OF c assms(2) this]
  have "get_monitor_node path \<noteq> serv_path path s" using assms(3) by (auto simp: apart_def serv_path_def)
  then have mon: "tree z' (get_monitor_node path) \<noteq> None" using ce(4) me by metis
  have "tree z' (serv_path path c) = tree z1 (serv_path path c)" if "c \<noteq> s" for c
    using ce(2) on_way_sibling [OF assms(5), of path c] that unfolding serv_path_eq by blast
  moreover have "tree z' (serv_path path s) = Some (integer_to_string st)" using ce(3) by simp
  moreover have "tree z' path \<noteq> None" if p: "tree z path \<noteq> None"
  proof -
    have "tree z1 path \<noteq> None" using p me by (metis domIff map_le_def)
    moreover have "path \<noteq> serv_path path s" by (simp add: serv_path_def)
    ultimately show ?thesis using ce(4) by metis
  qed
  ultimately show ?thesis using ce(1) me mon by auto
qed

lemma add_loop_effect:
  assumes "add_loop e path ss z = Some (QCONF_OK, z')" "zk_laws e" "apart path" "checked_path path z = Some path"
    "\<forall>s\<in>set ss. CHR ''/'' \<notin> set (fst s) \<and> NUL \<notin> set (fst s)" "distinct (map fst ss)"
  shows "zh z' = zh z \<and> (ss \<noteq> [] \<longrightarrow> tree z' (get_monitor_node path) \<noteq> None) \<and> (tree z path \<noteq> None \<longrightarrow> tree z' path \<noteq> None)
    \<and> (\<forall>c. tree z' (serv_path path c) = (case map_of ss c of Some st \<Rightarrow> Some (integer_to_string st) | None \<Rightarrow> tree z (serv_path path c)))"
  using assms(1,4-6)
proof (induction ss arbitrary: z)
  case (Cons s ss)
  obtain z1 where a: "zk_service_add e path (fst s) (snd s) z = Some (QCONF_OK, z1)" and r: "add_loop e path ss z1 = Some (QCONF_OK, z')"
    using Cons.prems(1) by (auto simp: bind_eq_Some_conv split: if_splits)
  have sl: "CHR ''/'' \<notin> set (fst s)" "NUL \<notin> set (fst s)" using Cons.prems(3) by auto
  note ae = service_add_effect [OF a assms(2,3) Cons.prems(2) sl]
  have "checked_path path z1 = Some path" using checked_path_again(2) [OF Cons.prems(2)] assms(3) ae unfolding apart_def by blast
  then have IH: "zh z' = zh z1" "ss \<noteq> [] \<Longrightarrow> tree z' (get_monitor_node path) \<noteq> None" "tree z1 path \<noteq> None \<Longrightarrow> tree z' path \<noteq> None"
    "\<forall>c. tree z' (serv_path path c) = (case map_of ss c of Some st \<Rightarrow> Some (integer_to_string st) | None \<Rightarrow> tree z1 (serv_path path c))"
    using Cons.IH [OF r] Cons.prems(3,4) by simp_all
  have mon: "tree z' (get_monitor_node path) \<noteq> None" using IH(2) ae r by (cases ss) simp_all
  have "map_of ss (fst s) = None" using Cons.prems(4) by (simp add: map_of_eq_None_iff)
  then have "tree z' (serv_path path c) = (case map_of (s # ss) c of Some st \<Rightarrow> Some (integer_to_string st) | None \<Rightarrow> tree z (serv_path path c))" for c
    using IH(4) ae by (cases s) (auto split: option.splits)
  then show ?case using IH(1,3) ae mon by simp
qed simp

lemma delete_loop_effect:
  assumes "delete_loop e path ds z = (QCONF_OK, z')" "zk_laws e" "NUL \<notin> set path" "\<forall>d\<in>set ds. NUL \<notin> set d"
  shows "zh z' = zh z \<and> tree z' = tree z |` (- serv_path path ` set ds)"
  using assms(1,4)
proof (induction ds arbitrary: z)
  case Nil
  then show ?case by (simp add: restrict_map_def fun_eq_iff)
next
  case (Cons d ds)
  obtain z1 where d: "zk_delete e (serv_path path d) z = (QCONF_OK, z1)" "delete_loop e path ds z1 = (QCONF_OK, z')"
    using Cons.prems(1) by (auto split: prod.splits if_splits)
  have "NUL \<notin> set (serv_path path d)" using assms(3) Cons.prems(2) by (simp add: serv_path_def NUL_def)
  note de = zk_delete_effect [OF zk_lawsD(3) [OF assms(2)] this d(1)]
  have "zh z' = zh z1" "tree z' = tree z1 |` (- serv_path path ` set ds)" using Cons.IH [OF d(2)] Cons.prems(2) by simp_all
  then show ?case using de(1,3) by (simp only: restrict_minus_insert list.set image_insert simp_thms)
qed

lemma serv_path_inject [simp]: "serv_path p c = serv_path p d \<longleftrightarrow> c = d"
  by (simp add: serv_path_def)

lemma child_names_serv: "c \<in> child_names T p \<longleftrightarrow> c \<noteq> [] \<and> CHR ''/'' \<notin> set c \<and> T (serv_path p c) \<noteq> None"
  by (simp add: child_names_def serv_path_def)

text \<open>The node exists after the list of the old services has been read, or created where it was missing.\<close>

lemma service_node_effect:
  assumes "zk_list e path [] z = (r, old, z2)" "(if r = QCONF_ERR_ZOO_NOT_EXIST then zk_create e path [] z2 else Some (r, z2)) = Some (QCONF_OK, z3)"
    and laws: "zk_laws e" and "checked_path path z = Some path" "NUL \<notin> set path" "tree z path = None \<longrightarrow> child_names (tree z) path = {}"
  shows "zh z3 = zh z \<and> tree z3 path \<noteq> None \<and> set old = child_names (tree z) path \<and> tree z \<subseteq>\<^sub>m tree z3
    \<and> (\<forall>c. tree z3 (serv_path path c) = tree z (serv_path path c))"
proof -
  note le = zk_list_effect [OF zk_lawsD(6) [OF laws] assms(4,5,1)]
  show ?thesis
  proof (cases "r = QCONF_ERR_ZOO_NOT_EXIST")
    case False
    then show ?thesis using assms(2) le by simp
  next
    case True
    then have c: "zk_create e path [] z2 = Some (QCONF_OK, z3)" using assms(2) by simp
    note ce = zk_create_effect [OF c zk_lawsD(1) [OF laws] assms(5)]
    have "\<not> on_way (serv_path path c) path" for c by (auto simp: on_way_def serv_path_def dest: prefix_length_le)
    then have "\<forall>c. tree z3 (serv_path path c) = tree z (serv_path path c)" using ce(2) le(1) unfolding grown_def by metis
    moreover have "old = []" "tree z path = None" using le True by simp_all
    ultimately show ?thesis using ce le(1,2) assms(6) by (simp add: grown_def)
  qed
qed

lemma services_set_effect:
  assumes "zk_services_set e node servs z = Some (QCONF_OK, z')" and laws: "zk_laws e"
    and "checked_path node z = Some path" "apart path" "\<forall>s\<in>set servs. CHR ''/'' \<notin> set (fst s) \<and> NUL \<notin> set (fst s)" "distinct (map fst servs)"
    and "\<forall>c\<in>child_names (tree z) path. NUL \<notin> set c" "tree z path = None \<longrightarrow> child_names (tree z) path = {}"
  shows "zh z' = zh z \<and> (\<forall>s\<in>set servs. check_service (fst s) (snd s)) \<and> tree z' (get_monitor_node path) \<noteq> None \<and> tree z' path \<noteq> None
    \<and> (\<forall>c. c \<noteq> [] \<longrightarrow> CHR ''/'' \<notin> set c \<longrightarrow> tree z' (serv_path path c) = map_option integer_to_string (map_of servs c))"
proof -
  obtain r old z2 z1 z3 z4 where ne: "servs \<noteq> []" and chk: "\<forall>s\<in>set servs. check_service (fst s) (snd s)"
    and m: "zk_monitor_node_create e path z = Some (QCONF_OK, z1)" and l: "zk_list e path [] z1 = (r, old, z2)"
    and cr: "(if r = QCONF_ERR_ZOO_NOT_EXIST then zk_create e path [] z2 else Some (r, z2)) = Some (QCONF_OK, z3)"
    and ad: "add_loop e path servs z3 = Some (QCONF_OK, z4)"
    and de: "delete_loop e path (filter (\<lambda>s. s \<notin> fst ` set servs) old) z4 = (QCONF_OK, z')"
    using assms(1,3) by (auto simp: zk_services_set_def Let_def bind_eq_Some_conv split: if_splits prod.splits)
  have nul: "NUL \<notin> set path" using assms(4) by (simp add: apart_def)
  note me = monitor_create_effect [OF m laws assms(4)]
  have kids: "child_names (tree z1) path = child_names (tree z) path" using me by (auto simp: child_names_serv)
  have c1: "checked_path path z1 = Some path" using checked_path_again [OF assms(3) nul] me by blast
  have "tree z1 path = None \<longrightarrow> child_names (tree z1) path = {}"
    using assms(8) me unfolding kids by (metis domIff map_le_def)
  from service_node_effect [OF l cr laws c1 nul this]
  have se: "zh z3 = zh z1" "tree z3 path \<noteq> None" "set old = child_names (tree z) path" "\<forall>c. tree z3 (serv_path path c) = tree z (serv_path path c)"
    using me kids by simp_all
  have c3: "checked_path path z3 = Some path" using checked_path_again [OF assms(3) nul] me se(1) by simp
  note ae = add_loop_effect [OF ad laws assms(4) c3 assms(5,6)]
  have "\<forall>d\<in>set (filter (\<lambda>s. s \<notin> fst ` set servs) old). NUL \<notin> set d" using se(3) assms(7) by simp
  note dl = delete_loop_effect [OF de laws nul this]
  have "tree z' (serv_path path c) = map_option integer_to_string (map_of servs c)" if c: "c \<noteq> []" "CHR ''/'' \<notin> set c" for c
  proof (cases "map_of servs c")
    case None
    then have "c \<notin> fst ` set servs" by (simp add: map_of_eq_None_iff)
    moreover have "tree z4 (serv_path path c) = tree z (serv_path path c)" using ae se(4) None by simp
    moreover have "c \<in> set old \<longleftrightarrow> tree z (serv_path path c) \<noteq> None" using se(3) c by (simp add: child_names_serv)
    ultimately show ?thesis using dl None by (auto simp: restrict_map_def)
  next
    case (Some st)
    then have "c \<in> fst ` set servs" by (metis map_of_eq_None_iff option.distinct(1))
    then have "serv_path path c \<notin> serv_path path ` set (filter (\<lambda>s. s \<notin> fst ` set servs) old)" by (auto simp: serv_path_def)
    then show ?thesis using dl ae Some by (simp add: restrict_map_def)
  qed
  moreover have "get_monitor_node path \<notin> serv_path path ` D" "path \<notin> serv_path path ` D" for D
    using assms(4) by (auto simp: apart_def serv_path_def)
  then have "tree z' (get_monitor_node path) \<noteq> None" "tree z' path \<noteq> None" using dl ae ne se(2) by (simp_all add: restrict_map_def)
  ultimately show ?thesis using chk dl ae se(1) me by simp
qed

section \<open>Reading back\<close>

lemma zpath_child: "zpath_ok p \<Longrightarrow> segment_ok c \<Longrightarrow> zpath_ok (serv_path p c)"
proof -
  assume p: "zpath_ok p" and c: "segment_ok c"
  then obtain segs where "list_all segment_ok segs" "p = zjoin segs" unfolding zpath_ok_def by blast
  then show ?thesis unfolding zpath_ok_def serv_path_eq using c by (intro exI [of _ "segs @ [c]"]) (simp add: zjoin_snoc)
qed

lemma status_text:
  assumes "st = STATUS_UP \<or> st = STATUS_DOWN \<or> st = STATUS_OFFLINE"
  shows "string_to_integer (integer_to_string st) old = (QCONF_OK, st)" "get_integer (integer_to_string st) old = (QCONF_OK, st)"
proof -
  have "string_to_integer (show_nat n) old = get_integer (show_nat n) old" for n by (simp add: string_to_integer_def get_integer_def)
  moreover have "show_nat 0 = ''0''" by (subst show_nat.simps) (simp add: digit_char_def, code_simp)
  then have "get_integer (show_nat 0) old = (QCONF_OK, 0)"
    by (simp add: get_integer_def strtol0_def Let_def is_space_def is_digit_of_def digit_val_def digits_value_def cstr_def NUL_def)
  moreover have "get_integer (show_nat 1) old = (QCONF_OK, 1)" "get_integer (show_nat 2) old = (QCONF_OK, 2)"
    using get_integer_show_nat [of 1 old] get_integer_show_nat [of 2 old] by simp_all
  ultimately show "string_to_integer (integer_to_string st) old = (QCONF_OK, st)" "get_integer (integer_to_string st) old = (QCONF_OK, st)"
    using assms by (auto simp: integer_to_string_def)
qed

lemma omap_insert_last:
  assumes "omap_ok (acc @ [(c, s)])"
  shows "omap_insert c s acc = acc @ [(c, s)]"
proof -
  have c: "c \<notin> fst ` set acc" "\<forall>p\<in>set acc. fst p \<le> c" using assms by (auto simp: omap_ok_def sorted_append)
  then have "\<forall>p\<in>set acc. \<not> c \<le> fst p" by (metis image_eqI order.antisym)
  then have "insort_key fst (c, s) acc = acc @ [(c, s)]" by (induction acc) auto
  moreover have "omap_erase c acc = acc" unfolding omap_erase_def using c(1) by (auto simp: filter_id_conv)
  ultimately show ?thesis using c(1) by (simp add: omap_insert_def omap_update_def map_of_eq_None_iff)
qed

lemma service_status_decided:
  assumes laws: "zk_laws e" "zk_decides e" and "zpath_ok path"
    and "omap_ok (acc @ ss)" "\<forall>s\<in>set ss. segment_ok (fst s) \<and> check_service (fst s) (snd s) \<and> tree z (serv_path path (fst s)) = Some (integer_to_string (snd s))"
  shows "\<exists>z'. service_status_loop e path (map fst ss) acc z = (QCONF_OK, acc @ ss, z')"
  using assms(4,5)
proof (induction ss arbitrary: acc z)
  case (Cons s ss)
  obtain c st where s: "s = (c, st)" by fastforce
  have "zpath_ok (serv_path path c)" using Cons.prems(2) s zpath_child [OF assms(3)] by simp
  then obtain z1 where g: "zk_get e (serv_path path c) [] z = (QCONF_OK, integer_to_string st, z1)" "tree z1 = tree z"
    using zk_get_decided [OF laws, of "serv_path path c" "[]" z] Cons.prems(2) s by auto
  have st: "st = STATUS_UP \<or> st = STATUS_DOWN \<or> st = STATUS_OFFLINE" using Cons.prems(2) s by (simp add: check_service_def)
  then have "zk_service_status_get e (serv_path path c) 0 z = (QCONF_OK, st, z1)" using g(1) status_text(1) [OF st] by (auto simp: zk_service_status_get_def)
  moreover have "omap_insert c st acc = acc @ [s]" using Cons.prems(1) omap_insert_last [of acc c st] s by (simp add: omap_ok_def sorted_append)
  moreover obtain z' where "service_status_loop e path (map fst ss) (acc @ [s]) z1 = (QCONF_OK, (acc @ [s]) @ ss, z')"
    using Cons.IH [of "acc @ [s]" z1] Cons.prems g(2) by auto
  ultimately show ?case using s by simp
qed simp

lemma zk_list_decided:
  assumes laws: "zk_laws e" "zk_decides e" and "checked_path node z = Some p" "zpath_ok p" "finite (child_names (tree z) p)"
  shows "\<exists>z'. zk_list e node old z = (if tree z p = None then (QCONF_ERR_ZOO_NOT_EXIST, [], z') else (QCONF_OK, sorted_list_of_set (child_names (tree z) p), z'))
    \<and> tree z' = tree z \<and> zh z' = zh z"
proof -
  obtain ret cs z' where l: "zk_list e node old z = (ret, cs, z')" by (metis prod_cases3)
  note le = zk_list_effect [OF zk_lawsD(6) [OF laws(1)] assms(3) NUL_zpath [OF assms(4)] l]
  have "fst (sv_children e (calls z) (tree z) p) \<in> {ZOK, ZNONODE}" using laws(2) assms(4,5) unfolding zk_decides_def by blast
  then have r: "ret = QCONF_OK \<or> ret = QCONF_ERR_ZOO_NOT_EXIST"
    using l assms(3) read_decided [of "\<lambda>r. access_verdict (fst r)" "\<lambda>n T. sv_children e n T p" z]
    by (auto simp: zk_list_def cstr_zpath [OF assms(4)] access_verdict_def)
  show ?thesis
  proof (cases "tree z p = None")
    case True
    then have "ret = QCONF_ERR_ZOO_NOT_EXIST" using r le(3) by blast
    then show ?thesis using True l le(1,2,5) by auto
  next
    case False
    then have ok: "ret = QCONF_OK" using r le(4) by auto
    have "cs = sorted_list_of_set (child_names (tree z) p)"
      using le(3) [OF ok] by (metis sorted_list_of_set.idem_if_sorted_distinct)
    then show ?thesis using False l ok le(1,2) by auto
  qed
qed

lemma with_service_decided:
  assumes laws: "zk_laws e" "zk_decides e" and "checked_path node z = Some path" "tree z (get_monitor_node path) \<noteq> None"
  shows "\<exists>z'. check_node_type e path QCONF_NODE_TYPE_NODE z = (QCONF_OK, QCONF_NODE_TYPE_SERVICE, z') \<and> with_service e node z = (Inr path, z')
    \<and> tree z' = tree z \<and> zh z' = zh z"
  using zk_exist_decided [OF laws zpath_monitor, of path z] assms(3,4) by (auto simp: with_service_def check_node_type_def)

lemma monitor_create_total:
  assumes "zk_laws e" "zk_decides e"
  shows "\<exists>z'. zk_monitor_node_create e path z = Some (QCONF_OK, z')"
  using zk_create_total [OF assms zpath_monitor, of path path z] by (auto simp: zk_monitor_node_create_def)

lemma set_or_create_total:
  assumes "zk_laws e" "zk_decides e" "zpath_ok p"
  shows "\<exists>z'. set_or_create e p v z = Some (QCONF_OK, z')"
proof (cases "tree z p = None")
  case True
  then obtain z1 where "zk_modify e p v z = (QCONF_ERR_ZOO_NOT_EXIST, z1)" "tree z1 p = None" using zk_modify_decided [OF assms, of v z] by auto
  then show ?thesis using zk_create_total [OF assms, of v z1] by (auto simp: set_or_create_def)
next
  case False
  then show ?thesis using zk_modify_decided [OF assms, of v z] by (auto simp: set_or_create_def)
qed

lemma add_loop_total:
  assumes laws: "zk_laws e" "zk_decides e" and "apart path" "zpath_ok path"
    and "checked_path path z = Some path" "\<forall>s\<in>set ss. segment_ok (fst s) \<and> check_service (fst s) (snd s)"
  shows "\<exists>z'. add_loop e path ss z = Some (QCONF_OK, z')"
  using assms(5,6)
proof (induction ss arbitrary: z)
  case (Cons s ss)
  obtain z1 where m: "zk_monitor_node_create e path z = Some (QCONF_OK, z1)" using monitor_create_total [OF laws] by blast
  have seg: "segment_ok (fst s)" using Cons.prems(2) by simp
  obtain z2 where "set_or_create e (serv_path path (fst s)) (integer_to_string (snd s)) z1 = Some (QCONF_OK, z2)"
    using set_or_create_total [OF laws zpath_child [OF assms(4) seg]] by blast
  then have a: "zk_service_add e path (fst s) (snd s) z = Some (QCONF_OK, z2)" using m Cons.prems by (simp add: zk_service_add_def)
  have "zh z2 = zh z" using service_add_effect [OF a laws(1) assms(3) Cons.prems(1) segment_no_slash [OF seg] NUL_segment [OF seg]] by blast
  then have "checked_path path z2 = Some path" using checked_path_again(2) [OF Cons.prems(1)] assms(3) by (simp add: apart_def)
  then obtain z' where "add_loop e path ss z2 = Some (QCONF_OK, z')" using Cons.IH Cons.prems(2) by (metis list.set_intros(2))
  then show ?case using a by simp
qed simp

lemma delete_loop_total:
  assumes laws: "zk_laws e" "zk_decides e" and "\<forall>d\<in>set ds. zpath_ok (serv_path path d) \<and> (\<forall>r. tree z (serv_path path d @ ''/'' @ r) = None)"
  shows "\<exists>z'. delete_loop e path ds z = (QCONF_OK, z')"
  using assms(3)
proof (induction ds arbitrary: z)
  case (Cons d ds)
  obtain z1 where z1: "zk_delete e (serv_path path d) z = (QCONF_OK, z1)" "tree z1 = (tree z)(serv_path path d := None)"
    using zk_delete_decided [OF laws, of "serv_path path d" z] Cons.prems by auto
  have "\<forall>d\<in>set ds. zpath_ok (serv_path path d) \<and> (\<forall>r. tree z1 (serv_path path d @ ''/'' @ r) = None)"
    using Cons.prems z1(2) by simp
  then obtain z' where "delete_loop e path ds z1 = (QCONF_OK, z')" using Cons.IH [of z1] by blast
  then show ?case using z1(1) by simp
qed simp

text \<open>A node whose services can be set: what it has is nothing but services.\<close>

definition service_node :: "string \<Rightarrow> ztree \<Rightarrow> bool" where
  "service_node path T \<longleftrightarrow> zpath_ok path \<and> \<not> prefix (path @ ''/'') (get_monitor_node path)
     \<and> finite (child_names T path) \<and> (\<forall>c\<in>child_names T path. segment_ok c \<and> (\<forall>r. T (serv_path path c @ ''/'' @ r) = None))
     \<and> (T path = None \<longrightarrow> child_names T path = {})"

definition services_ok :: "(string, int) omap \<Rightarrow> bool" where
  "services_ok servs \<longleftrightarrow> servs \<noteq> [] \<and> omap_ok servs \<and> (\<forall>s\<in>set servs. segment_ok (fst s) \<and> check_service (fst s) (snd s))"

lemma services_okD:
  assumes "services_ok servs" "service_node path T"
  shows "apart path" "NUL \<notin> set path" "\<forall>s\<in>set servs. CHR ''/'' \<notin> set (fst s) \<and> NUL \<notin> set (fst s)" "distinct (map fst servs)"
    "\<forall>c\<in>child_names T path. NUL \<notin> set c" "T path = None \<longrightarrow> child_names T path = {}"
proof -
  have zp: "zpath_ok path" and pr: "\<not> prefix (path @ ''/'') (get_monitor_node path)"
    and kids: "\<forall>c\<in>child_names T path. segment_ok c" and "T path = None \<longrightarrow> child_names T path = {}"
    using assms(2) unfolding service_node_def by blast+
  then show "T path = None \<longrightarrow> child_names T path = {}" "NUL \<notin> set path" using NUL_zpath by blast+
  moreover have "path \<noteq> []" using zp by (auto simp: zpath_ok_def zjoin_def neq_Nil_conv)
  ultimately show "apart path" using pr by (simp add: apart_def)
  show "\<forall>c\<in>child_names T path. NUL \<notin> set c" using kids NUL_segment by blast
  have "\<forall>s\<in>set servs. segment_ok (fst s)" "omap_ok servs" using assms(1) by (simp_all add: services_ok_def)
  then show "\<forall>s\<in>set servs. CHR ''/'' \<notin> set (fst s) \<and> NUL \<notin> set (fst s)" "distinct (map fst servs)"
    using segment_no_slash NUL_segment by (simp_all add: omap_ok_def)
qed

lemma services_set_total:
  assumes laws: "zk_laws e" "zk_decides e" and cp: "checked_path node z = Some path" and ok: "services_ok servs" "service_node path (tree z)"
  shows "\<exists>z'. zk_services_set e node servs z = Some (QCONF_OK, z')"
proof -
  note D = services_okD [OF ok]
  have zp: "zpath_ok path" using ok(2) by (simp add: service_node_def)
  obtain z1 where m: "zk_monitor_node_create e path z = Some (QCONF_OK, z1)" using monitor_create_total [OF laws] by blast
  note me = monitor_create_effect [OF m laws(1) D(1)]
  have kids: "child_names (tree z1) path = child_names (tree z) path" using me by (auto simp: child_names_serv)
  have c1: "checked_path path z1 = Some path" using checked_path_again [OF cp D(2)] me by blast
  have "finite (child_names (tree z1) path)" using ok(2) unfolding kids service_node_def by blast
  from zk_list_decided [OF laws c1 zp this, of "[]"]
  obtain z2 where l: "zk_list e path [] z1 = (if tree z1 path = None then (QCONF_ERR_ZOO_NOT_EXIST, [], z2) else (QCONF_OK, sorted_list_of_set (child_names (tree z1) path), z2))"
    and z2: "tree z2 = tree z1" by blast
  then obtain r old z3 where l': "zk_list e path [] z1 = (r, old, z2)" 
    and cr: "(if r = QCONF_ERR_ZOO_NOT_EXIST then zk_create e path [] z2 else Some (r, z2)) = Some (QCONF_OK, z3)"
    using zk_create_total [OF laws zp, of "[]" z2] by (cases "tree z1 path = None") auto
  have "tree z1 path = None \<longrightarrow> child_names (tree z1) path = {}" using D(6) me unfolding kids by (metis domIff map_le_def)
  from service_node_effect [OF l' cr laws(1) c1 D(2) this]
  have se: "zh z3 = zh z1" "set old = child_names (tree z) path" "\<forall>c. tree z3 (serv_path path c) = tree z (serv_path path c)"
    using me kids by simp_all
  have c3: "checked_path path z3 = Some path" using checked_path_again [OF cp D(2)] me se(1) by simp
  obtain z4 where ad: "add_loop e path servs z3 = Some (QCONF_OK, z4)"
    using add_loop_total [OF laws D(1) zp c3] ok(1) unfolding services_ok_def by blast
  note ae = add_loop_effect [OF ad laws(1) D(1) c3 D(3,4)]
  have "tree z4 (serv_path path d @ ''/'' @ r) = None" if "d \<in> set old" for d r
  proof -
    have "map_of servs (d @ ''/'' @ r) = None" using D(3) by (force simp: map_of_eq_None_iff)
    then have "tree z4 (serv_path path (d @ ''/'' @ r)) = tree z (serv_path path (d @ ''/'' @ r))" using ae se(3) by simp
    moreover have "tree z (serv_path path d @ ''/'' @ r) = None" using that ok(2) se(2) unfolding service_node_def by blast
    ultimately show ?thesis by (simp add: serv_path_def)
  qed
  moreover have "zpath_ok (serv_path path d)" if "d \<in> set old" for d
    using that ok(2) se(2) zpath_child [OF zp] unfolding service_node_def by blast
  ultimately obtain z' where de: "delete_loop e path (filter (\<lambda>s. s \<notin> fst ` set servs) old) z4 = (QCONF_OK, z')"
    using delete_loop_total [OF laws, of "filter (\<lambda>s. s \<notin> fst ` set servs) old" path z4] by auto
  have "servs \<noteq> []" "\<forall>s\<in>set servs. check_service (fst s) (snd s)" using ok(1) by (auto simp: services_ok_def)
  then have "zk_services_set e node servs z = Some (QCONF_OK, z')"
    using cp m l' cr ad de by (simp add: zk_services_set_def)
  then show ?thesis by blast
qed

lemma services_children:
  assumes ch: "\<forall>c. c \<noteq> [] \<longrightarrow> CHR ''/'' \<notin> set c \<longrightarrow> T (serv_path path c) = map_option integer_to_string (map_of servs c)"
    and "\<forall>s\<in>set servs. CHR ''/'' \<notin> set (fst s) \<and> NUL \<notin> set (fst s)" "\<forall>s\<in>set servs. check_service (fst s) (snd s)"
  shows "child_names T path = fst ` set servs"
proof (rule set_eqI)
  fix c
  have "c \<noteq> [] \<and> CHR ''/'' \<notin> set c" if "c \<in> fst ` set servs"
  proof -
    from that obtain s where "s \<in> set servs" "c = fst s" by blast
    then show ?thesis using assms(2,3) unfolding check_service_def by simp
  qed
  moreover have "map_of servs c \<noteq> None \<longleftrightarrow> c \<in> fst ` set servs" by (simp add: map_of_eq_None_iff)
  moreover have "c \<noteq> [] \<and> CHR ''/'' \<notin> set c \<Longrightarrow> T (serv_path path c) \<noteq> None \<longleftrightarrow> map_of servs c \<noteq> None" using ch by simp
  ultimately show "c \<in> child_names T path \<longleftrightarrow> c \<in> fst ` set servs" unfolding child_names_serv by blast
qed

lemma services_set_state:
  assumes "zk_services_set e node servs z = Some (QCONF_OK, z')" "zk_laws e" "checked_path node z = Some path" "services_ok servs" "service_node path (tree z)"
  shows "zh z' = zh z" "tree z' (get_monitor_node path) \<noteq> None" "tree z' path \<noteq> None" "child_names (tree z') path = fst ` set servs"
    "\<forall>s\<in>set servs. segment_ok (fst s) \<and> check_service (fst s) (snd s) \<and> tree z' (serv_path path (fst s)) = Some (integer_to_string (snd s))"
proof -
  note D = services_okD [OF assms(4,5)]
  from services_set_effect [OF assms(1-3) D(1,3-6)]
  have ef: "zh z' = zh z" "\<forall>s\<in>set servs. check_service (fst s) (snd s)" "tree z' (get_monitor_node path) \<noteq> None" "tree z' path \<noteq> None"
    and ch: "\<forall>c. c \<noteq> [] \<longrightarrow> CHR ''/'' \<notin> set c \<longrightarrow> tree z' (serv_path path c) = map_option integer_to_string (map_of servs c)" by blast+
  then show "zh z' = zh z" "tree z' (get_monitor_node path) \<noteq> None" "tree z' path \<noteq> None" by simp_all
  show "child_names (tree z') path = fst ` set servs" by (rule services_children [OF ch D(3) ef(2)])
  show "\<forall>s\<in>set servs. segment_ok (fst s) \<and> check_service (fst s) (snd s) \<and> tree z' (serv_path path (fst s)) = Some (integer_to_string (snd s))"
  proof
    fix s assume s: "s \<in> set servs"
    then have "fst s \<noteq> []" "CHR ''/'' \<notin> set (fst s)" "map_of servs (fst s) = Some (snd s)" "segment_ok (fst s)"
      using ef(2) D(3,4) assms(4) unfolding check_service_def services_ok_def by simp_all
    then show "segment_ok (fst s) \<and> check_service (fst s) (snd s) \<and> tree z' (serv_path path (fst s)) = Some (integer_to_string (snd s))"
      using ch ef(2) s by simp
  qed
qed

text \<open>
  C16: Services round trip: on a server that decides every call, setting the services of a node succeeds,
  and reading them back with their status gives exactly the services that were set; services that the
  node had before are gone.
\<close>

theorem services_set_get:
  assumes "zk_laws e" and "zk_decides e" and "checked_path node z = Some path" and "services_ok servs" and "service_node path (tree z)"
  shows "\<exists>z' z''. zk_services_set e node servs z = Some (QCONF_OK, z')
    \<and> zk_services_get_with_status e node [] z' = (QCONF_OK, servs, z'')"
proof -
  note D = services_okD [OF assms(4,5)]
  have zp: "zpath_ok path" using assms(5) by (simp add: service_node_def)
  obtain z' where s: "zk_services_set e node servs z = Some (QCONF_OK, z')" using services_set_total [OF assms] by blast
  note st = services_set_state [OF s assms(1,3-5)]
  have cp: "checked_path node z0 = Some path" "checked_path path z0 = Some path" if "zh z0 = zh z'" for z0
    using checked_path_again [OF assms(3) D(2)] that st(1) by simp_all
  obtain z1 where t1: "check_node_type e path QCONF_NODE_TYPE_NODE z' = (QCONF_OK, QCONF_NODE_TYPE_SERVICE, z1)" "tree z1 = tree z'" "zh z1 = zh z'"
    using with_service_decided [OF assms(1,2) cp(1) st(2)] by blast
  obtain z2 where t2: "with_service e path z1 = (Inr path, z2)" "tree z2 = tree z'" "zh z2 = zh z'"
    using with_service_decided [OF assms(1,2) cp(2) [OF t1(3)]] st(2) t1(2,3) by auto
  have "sorted_list_of_set (fst ` set servs) = map fst servs"
    using assms(4) D(4) unfolding services_ok_def omap_ok_def by (metis set_map sorted_list_of_set.idem_if_sorted_distinct)
  then obtain z3 where t3: "zk_list e path [] z2 = (QCONF_OK, map fst servs, z3)" "tree z3 = tree z'"
    using zk_list_decided [OF assms(1,2) cp(2) [OF t2(3)] zp, of "[]"] t2(2) st(3,4) by auto
  obtain z4 where "service_status_loop e path (map fst servs) [] z3 = (QCONF_OK, [] @ servs, z4)"
    using service_status_decided [OF assms(1,2) zp, of "[]" servs z3] assms(4) st(5) t3(2) by (auto simp: services_ok_def)
  then have "zk_services_get_with_status e node [] z' = (QCONF_OK, servs, z4)"
    using cp(1) t1(1) t2(1) t3(1) by (simp add: zk_services_get_with_status_def zk_services_get_def)
  then show ?thesis using s by blast
qed

section \<open>The services that the agent sees\<close>

lemma agent_status_loop:
  assumes "zk_node_buf en" "h \<noteq> None" "zpath_ok path"
    and "\<forall>m p. zoo_get en m h p = (case T p of None \<Rightarrow> (ZNONODE, None) | Some d \<Rightarrow> (ZOK, Some d))"
    and "\<forall>s\<in>set ss. segment_ok (fst s) \<and> check_service (fst s) (snd s) \<and> T (serv_path path (fst s)) = Some (integer_to_string (snd s))"
  shows "\<exists>n'. status_loop en n h path (map (\<lambda>s. Some (fst s)) ss) acc = (QCONF_OK, acc @ map snd ss, n')"
  using assms(5)
proof (induction ss arbitrary: acc n)
  case (Cons s ss)
  have seg: "segment_ok (fst s)" and st: "snd s = STATUS_UP \<or> snd s = STATUS_DOWN \<or> snd s = STATUS_OFFLINE"
    and val: "T (serv_path path (fst s)) = Some (integer_to_string (snd s))"
    using Cons.prems by (simp_all add: check_service_def)
  have "cstr (serv_path path (fst s)) = serv_path path (fst s)" by (rule cstr_zpath [OF zpath_child [OF assms(3) seg]])
  then have "zk_get_node en n h (serv_path path (fst s)) [] = (QCONF_OK, integer_to_string (snd s), n + 1)"
    using assms(1,4) val by (intro get_node_at_once) simp_all
  then have "zk_get_service_status en n h (serv_path path (fst s)) 0 = (QCONF_OK, snd s, n + 1)"
    using assms(2) st status_text(2) [OF st] by (auto simp: zk_get_service_status_def serv_path_def)
  moreover have "path @ ''/'' @ sv_str (Some (fst s)) = serv_path path (fst s)"
    using NUL_segment [OF seg] by (simp add: serv_path_eq)
  moreover obtain n' where "status_loop en (n + 1) h path (map (\<lambda>s. Some (fst s)) ss) (acc @ [snd s]) = (QCONF_OK, (acc @ [snd s]) @ map snd ss, n')"
    using Cons.IH [of "n + 1" "acc @ [snd s]"] Cons.prems by auto
  ultimately show ?case by simp
qed simp

text \<open>
  C4: What an operator sets is what the agents see: after services were set, an agent of any host that
  reads the node gets exactly the services in the order of their names, each with the status it was set
  to, in whatever order the server lists the children.
\<close>

theorem services_reach_agent:
  assumes "zk_services_set e node servs z = Some (QCONF_OK, z')" and "zk_laws e" and "checked_path node z = Some path"
    and "services_ok servs" and "service_node path (tree z)" and "zk_node_buf en" and "h \<noteq> None"
    and "\<forall>m p. zoo_get en m h p = (case tree z' p of None \<Rightarrow> (ZNONODE, None) | Some d \<Rightarrow> (ZOK, Some d))"
    and "\<forall>m. \<exists>names. zoo_get_children en m h path = (ZOK, map Some names) \<and> distinct names \<and> set names = child_names (tree z') path"
  shows "\<exists>n'. zk_get_chdnodes_with_status en n h path [] = (QCONF_OK, map (\<lambda>s. Some (fst s)) servs, map snd servs, n')"
proof -
  note D = services_okD [OF assms(4,5)] and st = services_set_state [OF assms(1-5)]
  have zp: "zpath_ok path" using assms(5) by (simp add: service_node_def)
  obtain names where nm: "zoo_get_children en n h path = (ZOK, map Some names)" "distinct names" "set names = fst ` set servs"
    using assms(9) st(4) by metis
  have "mset (map fst servs) = mset names" using nm(2,3) D(4) by (metis set_eq_iff_mset_eq_distinct set_map)
  then have "mset (map Some (map fst servs)) = mset (map Some names)" by (metis mset_map)
  moreover have "\<forall>p\<in>set (map Some (map fst servs)). \<exists>s. p = Some s \<and> NUL \<notin> set s" using D(3) by auto
  ultimately have "sort_nodes (map Some names) = sort_nodes (map Some (map fst servs))" by (metis sort_nodes_perm)
  moreover have "sort_nodes (map Some (map fst servs)) = map Some (map fst servs)" 
    unfolding sort_nodes_def
  proof (rule properties_for_sort_key)
    have "map sv_str (map Some (map fst servs)) = map fst servs" using D(3) by simp
    then show "sorted (map sv_str (map Some (map fst servs)))" using assms(4) by (simp only: services_ok_def omap_ok_def)
  qed simp_all
  ultimately have srt: "sort_nodes (map Some names) = map (\<lambda>s. Some (fst s)) servs" by (simp add: comp_def)
  have "zk_retry (\<lambda>i. zoo_get_children en i h path) (\<lambda>r. read_verdict (fst r)) n 0 = (QCONF_OK, Some (ZOK, map Some names), n + 1)"
    using nm(1) by (simp add: zk_retry.simps [of _ _ _ 0] read_verdict_def)
  then have "zk_get_chdnodes en n h path [] = (QCONF_OK, map (\<lambda>s. Some (fst s)) servs, n + 1)"
    using assms(7) D(1) srt cstr_zpath [OF zp] by (simp add: zk_get_chdnodes_def apart_def)
  moreover obtain n' where "status_loop en (n + 1) h path (map (\<lambda>s. Some (fst s)) servs) [] = (QCONF_OK, [] @ map snd servs, n')"
    using agent_status_loop [OF assms(6,7) zp assms(8) st(5)] by blast
  ultimately show ?thesis using assms(7) D(1) by (simp add: zk_get_chdnodes_with_status_def apart_def)
qed

section \<open>Paths\<close>

lemma cstr_strip: "set (cstr (strip_delims s)) \<subseteq> set (cstr s)"
proof -
  let ?d = "\<lambda>c. c = delim" and ?b = "dropWhile (\<lambda>c. c = delim) s"
  have "c \<noteq> NUL" if "c \<in> set (takeWhile ?d s)" for c using set_takeWhileD [OF that] by (simp add: delim_def NUL_def)
  then have "takeWhile (\<lambda>c. c \<noteq> NUL) (takeWhile ?d s @ ?b) = takeWhile ?d s @ takeWhile (\<lambda>c. c \<noteq> NUL) ?b" by (rule takeWhile_append2)
  then have s: "set (cstr ?b) \<subseteq> set (cstr s)" unfolding cstr_def by (metis Un_upper2 set_append takeWhile_dropWhile_id)
  have b: "?b = strip_delims s @ rev (takeWhile ?d (rev ?b))"
    unfolding strip_delims_def by (metis rev_append rev_rev_ident takeWhile_dropWhile_id)
  have "set (takeWhile P xs) \<subseteq> set (takeWhile P (xs @ ys))" for P and xs ys :: string by (induction xs) auto
  then have "set (cstr (strip_delims s)) \<subseteq> set (cstr ?b)" unfolding cstr_def using b by metis
  then show ?thesis using s by (rule subset_trans)
qed

text \<open>
  C40: The manager and the driver read a path alike: when the manager accepts the name of a node, a
  driver that is given the same name asks for the very node that the manager writes, and the form
  that the manager writes is a fixed point of both.
\<close>

theorem manager_driver_same_path:
  assumes "zk_path name old = (QCONF_OK, path)"
  shows "get_node_path False name buf = (QCONF_OK, path) \<and> get_node_path False path buf = (QCONF_OK, path)
    \<and> zk_path path old = (QCONF_OK, path)"
proof -
  have n: "path_normalize name = (QCONF_OK, path)" and ch: "\<forall>c\<in>set (cstr name). path_char c"
    using assms by (auto simp: zk_path_def split: if_splits)
  have same: "get_node_path False x buf = (QCONF_OK, path)" if "path_normalize x = (QCONF_OK, path)" for x
    using that by (auto simp: get_node_path_strip path_normalize_strip delim_def split: if_splits)
  have p: "path = CHR ''/'' # strip_delims name" using n by (auto simp: path_normalize_strip split: if_splits)
  then have "cstr path \<noteq> [] \<and> (\<forall>c\<in>set (cstr path). path_char c)" using ch cstr_strip [of name] by (auto simp: cstr_def NUL_def path_char_def)
  then show ?thesis using same [OF n] same [OF path_normalize_idem [OF n]] path_normalize_idem [OF n] p by (simp add: zk_path_def)
qed

text \<open>
  C39: Creating a node ends: whatever is missing on the way to a well-formed path, the loop that creates the
  node and its ancestors returns on a server that decides every call; the node then exists, with the
  given value if it is new, and nothing but missing ancestors is created beside it.
\<close>

theorem zk_create_ends:
  assumes "zk_laws e" and "zk_decides e" and "zpath_ok p"
  shows "\<exists>z'. zk_create e p v z = Some (if tree z p = None then QCONF_OK else QCONF_ERR_ZOO_ALREADY_EXIST, z')
    \<and> zh z' = zh z \<and> tree z' p = (if tree z p = None then Some v else tree z p) \<and> grown p (tree z) (tree z')"
  using assms by (rule zk_create_total)

section \<open>Examples\<close>

definition one_service :: QConfZK where
  "one_service = \<lparr>zh = Some 1, tree = [''/s'' \<mapsto> [], ''/s/x'' \<mapsto> ''0''], calls = 0\<rparr>"

abbreviation (input) two_services :: "(string, int) omap" where
  "two_services \<equiv> [(''a'', STATUS_UP), (''b'', STATUS_OFFLINE)]"

lemma one_path: "zpath_ok ''/s''"
  unfolding zpath_ok_def by (rule exI [of _ "[''s'']"]) (simp add: zjoin_def segment_ok_def less_eq_char_def)

lemma one_checked: "checked_path ''/s/'' one_service = Some ''/s''"
  by (simp add: checked_path_def one_service_def zk_path_def path_normalize_def path_char_def less_eq_char_def cstr_def NUL_def)

lemma two_ok: "services_ok two_services"
  by (simp add: services_ok_def omap_ok_def segment_ok_def check_service_def less_eq_char_def)

lemma one_service_node: "service_node ''/s'' (tree one_service)"
proof -
  have "child_names (tree one_service) ''/s'' = {''x''}"
    by (auto simp: child_names_def one_service_def split: if_splits)
  moreover have "segment_ok ''x''" by (simp add: segment_ok_def less_eq_char_def)
  moreover have "\<not> prefix (''/s'' @ ''/'') (get_monitor_node ''/s'')" by (simp add: get_monitor_node_def)
  ultimately show ?thesis using one_path by (simp add: service_node_def one_service_def serv_path_def)
qed

theorem services_set_get_witness:
  "\<exists>z' z''. zk_services_set mem_server ''/s/'' two_services one_service = Some (QCONF_OK, z')
    \<and> zk_services_get_with_status mem_server ''/s/'' [] z' = (QCONF_OK, two_services, z'')"
  by (rule services_set_get [OF mem_server_laws mem_server_decides one_checked two_ok one_service_node])

theorem services_reach_agent_witness:
  "\<exists>z' n'. zk_services_set mem_server ''/s/'' two_services one_service = Some (QCONF_OK, z')
    \<and> zk_get_chdnodes_with_status (zk_static (tree z') [''/s'' \<mapsto> [''b'', ''a'']]) 0 (Some 1) ''/s'' []
      = (QCONF_OK, [Some ''a'', Some ''b''], [STATUS_UP, STATUS_OFFLINE], n')"
proof -
  obtain z' where s: "zk_services_set mem_server ''/s/'' two_services one_service = Some (QCONF_OK, z')"
    using services_set_total [OF mem_server_laws mem_server_decides one_checked two_ok one_service_node] by blast
  let ?en = "zk_static (tree z') [''/s'' \<mapsto> [''b'', ''a'']]"
  have "child_names (tree z') ''/s'' = {''a'', ''b''}"
    using services_set_state(4) [OF s mem_server_laws one_checked two_ok one_service_node] by simp
  then have "\<forall>m. \<exists>names. zoo_get_children ?en m (Some 1) ''/s'' = (ZOK, map Some names) \<and> distinct names \<and> set names = child_names (tree z') ''/s''"
    by (intro allI exI [of _ "[''b'', ''a'']"]) (auto simp: zk_static_def)
  from services_reach_agent [OF s mem_server_laws one_checked two_ok one_service_node _ _ _ this, of 0]
  show ?thesis using s by (simp add: zk_static_def)
qed

theorem manager_driver_same_path_witness:
  "zk_path ''//demo/conf/'' [] = (QCONF_OK, ''/demo/conf'') \<and> get_node_path False ''//demo/conf/'' [] = (QCONF_OK, ''/demo/conf'')"
proof -
  have "zk_path ''//demo/conf/'' [] = (QCONF_OK, ''/demo/conf'')"
    by (simp add: zk_path_def path_normalize_def path_char_def less_eq_char_def cstr_def NUL_def)
  then show ?thesis using manager_driver_same_path [of "''//demo/conf/''" "[]" "''/demo/conf''" "[]"] by simp
qed

theorem zk_create_ends_witness:
  "\<exists>z'. zk_create mem_server ''/s/y/z'' ''v'' one_service = Some (QCONF_OK, z') \<and> tree z' ''/s/y/z'' = Some ''v''"
proof -
  have "zpath_ok ''/s/y/z''"
    unfolding zpath_ok_def by (rule exI [of _ "[''s'', ''y'', ''z'']"]) (simp add: zjoin_def segment_ok_def less_eq_char_def)
  from zk_create_ends [OF mem_server_laws mem_server_decides this, of "''v''" one_service]
  show ?thesis by (auto simp: one_service_def)
qed

end
