(* ===== verification/QCmd.thy ===== *)
theory QCmd
  imports QWatcherThms QDriverThms
begin

text \<open>
  The command files of the agent: \<open>src/agent/qconf_cmd.cc\<close>.

  A console puts files into a directory and sends the agent a signal; the handler runs every line of
  every file as a command and removes the file.  The files are a map from paths to contents; whether
  a directory can be listed, a file be written or be removed are parameters.  The directory and each
  file are read at once.
\<close>

section \<open>State\<close>

text \<open>\<open>cs_open\<close> tells whether the database of the dump is open: \<open>_qconf_dbf\<close> is not NULL.\<close>

record cmd_env =
  ce_gdbm :: gdbm
  ce_dump_file :: string
  ce_cmd_dir :: string
  ce_result_dir :: string
  ce_list :: "string \<Rightarrow> string list option"
  ce_writable :: "string \<Rightarrow> bool"
  ce_unlink :: "string \<Rightarrow> bool"

record cmd_state =
  cs_agent :: agent
  cs_open :: bool
  cs_files :: "string \<rightharpoonup> string"

abbreviation (input) QCONF_ERR_CMD :: int where "QCONF_ERR_CMD \<equiv> 71"

definition qconf_init_cmd_env :: "(string \<Rightarrow> bool) \<Rightarrow> (string \<Rightarrow> bool) \<Rightarrow> string \<Rightarrow> int \<times> string \<times> string" where
  "qconf_init_cmd_env access mkdir qconf_dir =
     (let cmd_dir = qconf_dir @ ''/cmd''; result_dir = qconf_dir @ ''/result'' in
      (if \<not> access (cstr cmd_dir) \<and> \<not> mkdir (cstr cmd_dir) then QCONF_ERR_MKDIR
       else if \<not> access (cstr result_dir) \<and> \<not> mkdir (cstr result_dir) then QCONF_ERR_MKDIR
       else QCONF_OK, cmd_dir, result_dir))"

text \<open>\<open>endl\<close> ends the content with a newline; opening for output without appending empties the file.\<close>

definition qconf_write_file ::
  "(string \<Rightarrow> bool) \<Rightarrow> string \<Rightarrow> string \<Rightarrow> bool \<Rightarrow> (string \<rightharpoonup> string) \<Rightarrow> int \<times> (string \<rightharpoonup> string)" where
  "qconf_write_file writable file_str content app files =
     (let path = cstr file_str; before = (if app then (case files path of None \<Rightarrow> [] | Some c \<Rightarrow> c) else []) in
      if \<not> writable path then (QCONF_ERR_OPEN, files)
      else (QCONF_OK, files(path \<mapsto> before @ content @ [CHR 0x0A])))"

section \<open>Commands\<close>

definition operate_stop_listen :: "string \<Rightarrow> string \<Rightarrow> int \<times> string" where
  "operate_stop_listen host result = (QCONF_OK, result)"

definition operate_restart_listen :: "string \<Rightarrow> string \<Rightarrow> int \<times> string" where
  "operate_restart_listen host result = (QCONF_OK, result)"

definition operate_list_all :: "string \<Rightarrow> int \<times> string" where
  "operate_list_all result = (QCONF_OK, result)"

definition operate_clear_all :: "cmd_env \<Rightarrow> string \<Rightarrow> cmd_state \<Rightarrow> int \<times> string \<times> cmd_state" where
  "operate_clear_all ce result s =
     (let a1 = qconf_clear_shm_tbl (cs_agent s);
          db = snd (qconf_dump_clear (ce_gdbm ce) (ce_dump_file ce) (if cs_open s then Some (dump a1) else None))
      in (QCONF_OK, ''clear share memory success!'',
          s\<lparr>cs_agent := a1\<lparr>dump := (case db of None \<Rightarrow> Map.empty | Some d \<Rightarrow> d)\<rparr>, cs_open := db \<noteq> None\<rparr>))"

definition operate_list :: "string \<Rightarrow> string \<Rightarrow> string \<Rightarrow> int \<times> string" where
  "operate_list host path result = (QCONF_OK, result)"

definition operate_delete :: "string \<Rightarrow> string \<Rightarrow> string \<Rightarrow> int \<times> string" where
  "operate_delete host path result = (QCONF_OK, result)"

definition operate_get :: "string \<Rightarrow> string \<Rightarrow> string \<Rightarrow> int \<times> string" where
  "operate_get host path result = (QCONF_OK, result)"

definition operate_create :: "string \<Rightarrow> string \<Rightarrow> string \<Rightarrow> string \<Rightarrow> int \<times> string" where
  "operate_create host path vals result = (QCONF_OK, result)"

definition operate_set :: "string \<Rightarrow> string \<Rightarrow> string \<Rightarrow> string \<Rightarrow> int \<times> string" where
  "operate_set host path vals result = (QCONF_OK, result)"

definition operate_serve_add :: "string \<Rightarrow> string \<Rightarrow> string \<Rightarrow> string \<Rightarrow> int \<times> string" where
  "operate_serve_add host path vals result = (QCONF_OK, result)"

definition operate_serve_delete :: "string \<Rightarrow> string \<Rightarrow> string \<Rightarrow> string \<Rightarrow> int \<times> string" where
  "operate_serve_delete host path vals result = (QCONF_OK, result)"

text \<open>The chain of comparisons on a non-empty list of parameters.\<close>

definition run_command :: "cmd_env \<Rightarrow> string list \<Rightarrow> cmd_state \<Rightarrow> int \<times> string \<times> cmd_state" where
  "run_command ce ps s =
     (let command = ps ! 0; n = length ps; bad = (QCONF_ERR_CMD, [], s); done = (\<lambda>(ret, result). (ret, result, s)) in
      if command = ''stop_listen'' then (if n \<noteq> 2 then bad else done (operate_stop_listen (ps ! 1) []))
      else if command = ''restart_listen'' then (if n \<noteq> 2 then bad else done (operate_restart_listen (ps ! 1) []))
      else if command = ''list-all'' then (if n \<noteq> 1 then bad else done (operate_list_all []))
      else if command = ''clear-all'' then (if n \<noteq> 1 then bad else operate_clear_all ce [] s)
      else if command = ''ls'' then (if n \<noteq> 3 then bad else done (operate_list (ps ! 1) (ps ! 2) []))
      else if command = ''delete'' then (if n \<noteq> 3 then bad else done (operate_delete (ps ! 1) (ps ! 2) []))
      else if command = ''get'' then (if n \<noteq> 3 then bad else done (operate_get (ps ! 1) (ps ! 2) []))
      else if command = ''create'' then (if n \<noteq> 4 then bad else done (operate_create (ps ! 1) (ps ! 2) (ps ! 3) []))
      else if command = ''set'' then (if n \<noteq> 4 then bad else done (operate_set (ps ! 1) (ps ! 2) (ps ! 3) []))
      else if command = ''serve_add'' then (if n \<noteq> 4 then bad else done (operate_serve_add (ps ! 1) (ps ! 2) (ps ! 3) []))
      else if command = ''serve_delete'' then (if n \<noteq> 4 then bad else done (operate_serve_delete (ps ! 1) (ps ! 2) (ps ! 3) []))
      else bad)"

definition command_parameters :: "string \<Rightarrow> string list" where
  "command_parameters line = filter (\<lambda>item. item \<noteq> []) (getline_pieces (CHR ''#'') line)"

definition single_command_process :: "cmd_env \<Rightarrow> string \<Rightarrow> string \<Rightarrow> cmd_state \<Rightarrow> int \<times> cmd_state" where
  "single_command_process ce line custom_id s =
     (if custom_id = [] \<or> line = [] then (QCONF_ERR_PARAM, s)
      else if command_parameters line = [] then (QCONF_ERR_CMD, s)
      else
        (case run_command ce (command_parameters line) s of (ret, result, s1) \<Rightarrow>
           if ret = QCONF_OK \<and> result \<noteq> [] then
             (case qconf_write_file (ce_writable ce) (ce_result_dir ce @ ''/'' @ ''result'' @ custom_id) result True (cs_files s1) of (ret, files) \<Rightarrow>
                (ret, s1\<lparr>cs_files := files\<rparr>))
           else (ret, s1)))"

fun command_lines :: "cmd_env \<Rightarrow> string \<Rightarrow> string list \<Rightarrow> cmd_state \<Rightarrow> cmd_state" where
  "command_lines ce pid [] s = s"
| "command_lines ce pid (l # ls) s = command_lines ce pid ls (snd (single_command_process ce l pid s))"

text \<open>
  The loop over the directory.  \<open>find_first_of\<close> looks for any character of the prefix, so that a name
  may be shorter than the prefix; the constructor of \<open>console_pid\<close> then throws, which nothing catches:
  the result is \<open>None\<close>.
\<close>

fun command_files :: "cmd_env \<Rightarrow> string list \<Rightarrow> int \<Rightarrow> cmd_state \<Rightarrow> (int \<times> cmd_state) option" where
  "command_files ce [] file_count s = Some (file_count, s)"
| "command_files ce (f # fs) file_count s =
     (if f \<noteq> [] \<and> hd f \<in> set ''cmd'' then
        (let file_path = cstr (ce_cmd_dir ce @ ''/'' @ f) in
         case cs_files s file_path of
           None \<Rightarrow> command_files ce fs (file_count + 1) s
         | Some content \<Rightarrow>
             if length f < length ''cmd'' then None
             else
               (let s1 = command_lines ce (drop (length ''cmd'') f) (getline_pieces (CHR 0x0A) content) s
                in command_files ce fs (file_count + 1)
                     (if ce_unlink ce file_path then s1\<lparr>cs_files := (cs_files s1)(file_path := None)\<rparr> else s1)))
      else command_files ce fs file_count s)"

definition qconf_cmd_proc :: "cmd_env \<Rightarrow> cmd_state \<Rightarrow> (int \<times> cmd_state) option" where
  "qconf_cmd_proc ce s =
     (case ce_list ce (cstr (ce_cmd_dir ce)) of
        None \<Rightarrow> Some (QCONF_ERR_OPEN, s)
      | Some names \<Rightarrow> command_files ce names 0 s)"

section \<open>What a command can change\<close>

text \<open>A command leaves the agent alone or clears the table and the dump.\<close>

definition touched :: "agent \<Rightarrow> agent \<Rightarrow> bool" where
  "touched a a' \<longleftrightarrow> a' = a \<or> (\<exists>d. a' = (qconf_clear_shm_tbl a)\<lparr>dump := d\<rparr>)"

lemma clear_twice: "qhasharr_clear (qhasharr_clear t) = qhasharr_clear t"
  by (auto simp: qhasharr_clear_def)

lemma clear_shm_twice: "qconf_clear_shm_tbl ((qconf_clear_shm_tbl a)\<lparr>dump := d\<rparr>) = (qconf_clear_shm_tbl a)\<lparr>dump := d\<rparr>"
  by (simp add: qconf_clear_shm_tbl_def hash_tbl_clear_def clear_twice split: option.split)

lemma touched_refl [simp]: "touched a a"
  by (simp add: touched_def)

lemma touched_trans:
  assumes "touched a b" "touched b c"
  shows "touched a c"
proof -
  have two: "(qconf_clear_shm_tbl ((qconf_clear_shm_tbl a)\<lparr>dump := d\<rparr>))\<lparr>dump := d'\<rparr> = (qconf_clear_shm_tbl a)\<lparr>dump := d'\<rparr>" for d d'
    by (simp add: clear_shm_twice)
  show ?thesis using assms unfolding touched_def by (metis two)
qed

lemma run_command_touched: "run_command ce ps s = (ret, result, s') \<Longrightarrow> touched (cs_agent s) (cs_agent s')"
  unfolding run_command_def Let_def
  by (auto simp: operate_clear_all_def Let_def touched_def operate_stop_listen_def operate_restart_listen_def operate_list_all_def
      operate_list_def operate_delete_def operate_get_def operate_create_def operate_set_def operate_serve_add_def operate_serve_delete_def
      split: if_splits)

lemma single_command_touched: "touched (cs_agent s) (cs_agent (snd (single_command_process ce line pid s)))"
  by (auto simp: single_command_process_def dest: run_command_touched split: prod.splits)

lemma command_lines_touched: "touched (cs_agent s) (cs_agent (command_lines ce pid ls s))"
  by (induction ls arbitrary: s) (auto intro: touched_trans single_command_touched)

lemma command_files_touched:
  "command_files ce fs n s = Some (m, s') \<Longrightarrow> touched (cs_agent s) (cs_agent s')"
proof (induction fs arbitrary: n s)
  case (Cons f fs)
  let ?p = "cstr (ce_cmd_dir ce @ ''/'' @ f)"
  show ?case
  proof (cases "f \<noteq> [] \<and> hd f \<in> set ''cmd'' \<and> cs_files s ?p \<noteq> None")
    case True
    then obtain content where c: "cs_files s ?p = Some content" by blast
    let ?s1 = "command_lines ce (drop (length ''cmd'') f) (getline_pieces (CHR 0x0A) content) s"
    let ?s2 = "if ce_unlink ce ?p then ?s1\<lparr>cs_files := (cs_files ?s1)(?p := None)\<rparr> else ?s1"
    have "command_files ce fs (n + 1) ?s2 = Some (m, s')"
      using Cons.prems True c by (auto simp: Let_def split: if_splits)
    then have "touched (cs_agent ?s2) (cs_agent s')" by (rule Cons.IH)
    moreover have "cs_agent ?s2 = cs_agent ?s1" by simp
    ultimately show ?thesis using command_lines_touched touched_trans by metis
  next
    case False
    then show ?thesis using Cons.prems Cons.IH by (auto simp: Let_def split: if_splits)
  qed
qed simp

lemma cmd_proc_touched: "qconf_cmd_proc ce s = Some (n, s') \<Longrightarrow> touched (cs_agent s) (cs_agent s')"
  by (auto simp: qconf_cmd_proc_def intro: command_files_touched split: option.splits)

text \<open>
  The commands of a console are harmless to the work of the agent: whatever files and lines the
  directory contains, a run that returns leaves every queue, set, connection and gray node as it was,
  and the table and the dump either as they were or cleared; the invariants of the queues and of the
  table are kept.
\<close>

lemma commands_only_clear:
  assumes "qconf_cmd_proc ce s = Some (n, s')" and "queues_ok (cs_agent s)"
    and "shm_tbl (cs_agent s) = Some t" and "tbl_inv t"
  shows "\<exists>t' d. cs_agent s' = (cs_agent s)\<lparr>shm_tbl := Some t', dump := d\<rparr> \<and> tbl_inv t' \<and> queues_ok (cs_agent s')
    \<and> (t' = t \<and> d = dump (cs_agent s) \<or> tbl_map (slots t') = Map.empty)"
proof -
  let ?a = "cs_agent s"
  have q: "queues_ok (?a\<lparr>shm_tbl := x, dump := d\<rparr>)" for x d
    using assms(2) by (simp add: queues_ok_def watch_ok_def gray_ok_def trigger_ok_def maps_ok_def)
  from cmd_proc_touched [OF assms(1)] consider "cs_agent s' = ?a" | d where "cs_agent s' = (qconf_clear_shm_tbl ?a)\<lparr>dump := d\<rparr>"
    unfolding touched_def by blast
  then show ?thesis
  proof cases
    case 1
    then have "cs_agent s' = ?a\<lparr>shm_tbl := Some t, dump := dump ?a\<rparr>" using assms(3) by simp
    then show ?thesis using q assms(4) by metis
  next
    case 2
    then have "cs_agent s' = ?a\<lparr>shm_tbl := Some (qhasharr_clear t), dump := d\<rparr>"
      using assms(3) by (simp add: qconf_clear_shm_tbl_def hash_tbl_clear_def)
    then show ?thesis using q qhasharr_clear_spec [OF assms(4)] by metis
  qed
qed

section \<open>Clearing everything\<close>

lemma clear_line: "command_parameters ''clear-all'' = [''clear-all'']"
  by code_simp

lemma run_clear:
  assumes "gdbm_laws (ce_gdbm ce)" "ce_dump_file ce \<noteq> []" "gdbm_open (ce_gdbm ce) (ce_dump_file ce) GDBM_NEWDB \<noteq> None"
    and "shm_tbl (cs_agent s) = Some t"
  shows "run_command ce [''clear-all''] s = (QCONF_OK, ''clear share memory success!'',
    s\<lparr>cs_agent := (cs_agent s)\<lparr>shm_tbl := Some (qhasharr_clear t), dump := Map.empty\<rparr>, cs_open := True\<rparr>)"
proof -
  from assms(3) obtain d where d: "gdbm_open (ce_gdbm ce) (ce_dump_file ce) GDBM_NEWDB = Some d" by blast
  then have "d = Map.empty" using assms(1) unfolding gdbm_laws_def by blast
  then have "snd (qconf_dump_clear (ce_gdbm ce) (ce_dump_file ce) x) = Some Map.empty" for x
    using assms(2) d by (simp add: qconf_dump_clear_def qconf_init_dbf_flags_def)
  then show ?thesis
    using assms(4) by (simp add: run_command_def operate_clear_all_def Let_def qconf_clear_shm_tbl_def hash_tbl_clear_def)
qed

lemma single_clear:
  assumes "gdbm_laws (ce_gdbm ce)" "ce_dump_file ce \<noteq> []" "gdbm_open (ce_gdbm ce) (ce_dump_file ce) GDBM_NEWDB \<noteq> None"
    and "shm_tbl (cs_agent s) = Some t" "pid \<noteq> []" "command_parameters line = [''clear-all'']"
  shows "cs_agent (snd (single_command_process ce line pid s)) = (cs_agent s)\<lparr>shm_tbl := Some (qhasharr_clear t), dump := Map.empty\<rparr>"
    "cs_open (snd (single_command_process ce line pid s))"
proof -
  have "line \<noteq> []" using assms(6) by (auto simp: command_parameters_def getline_pieces.simps [of _ "[]"])
  then show "cs_agent (snd (single_command_process ce line pid s)) = (cs_agent s)\<lparr>shm_tbl := Some (qhasharr_clear t), dump := Map.empty\<rparr>"
    "cs_open (snd (single_command_process ce line pid s))"
    using assms(5,6) run_clear [OF assms(1-4)] by (simp_all add: single_command_process_def split: prod.splits)
qed

lemma one_file_run:
  assumes "ce_list ce (cstr (ce_cmd_dir ce)) = Some [''cmd'' @ pid]" "cs_files s (cstr (ce_cmd_dir ce @ ''/'' @ ''cmd'' @ pid)) = Some ''clear-all''"
    and "ce_unlink ce (cstr (ce_cmd_dir ce @ ''/'' @ ''cmd'' @ pid))" "s1 = snd (single_command_process ce ''clear-all'' pid s)"
  shows "qconf_cmd_proc ce s = Some (1, s1\<lparr>cs_files := (cs_files s1)(cstr (ce_cmd_dir ce @ ''/'' @ ''cmd'' @ pid) := None)\<rparr>)"
proof -
  have "getline_pieces (CHR 0x0A) ''clear-all'' = [''clear-all'']" by code_simp
  then show ?thesis using assms by (simp add: qconf_cmd_proc_def Let_def)
qed

text \<open>
  The command \<open>clear-all\<close> in a command file: the file is counted and removed, the table is empty
  and consistent, the dump is empty and open, and the console finds the confirmation at the end of
  its result file.
\<close>

lemma clear_all_clears:
  assumes "gdbm_laws (ce_gdbm ce)" and "ce_dump_file ce \<noteq> []" and "gdbm_open (ce_gdbm ce) (ce_dump_file ce) GDBM_NEWDB \<noteq> None"
    and "shm_tbl (cs_agent s) = Some t" and "tbl_inv t" and "pid \<noteq> []"
    and "ce_list ce (cstr (ce_cmd_dir ce)) = Some [''cmd'' @ pid]"
    and "file = cstr (ce_cmd_dir ce @ ''/'' @ ''cmd'' @ pid)" and "cs_files s file = Some ''clear-all''" and "ce_unlink ce file"
    and "answer = cstr (ce_result_dir ce @ ''/'' @ ''result'' @ pid)" and "ce_writable ce answer" and "answer \<noteq> file"
  shows "\<exists>s' t'. qconf_cmd_proc ce s = Some (1, s') \<and> shm_tbl (cs_agent s') = Some t' \<and> tbl_inv t' \<and> tbl_map (slots t') = Map.empty
    \<and> dump (cs_agent s') = Map.empty \<and> cs_open s' \<and> cs_files s' file = None
    \<and> cs_files s' answer = Some ((case cs_files s answer of None \<Rightarrow> [] | Some c \<Rightarrow> c) @ ''clear share memory success!'' @ [CHR 0x0A])"
proof -
  let ?s1 = "snd (single_command_process ce ''clear-all'' pid s)"
  have r: "qconf_cmd_proc ce s = Some (1, ?s1\<lparr>cs_files := (cs_files ?s1)(file := None)\<rparr>)"
    using one_file_run [OF assms(7) _ _ refl] assms(9,10) unfolding assms(8) by blast
  have f: "cs_files ?s1 answer = Some ((case cs_files s answer of None \<Rightarrow> [] | Some c \<Rightarrow> c) @ ''clear share memory success!'' @ [CHR 0x0A])"
    using run_clear [OF assms(1-4)] assms(6,12) unfolding assms(11)
    by (simp add: single_command_process_def clear_line qconf_write_file_def Let_def)
  note c = single_clear [OF assms(1-4,6) clear_line]
  show ?thesis using r f c qhasharr_clear_spec [OF assms(5)] assms(13) by simp
qed

text \<open>
  C32: Clearing the table loses the local IDC: after the command \<open>clear-all\<close> a driver that is asked
  for any path without an IDC, and that reads the table the command has left, fails with
  \<open>QCONF_ERR_NOT_FOUND\<close> without sending a request, although the agent still knows its IDC.
\<close>

theorem clear_all_loses_local_idc:
  assumes "gdbm_laws (ce_gdbm ce)" and "ce_dump_file ce \<noteq> []" and "gdbm_open (ce_gdbm ce) (ce_dump_file ce) GDBM_NEWDB \<noteq> None"
    and "shm_tbl (cs_agent s) = Some t" and "tbl_inv t" and "pid \<noteq> []" and "command_parameters line = [''clear-all'']"
    and "s' = snd (single_command_process ce line pid s)"
    and "ready st" and "\<forall>m. en_mem en m" and "Some (en_live en (d_reads st)) = shm_tbl (cs_agent s')"
  shows "qconf_get_raw en st path old dt [] flags = (QCONF_ERR_NOT_FOUND, old, st\<lparr>d_reads := d_reads st + 1\<rparr>)
    \<and> local_idc (cs_agent s') = local_idc (cs_agent s)"
proof -
  have a: "cs_agent s' = (cs_agent s)\<lparr>shm_tbl := Some (qhasharr_clear t), dump := Map.empty\<rparr>"
    unfolding assms(8) by (rule single_clear(1) [OF assms(1-4,6,7)])
  then have live: "en_live en (d_reads st) = qhasharr_clear t" using assms(11) by simp
  let ?k = "snd (serialize_to_tblkey QCONF_DATA_TYPE_LOCAL_IDC [] [])"
  have k: "?k \<noteq> []" by (simp add: serialize_to_tblkey_def)
  have "hash_tbl_get (en_mem en) (Some (qhasharr_clear t)) ?k [] = (QCONF_ERR_NOT_FOUND, [])"
    using hash_tbl_get_map [OF _ assms(10) k, of "qhasharr_clear t" "[]"] qhasharr_clear_spec [OF assms(5)] by simp
  then have "qconf_get_localidc (en_mem en) (Some (qhasharr_clear t)) [] = (QCONF_ERR_NOT_FOUND, [])"
    by (simp add: qconf_get_localidc_def Let_def)
  then show ?thesis using a live assms(9) by (simp add: qconf_get_raw_def init_qconf_env_def init_shm_def init_msg_def tbl_now_def)
qed

text \<open>A file whose name is a beginning letter of the prefix ends the agent.\<close>

lemma short_name_aborts:
  assumes "ce_list ce (cstr (ce_cmd_dir ce)) = Some (f # fs)" "f \<noteq> []" "hd f \<in> set ''cmd''" "length f < 3"
    and "cs_files s (cstr (ce_cmd_dir ce @ ''/'' @ f)) \<noteq> None"
  shows "qconf_cmd_proc ce s = None"
  using assms by (auto simp: qconf_cmd_proc_def Let_def)

section \<open>Examples\<close>

definition console_env :: cmd_env where
  "console_env = \<lparr>ce_gdbm = mem_gdbm, ce_dump_file = ''/q/dumps/_dump.gdbm'', ce_cmd_dir = ''/q/cmd'', ce_result_dir = ''/q/result'',
     ce_list = \<lambda>_. Some [''cmd7''], ce_writable = \<lambda>_. True, ce_unlink = \<lambda>_. True\<rparr>"

definition console_state :: "qhasharr_s \<Rightarrow> cmd_state" where
  "console_state t = \<lparr>cs_agent = (idle_agent (Some t))\<lparr>dump := [''k'' \<mapsto> ''v'']\<rparr>, cs_open = True, cs_files = [''/q/cmd/cmd7'' \<mapsto> ''clear-all'']\<rparr>"

lemma console:
  "gdbm_laws (ce_gdbm console_env)" "ce_dump_file console_env \<noteq> []"
  "gdbm_open (ce_gdbm console_env) (ce_dump_file console_env) GDBM_NEWDB \<noteq> None"
  "shm_tbl (cs_agent (console_state t)) = Some t" "queues_ok (cs_agent (console_state t))"
  using mem_gdbm_laws(1)
  by (simp_all add: console_env_def console_state_def mem_gdbm_def idle_agent_def queues_ok_def watch_ok_def gray_ok_def trigger_ok_def maps_ok_def omap_ok_def)

lemma table_with_idc:
  obtains t where "qconf_get_localidc (\<lambda>_. True) (Some t) [] = (QCONF_OK, ''i'')" "tbl_inv t"
proof -
  let ?v = "snd (localidc_to_tblval local_idc_key ''i'')"
  have "length ?v \<le> 40" unfolding local_idc_key by (simp add: localidc_to_tblval_def qconf_append_idc_def qconf_string_append_def)
  then obtain t where "hash_tbl_get (\<lambda>_. True) (Some t) local_idc_key [] = (QCONF_OK, ?v)" "tbl_inv t"
    using stored_example [of local_idc_key ?v] unfolding local_idc_key by auto
  then have "qconf_get_localidc (\<lambda>_. True) (Some t) [] = (QCONF_OK, ''i'')" "tbl_inv t"
    using localidc_rt [of "''i''" "[]"] by (simp_all add: qconf_get_localidc_def Let_def)
  then show ?thesis by (rule that)
qed

lemma console_files:
  "''7'' \<noteq> []" "ce_list console_env (cstr (ce_cmd_dir console_env)) = Some [''cmd'' @ ''7'']"
  "''/q/cmd/cmd7'' = cstr (ce_cmd_dir console_env @ ''/'' @ ''cmd'' @ ''7'')" "cs_files (console_state t) ''/q/cmd/cmd7'' = Some ''clear-all''"
  "ce_unlink console_env ''/q/cmd/cmd7''" "''/q/result/result7'' = cstr (ce_result_dir console_env @ ''/'' @ ''result'' @ ''7'')"
  "ce_writable console_env ''/q/result/result7''" "''/q/result/result7'' \<noteq> ''/q/cmd/cmd7''"
  by (simp_all add: console_env_def console_state_def cstr_def NUL_def)

lemma clear_all_clears_example:
  "\<exists>t s'. qconf_get_localidc (\<lambda>_. True) (Some t) [] = (QCONF_OK, ''i'') \<and> qconf_cmd_proc console_env (console_state t) = Some (1, s')
    \<and> cs_files s' ''/q/result/result7'' = Some (''clear share memory success!'' @ [CHR 0x0A]) \<and> dump (cs_agent s') = Map.empty"
proof -
  obtain t where t: "qconf_get_localidc (\<lambda>_. True) (Some t) [] = (QCONF_OK, ''i'')" "tbl_inv t" by (rule table_with_idc)
  have n: "cs_files (console_state t) ''/q/result/result7'' = None" by (simp add: console_state_def)
  from clear_all_clears [OF console(1-4) t(2) console_files] n t(1) show ?thesis by auto
qed

theorem clear_all_loses_local_idc_witness:
  "\<exists>t en. qconf_get_localidc (\<lambda>_. True) (Some t) [] = (QCONF_OK, ''i'')
    \<and> Some (en_live en 0) = shm_tbl (cs_agent (snd (single_command_process console_env ''clear-all'' ''7'' (console_state t))))
    \<and> fst (qconf_get_raw en attached ''/p'' [] QCONF_DATA_TYPE_NODE [] QCONF_WAIT) = QCONF_ERR_NOT_FOUND"
proof -
  obtain t where t: "qconf_get_localidc (\<lambda>_. True) (Some t) [] = (QCONF_OK, ''i'')" "tbl_inv t" by (rule table_with_idc)
  let ?en = "(late_env t)\<lparr>en_live := \<lambda>_. qhasharr_clear t\<rparr>" and ?s = "snd (single_command_process console_env ''clear-all'' ''7'' (console_state t))"
  have p: "''7'' \<noteq> []" "ready attached" "\<forall>m. en_mem ?en m" by simp_all
  have live: "Some (en_live ?en (d_reads attached)) = shm_tbl (cs_agent ?s)"
    using single_clear(1) [OF console(1-4) p(1) clear_line] by simp
  then have "Some (en_live ?en 0) = shm_tbl (cs_agent ?s)" by (simp add: drv_start_def)
  moreover have "fst (qconf_get_raw ?en attached ''/p'' [] QCONF_DATA_TYPE_NODE [] QCONF_WAIT) = QCONF_ERR_NOT_FOUND"
    using clear_all_loses_local_idc [OF console(1-4) t(2) p(1) clear_line refl p(2,3) live, of "''/p''" "[]" QCONF_DATA_TYPE_NODE QCONF_WAIT]
    by (simp only: fst_conv)
  ultimately show ?thesis using t(1) by blast
qed

lemma commands_only_clear_example:
  "\<exists>t s' t'. qconf_get_localidc (\<lambda>_. True) (Some t) [] = (QCONF_OK, ''i'') \<and> qconf_cmd_proc console_env (console_state t) = Some (1, s')
    \<and> shm_tbl (cs_agent s') = Some t' \<and> tbl_inv t' \<and> queues_ok (cs_agent s')"
proof -
  obtain t where t: "qconf_get_localidc (\<lambda>_. True) (Some t) [] = (QCONF_OK, ''i'')" "tbl_inv t" by (rule table_with_idc)
  obtain s' where s: "qconf_cmd_proc console_env (console_state t) = Some (1, s')"
    using one_file_run [OF console_files(2) _ _ refl, of "console_state t"] console_files(4,5) unfolding console_files(3) by blast
  from commands_only_clear [OF s console(5,4) t(2)] obtain t' d where
    "cs_agent s' = (cs_agent (console_state t))\<lparr>shm_tbl := Some t', dump := d\<rparr>" "tbl_inv t'" "queues_ok (cs_agent s')" by blast
  moreover from this(1) have "shm_tbl (cs_agent s') = Some t'" by simp
  ultimately show ?thesis using t(1) s by blast
qed

end
