(* ===== verification/Spec2Isabelle.thy ===== *)
theory Spec2Isabelle
  imports QDriverThms QAgentThms QServices QCmd
begin

text \<open>
  QConf distributes configuration. Values live in nodes of ZooKeeper; on every host one \<^emph>\<open>agent\<close>
  copies the nodes that are asked for into a hash table in shared memory and keeps them up to date;
  applications read the table through a \<^emph>\<open>driver\<close> library and, when a key is missing, send it to
  the agent through a System V message queue and wait for the table to change. Operators write the
  nodes through a \<^emph>\<open>manager\<close> library, which also releases new values to chosen hosts first.

  \<^bold>\<open>Parts and theories\<close> (paths below \<open>src/\<close>)

  \<^item> \<open>QPrelude\<close>, \<open>QCommon\<close>: shared lists, strings, widths, the locales \<open>kv_store\<close> (a map with lookup,
    store and delete) and \<open>recency\<close> (a list with the most recent key first); the constants of
    \<open>base/qconf_common.h\<close> and \<open>agent/qconf_const.h\<close>.
  \<^item> \<open>QHash\<close>: \<open>base/qlibc/qhash.c\<close>, \<open>md5.c\<close>. MurmurHash3 variant and MD5 on 32-bit words.
  \<^item> \<open>QFormat\<close>: \<open>base/qconf_format.cc\<close>. Keys and values as byte strings, one definition per C++
    function; an error code is the first component of the result, next to what the function leaves
    in its output arguments. The locales \<open>field_codec\<close> and \<open>field_pair\<close> give the round trips of
    length-prefixed fields.
  \<^item> \<open>QHasharr\<close>: \<open>base/qlibc/qhasharr.c\<close>. The array of slots as a record with a list of slots;
    \<open>QHasharrInv\<close>, \<open>QHasharrLoop\<close>, \<open>QHasharrMove\<close>, \<open>QHasharrPut\<close>, \<open>QHasharrRemove\<close>, \<open>QHasharrOps\<close>,
    \<open>QHasharrSpec\<close> build the invariant \<open>tbl_inv\<close> and the abstract map \<open>tbl_map\<close> operation by
    operation, \<open>QHasharrThms\<close> states the results.
  \<^item> \<open>QShm\<close>, \<open>QShmThms\<close>: \<open>base/qconf_shm.cc\<close>. Values framed with a second copy or an MD5 sum, set
    with eviction of the coldest key, the LRU list, enumeration, local IDC.
  \<^item> \<open>QMsg\<close>: \<open>base/qconf_msg.cc\<close>.
  \<^item> \<open>QDriver\<close>, \<open>QDriverThms\<close>: \<open>driver/c++/src/\<close>. The state of the library is the record \<open>drv\<close>; the
    table is a function from the number of the read to its content at that moment, so that the agent
    may change it between any two reads.
  \<^item> \<open>QConfig\<close>, \<open>QZoo\<close>, \<open>QDump\<close>, \<open>QGray\<close>, \<open>QTrigger\<close>: \<open>agent/qconf_config.cc\<close>, \<open>qconf_zoo.cc\<close>,
    \<open>qconf_dump.cc\<close>, \<open>qconf_gray.cc\<close>, \<open>qconf_script.cc\<close> and \<open>qconf_feedback.cc\<close>.
  \<^item> \<open>QWatcher\<close>: \<open>agent/qconf_watcher.cc\<close>. The static variables of the agent are the record \<open>agent\<close>,
    its surroundings the record \<open>agent_env\<close>; every function is a definition and every thread
    function is one round of its loop. \<open>QWatcherThms\<close> runs the threads as the step relation
    \<open>agent_run\<close>, where a critical section is one step, and gives the three queues the common
    contract \<open>dedup_queue\<close>; \<open>QAgentThms\<close> follows one key through the main thread.
  \<^item> \<open>QManager\<close>: \<open>manager/src/c/qconf_zk.cc\<close>. The object is the record \<open>QConfZK\<close>, with the tree of
    nodes that the calls change; \<open>QManagerLaws\<close> states what a server promises (\<open>zk_laws\<close>) and when it
    decides every call (\<open>zk_decides\<close>) and gives the effect of every operation; \<open>QManagerThms\<close>,
    \<open>QRelease\<close> and \<open>QServices\<close> follow releases and services from the manager to the agents.
  \<^item> \<open>QCmd\<close>: \<open>agent/qconf_cmd.cc\<close>. The command files as a map from paths to contents, next to the
    record \<open>agent\<close>.

  \<^bold>\<open>What is outside the sources\<close>

  The operating system, the ZooKeeper client, gdbm, curl and the name service are arguments of the
  definitions: the records \<open>drv_env\<close>, \<open>zk_env\<close> (whose answers depend on the number of the call, so
  that ZooKeeper may change or fail between two calls), the gdbm operations with the laws
  \<open>gdbm_laws\<close>, and \<open>agent_env\<close>. The server that the manager writes to is the record
  \<open>zk_server\<close>. A failing \<open>malloc\<close> is the argument \<open>mem\<close>, which says which sizes can be
  allocated. Two idealisations: the theorems that assume \<open>zk_decides\<close> are about a server that
  answers every call and accepts values of every length, and the agent's scan of the table sees the
  table as it was when the scan began.

  \<^bold>\<open>What is shown\<close>

  \<^item> Table: put, get and remove refine update, lookup and deletion on a finite map and keep the
    invariant, also after any history of operations; the slots in use are those that the stored
    values need; a full table is reported and leaves the other keys alone; enumeration and
    initialisation.
  \<^item> Shared-memory interface: what is set is read back, a torn value is rejected, a set into a full
    table evicts the coldest keys, as few as possible and no others, and succeeds when the value fits
    beside the entry of the local IDC, which is never evicted.
  \<^item> Formats and hashes: round trips, and equality with reference definitions.
  \<^item> Driver: a request is sent exactly when a key is missing, at most a hundred further reads are
    made, only verified values are returned, for the given data centre or for the local one, and the
    caller's buffers are respected.
  \<^item> Agent: each data type ends in the table as ZooKeeper has it, or is removed, or comes from the
    dump; queues and their sets agree in every reachable state; requests are served in order; events
    queue their key again; dump, gray releases and scripts do what they promise; the commands of a
    console change nothing but the table and the dump, and clearing them loses the local IDC.
  \<^item> Manager: creating a node with its ancestors ends; services that are set are read back; a gray
    release reaches the agents, a commit applies it and a rollback takes it back.
  \<^item> Parts together: services and releases from the manager to the agents (\<open>QServices\<close>, \<open>QRelease\<close>),
    a node from ZooKeeper through the agent to a waiting driver (this theory).

  \<^bold>\<open>Bounds and loops\<close>

  Loops with an index end by a measure. The three retries of a ZooKeeper call and of a transfer and
  the hundred reads of the driver are those of the sources. Some loops have no bound of their own:
  the collection of the pieces of a gray notification, the \<open>select\<close> that waits for a script, and in
  the manager the creation of missing ancestors and the loops over the pieces of a notification. They
  are partial functions, \<open>None\<close> is running for ever; collecting, creating, committing and rolling
  back are shown to end.

  \<^bold>\<open>Not modelled\<close>

  Log output, condition variables and mutexes (a critical section is one step), the forked script
  process and the daemon's process control (\<open>agent/qconf_daemon.cc\<close>, \<open>qconf_lock.cc\<close>), which
  consist of system calls; the start of the process in \<open>agent/qconf_agent.cc\<close>; the bindings under \<open>driver/\<close> other than C++, which only convert
  arguments; \<open>monitor/\<close> and the demonstration server of \<open>manager/\<close>; libraries under \<open>deps/\<close>.
\<close>

text \<open>
  C1: A value travels from ZooKeeper to a waiting client: the driver finds its key missing and sends
  it; the agent receives the message, reads the node from ZooKeeper and stores it; and when one of
  the driver's next hundred reads sees the table that the agent has left (and none before it finds a
  value), the client gets exactly the data of the node.  The request names its data centre; the agent
  is idle, has a connection to the data centre and no gray release of the node; and the value can be
  stored: the LRU list tracks every key of the table but the local IDC, and the slots beside the
  entry of the local IDC suffice for the value.
\<close>

theorem agent_serves_driver:
  assumes "ready st" and "idc \<noteq> []" and "path \<noteq> []" and "length idc < 256" and "length path < 65536" and "length d < 4294967296"
    and "key = node_tblkey idc path" and "\<forall>y. \<not> holds_at en key (d_reads st) y"
    and "fst (send_msg (en_msgsnd en) (d_sends st) key) = QCONF_OK"
    and "queues_ok a" and "need_watch_nodes a = []" and "\<not> stop_watcher_setting a" and "shm_tbl a = Some t" and "tbl_inv t"
    and "is_gray_node key (gray a) = None" and "\<forall>n. ae_mem e n" and "gdbm_laws (ae_gdbm e)"
    and "msg_process (Inr key) msgget msgkey old_key a = Some (key', a1)"
    and "get_zhandle_by_idc e idc (snd (deque_take a1)) = (Some hdl, a2)"
    and "zk_get_node (ae_zk e) (zk_calls a2) (Some hdl) path [] = (QCONF_OK, d, n)"
    and "storable t (lru a) key (snd (nodeval_to_tblval key d))"
    and "i < 100" and "Some (en_live en (d_reads st + 1 + i)) = shm_tbl (deque_process e a1)" and "en_mem en = ae_mem e"
    and "\<forall>j<i. \<forall>y. \<not> holds_at en key (d_reads st + 1 + j) y"
  shows "\<exists>st'. qconf_get en st path buf idc QCONF_WAIT = (QCONF_OK, d, st') \<and> d_sent st' = d_sent st @ [key]"
proof -
  have key: "key \<noteq> []" unfolding assms(7) by (rule serialize_nonempty)
  have ser: "serialize_to_tblkey QCONF_DATA_TYPE_NODE idc path = (QCONF_OK, key)"
    using node_key_ok(1) [of idc path] assms(7) by simp
  have "exist_watch_nodes a = {}" using assms(10,11) by (simp add: queues_ok_def watch_ok_def)
  then have a1: "a1 = a\<lparr>need_watch_nodes := [key], exist_watch_nodes := {key}\<rparr>"
    using assms(11,12,18) key by (auto simp: msg_process_def receive_msg_def add_watcher_node_def)
  define b where "b = snd (deque_take a1)"
  have b: "deque_take a1 = (key, b)" "shm_tbl b = Some t" "lru b = lru a" "trigger_ok b" "gray b = gray a"
    using assms(10,13) by (simp_all add: b_def a1 deque_take_def take_watch_def add_pending_node_def queues_ok_def)
  define val where "val = snd (nodeval_to_tblval key d)"
  have z: "zk_tblval (ae_zk e) (zk_calls a2) (Some hdl) QCONF_DATA_TYPE_NODE key path = (QCONF_OK, val)"
    using assms(20) by (simp add: zk_tblval_def val_def)
  have u: "user_type QCONF_DATA_TYPE_NODE" by (simp add: user_type_def)
  have gr: "is_gray_node key (gray b) = None" using assms(15) b(5) by simp
  have st1: "QCONF_OK = QCONF_OK \<longrightarrow> storable t (lru b) key val" using assms(21) b(3) by (simp add: val_def)
  have st2: "QCONF_OK = QCONF_ERR_ZOO_FAILED \<longrightarrow> (\<forall>v. dump b key = Some v \<longrightarrow> storable t (lru b) key v)" by simp
  obtain ret a3 where s: "set_watcher_and_update_tbl e key b = (ret, a3)" "hash_tbl_get (ae_mem e) (shm_tbl a3) key [] = (QCONF_OK, val)"
    using set_watcher_cases [OF b(2) assms(14) b(4) assms(16,17) gr u assms(7,4,5) assms(19) [folded b_def] z st1 st2] by blast
  have "shm_tbl (deque_process e a1) = shm_tbl a3"
    using b(1) s(1) key by (simp add: deque_process_def deque_work_def del_pending_node_def)
  then have h: "holds_at en key (d_reads st + 1 + i) val" unfolding holds_at_def assms(23,24) using s(2) by simp
  obtain st' where g: "qconf_get_raw en st path [] QCONF_DATA_TYPE_NODE idc QCONF_WAIT = (QCONF_OK, val, st')" "d_sent st' = d_sent st @ [key]"
    using get_raw_waits [OF assms(1,2) ser assms(8,9,22) h assms(25)] by blast
  have "tblval_to_nodeval val buf = (QCONF_OK, d)"
    using nodeval_rt [OF assms(4,5,6), of "([], [], [])" buf] by (simp add: Let_def val_def assms(7))
  then show ?thesis using g assms(3) by (simp add: qconf_get_def)
qed

theorem agent_serves_driver_witness:
  "\<exists>t st'. qconf_get ((late_env t)\<lparr>en_live := \<lambda>n. if n = 0 then started_tbl else t\<rparr>) attached ''/p'' [] ''i'' QCONF_WAIT = (QCONF_OK, ''v'', st')
    \<and> shm_tbl (deque_process one_node_env (add_watcher_node (node_tblkey ''i'' ''/p'') started_agent)) = Some t"
proof -
  define key where "key = node_tblkey ''i'' ''/p''"
  let ?a = "started_agent" and ?e = "one_node_env" and ?val = "snd (nodeval_to_tblval key ''v'')"
  define a1 where "a1 = add_watcher_node key ?a"
  define b where "b = snd (deque_take a1)"
  have k: "key \<noteq> []" "length key = 7" by (simp_all add: key_def node_key_ok(2,3))
  have q: "queues_ok ?a"
    by (simp add: started_agent_def connected_agent_def idle_agent_def queues_ok_def watch_ok_def gray_ok_def trigger_ok_def maps_ok_def omap_ok_def)
  have b: "deque_take a1 = (key, b)" "shm_tbl b = Some started_tbl" "lru b = new_LRU" "trigger_ok b" "gray b = gray ?a" "zk_calls b = 0"
    "get_zhandle_by_idc ?e ''i'' b = (Some 1, b)"
    using k(1) by (simp_all add: b_def a1_def deque_take_def take_watch_def add_pending_node_def add_watcher_node_def
        started_agent_def connected_agent_def idle_agent_def trigger_ok_def one_node_env_def plain_env_def get_zhandle_by_idc_def get_idc_conf_def Let_def)
  have m: "ae_mem ?e = (\<lambda>_. True)" "\<forall>n. ae_mem ?e n" "gdbm_laws (ae_gdbm ?e)"
    using connected(11,12) mem_gdbm_laws(1) by auto
  have z: "zk_get_node (ae_zk ?e) (zk_calls b) (Some 1) ''/p'' [] = (QCONF_OK, ''v'', zk_calls b + 1)"
    by (rule get_node_at_once) (simp_all add: one_node_env_def plain_env_def zk_static_def cstr_def NUL_def)
  have st: "storable started_tbl (lru ?a) key ?val" using node_value_storable started(2) by (simp add: key_def)
  define t where "t = the (shm_tbl (deque_process ?e a1))"
  have t: "Some t = shm_tbl (deque_process ?e a1)"
  proof -
    have zt: "zk_tblval (ae_zk ?e) (zk_calls b) (Some 1) QCONF_DATA_TYPE_NODE key ''/p'' = (QCONF_OK, ?val)" by (rule one_node_value)
    have g: "is_gray_node key (gray b) = None" using started(4) b(5) by simp
    have p: "user_type QCONF_DATA_TYPE_NODE" "length ''i'' < 256" "length ''/p'' < 65536"
      "QCONF_OK = QCONF_OK \<longrightarrow> storable started_tbl (lru b) key ?val"
      "QCONF_OK = QCONF_ERR_ZOO_FAILED \<longrightarrow> (\<forall>v. dump b key = Some v \<longrightarrow> storable started_tbl (lru b) key v)"
      using st b(3) started(2) by (simp_all add: user_type_def)
    obtain ret a3 where s: "set_watcher_and_update_tbl ?e key b = (ret, a3)" "hash_tbl_get (ae_mem ?e) (shm_tbl a3) key [] = (QCONF_OK, ?val)"
      using set_watcher_cases [OF b(2) started_table(1) b(4) m(2,3) g p(1) key_def p(2,3) b(7) zt p(4,5)] by blast
    have "shm_tbl (deque_process ?e a1) = shm_tbl a3"
      using b(1) s(1) k(1) by (simp add: deque_process_def deque_work_def del_pending_node_def)
    then show ?thesis using s(2) by (cases "shm_tbl a3") (simp_all add: hash_tbl_get_def t_def)
  qed
  let ?en = "(late_env t)\<lparr>en_live := \<lambda>n. if n = 0 then started_tbl else t\<rparr>"
  have "store_id 4 key \<noteq> store_id 4 QCONF_KEY_TYPE_LOCAL_IDC" using idc_key_other unfolding local_idc_key key_def .
  then have e0: "\<forall>y. \<not> holds_at ?en key (d_reads attached) y"
    using hash_tbl_get_map [OF started_table(1), of "\<lambda>_. True" key "[]"] started_table(2,3) k(1)
    by (simp add: holds_at_def drv_start_def)
  have snd: "fst (send_msg (en_msgsnd ?en) (d_sends attached) key) = QCONF_OK"
    using k by (simp add: send_msg_def send_loop_unfold drv_start_def)
  have mp: "msg_process (Inr key) (\<lambda>_ _. Some 1) 1 [] ?a = Some (key, a1)"
    using started(7) by (simp add: msg_process_def receive_msg_def a1_def)
  have lv: "Some (en_live ?en (d_reads attached + 1 + 0)) = shm_tbl (deque_process ?e a1)"
    using t by (simp add: drv_start_def)
  have r: "ready attached" "en_mem ?en = ae_mem ?e" using m(1) by simp_all
  have "\<exists>st'. qconf_get ?en attached ''/p'' [] ''i'' QCONF_WAIT = (QCONF_OK, ''v'', st') \<and> d_sent st' = d_sent attached @ [key]"
    by (rule agent_serves_driver [OF r(1) _ _ _ _ _ key_def e0 snd q started(6,7,1) started_table(1) started(4) m(2,3) mp
          b(7) [unfolded b_def] z [unfolded b_def] st _ lv r(2)]) simp_all
  then show ?thesis using t unfolding a1_def key_def by metis
qed

end
